(* ===== verification/Prelude.thy ===== *)
theory Prelude
  imports Complex_Main "HOL-Library.AList"
begin

text \<open>
  The vocabulary every component shares: Python's exceptions as a datatype (a fallible
  operation returns \<open>pyexc + 'a\<close>), Python's floating-point numbers as the clocks and
  time-to-live values use them, and the facts on association lists that carry the
  proofs about Python dictionaries. A dictionary keeps its insertion order, so it is an
  association list with distinct keys: \<^term>\<open>map_of\<close> reads it, \<^term>\<open>AList.update\<close>
  overwrites in place or appends (as \<open>d[k] = v\<close> does), \<^term>\<open>AList.delete\<close> removes.
\<close>

section \<open>Exceptions\<close>

datatype pyexc =
    ValueError | TypeError | KeyError | IndexError | AttributeError | AssertionError
  | RuntimeError | LookupError | OSError | PolicyError | JSONDecodeError | UnicodeDecodeError | RecursionError

text \<open>What \<open>except ValueError\<close> catches: \<open>PolicyError\<close> is the program's own subclass, the two errors of decoding
  are subclasses of the library.\<close>

definition value_error :: "pyexc \<Rightarrow> bool" where
  "value_error e \<longleftrightarrow> e \<in> {ValueError, PolicyError, JSONDecodeError, UnicodeDecodeError}"

text \<open>Sequencing of fallible computations: the first exception wins.\<close>

definition bindE :: "'e + 'a \<Rightarrow> ('a \<Rightarrow> 'e + 'b) \<Rightarrow> 'e + 'b" where
  "bindE m f = (case m of Inl e \<Rightarrow> Inl e | Inr x \<Rightarrow> f x)"

lemma bindE_simps [simp]:
  "bindE (Inl e) f = Inl e" "bindE (Inr x) f = f x"
  by (simp_all add: bindE_def)

lemma bindE_eq_Inr: "bindE m f = Inr y \<longleftrightarrow> (\<exists>x. m = Inr x \<and> f x = Inr y)"
  by (cases m) auto

lemma bindE_eq_Inl: "bindE m f = Inl e \<longleftrightarrow> m = Inl e \<or> (\<exists>x. m = Inr x \<and> f x = Inl e)"
  by (cases m) auto

lemma bindE_cong [fundef_cong]:
  assumes "m = n" and "\<And>x. n = Inr x \<Longrightarrow> f x = g x"
  shows "bindE m f = bindE n g"
  using assms by (cases n) simp_all

text \<open>A list comprehension whose element expression may raise.\<close>

fun mapE :: "('a \<Rightarrow> 'e + 'b) \<Rightarrow> 'a list \<Rightarrow> 'e + 'b list" where
  "mapE f [] = Inr []"
| "mapE f (x # xs) = bindE (f x) (\<lambda>y. bindE (mapE f xs) (\<lambda>ys. Inr (y # ys)))"

lemma mapE_cong [fundef_cong]:
  assumes "xs = ys" and "\<And>x. x \<in> set ys \<Longrightarrow> f x = g x"
  shows "mapE f xs = mapE g ys"
  unfolding assms(1) using assms(2) by (induction ys) simp_all

lemma mapE_eq_Inr:
  "mapE f xs = Inr ys \<longleftrightarrow> list_all2 (\<lambda>x y. f x = Inr y) xs ys"
  by (induction xs arbitrary: ys) (auto simp: bindE_eq_Inr list_all2_Cons1)

text \<open>A loop over a list that updates a state and may raise.\<close>

fun foldE :: "('s \<Rightarrow> 'a \<Rightarrow> 'e + 's) \<Rightarrow> 's \<Rightarrow> 'a list \<Rightarrow> 'e + 's" where
  "foldE f s [] = Inr s"
| "foldE f s (x # xs) = bindE (f s x) (\<lambda>t. foldE f t xs)"

lemma foldE_invariant:
  assumes "foldE f s xs = Inr t" and "P s"
    and "\<And>u x v. x \<in> set xs \<Longrightarrow> P u \<Longrightarrow> f u x = Inr v \<Longrightarrow> P v"
  shows "P t"
  using assms by (induction xs arbitrary: s) (auto simp: bindE_eq_Inr)

text \<open>Statements of a method that changes a state and may raise; what was done before stays done.\<close>

definition bindS :: "('s \<Rightarrow> ('e + 'a) \<times> 's) \<Rightarrow> ('a \<Rightarrow> 's \<Rightarrow> ('e + 'b) \<times> 's) \<Rightarrow> 's \<Rightarrow> ('e + 'b) \<times> 's" where
  "bindS m f s = (case m s of (Inl e, t) \<Rightarrow> (Inl e, t) | (Inr x, t) \<Rightarrow> f x t)"

definition returnS :: "'a \<Rightarrow> 's \<Rightarrow> ('e + 'a) \<times> 's" where "returnS x s = (Inr x, s)"

definition raiseS :: "'e \<Rightarrow> 's \<Rightarrow> ('e + 'a) \<times> 's" where "raiseS e s = (Inl e, s)"

definition liftS :: "'e + 'a \<Rightarrow> 's \<Rightarrow> ('e + 'a) \<times> 's" where "liftS r s = (r, s)"

definition modifyS :: "('s \<Rightarrow> 's) \<Rightarrow> 's \<Rightarrow> ('e + unit) \<times> 's" where "modifyS f s = (Inr (), f s)"

definition getS :: "('s \<Rightarrow> 'a) \<Rightarrow> 's \<Rightarrow> ('e + 'a) \<times> 's" where "getS f s = (Inr (f s), s)"

fun forS :: "('a \<Rightarrow> 's \<Rightarrow> ('e + unit) \<times> 's) \<Rightarrow> 'a list \<Rightarrow> 's \<Rightarrow> ('e + unit) \<times> 's" where
  "forS f [] s = (Inr (), s)"
| "forS f (x # xs) s = bindS (f x) (\<lambda>_. forS f xs) s"

lemma bindS_assoc: "bindS (bindS m f) g = bindS m (\<lambda>x. bindS (f x) g)"
  by (auto simp: fun_eq_iff bindS_def split: prod.split sum.split)

lemma bindS_Inr: "bindS m f s = (Inr y, u) \<longleftrightarrow> (\<exists>x t. m s = (Inr x, t) \<and> f x t = (Inr y, u))"
  by (auto simp: bindS_def split: prod.splits sum.splits)

lemma stateS [simp]:
  "returnS x s = (Inr y, t) \<longleftrightarrow> y = x \<and> t = s" "raiseS e s \<noteq> (Inr y, t)"
  "liftS r s = (Inr y, t) \<longleftrightarrow> r = Inr y \<and> t = s"
  "modifyS f s = (Inr u, t) \<longleftrightarrow> t = f s" "getS g s = (Inr y, t) \<longleftrightarrow> y = g s \<and> t = s" for u :: unit
  by (auto simp: returnS_def raiseS_def liftS_def modifyS_def getS_def)

lemma forS_invariant:
  assumes "forS f xs s = (Inr (), t)" "P s" "\<And>x u v. x \<in> set xs \<Longrightarrow> P u \<Longrightarrow> f x u = (Inr (), v) \<Longrightarrow> P v"
  shows "P t"
  using assms by (induction xs arbitrary: s) (auto simp: bindS_Inr)

text \<open>What holds after a method, for a result and for an exception.\<close>

named_theorems count_rules "operations that keep a relation between counters of the state"

definition triple :: "('s \<Rightarrow> bool) \<Rightarrow> ('s \<Rightarrow> ('e + 'a) \<times> 's) \<Rightarrow> ('a \<Rightarrow> 's \<Rightarrow> bool) \<Rightarrow> ('s \<Rightarrow> bool) \<Rightarrow> bool" where
  "triple P m Q E \<longleftrightarrow> (\<forall>s. P s \<longrightarrow> (case m s of (Inr x, t) \<Rightarrow> Q x t | (Inl e, t) \<Rightarrow> E t))"

lemma triple_bind:
  assumes "triple P m R E" "\<And>x. triple (R x) (f x) Q E"
  shows "triple P (bindS m f) Q E"
  unfolding triple_def
proof (intro allI impI)
  fix s
  assume "P s"
  obtain r t where m: "m s = (r, t)" by (cases "m s")
  with assms(1) \<open>P s\<close> have r: "case r of Inr x \<Rightarrow> R x t | Inl e \<Rightarrow> E t" by (auto simp: triple_def split: sum.splits)
  show "case bindS m f s of (Inr x, u) \<Rightarrow> Q x u | (Inl e, u) \<Rightarrow> E u"
  proof (cases r)
    case (Inr x)
    with r assms(2)[of x] have "case f x t of (Inr y, u) \<Rightarrow> Q y u | (Inl e, u) \<Rightarrow> E u" by (simp add: triple_def)
    then show ?thesis by (simp add: bindS_def m Inr)
  qed (use r in \<open>simp add: bindS_def m\<close>)
qed

lemma triple_weaken:
  "triple P' m Q' E' \<Longrightarrow> (\<And>s. P s \<Longrightarrow> P' s) \<Longrightarrow> (\<And>x s. Q' x s \<Longrightarrow> Q x s) \<Longrightarrow> (\<And>s. E' s \<Longrightarrow> E s) \<Longrightarrow> triple P m Q E"
  unfolding triple_def by (fastforce split: prod.splits sum.splits)

lemma triple_return: "(\<And>s. P s \<Longrightarrow> Q x s) \<Longrightarrow> triple P (returnS x) Q E"
  by (simp add: triple_def returnS_def)

lemma triple_raise: "(\<And>s. P s \<Longrightarrow> E s) \<Longrightarrow> triple P (raiseS e) Q E"
  by (simp add: triple_def raiseS_def)

lemma triple_lift: "(\<And>s. P s \<Longrightarrow> case r of Inr y \<Rightarrow> Q y s | Inl e \<Rightarrow> E s) \<Longrightarrow> triple P (liftS r) Q E"
  by (auto simp: triple_def liftS_def split: sum.splits)

lemma triple_modify: "(\<And>s. P s \<Longrightarrow> Q () (f s)) \<Longrightarrow> triple P (modifyS f) Q E"
  by (simp add: triple_def modifyS_def)

lemma triple_get: "(\<And>s. P s \<Longrightarrow> Q (g s) s) \<Longrightarrow> triple P (getS g) Q E"
  by (simp add: triple_def getS_def)

lemma tripleD: "triple P m Q E \<Longrightarrow> P s \<Longrightarrow> m s = (Inr x, t) \<Longrightarrow> Q x t"
  by (auto simp: triple_def)

lemma tripleE: "triple P m Q E \<Longrightarrow> P s \<Longrightarrow> m s = (Inl e, t) \<Longrightarrow> E t"
  by (auto simp: triple_def)

text \<open>A session: a list of calls on a state, with the result of each.\<close>

fun run_ops :: "('s \<Rightarrow> 'o \<Rightarrow> 'r \<times> 's) \<Rightarrow> 's \<Rightarrow> 'o list \<Rightarrow> 'r list \<times> 's" where
  "run_ops f s [] = ([], s)"
| "run_ops f s (x # xs) =
     (let (r, s') = f s x; (rs, s'') = run_ops f s' xs in (r # rs, s''))"

lemma run_ops_snoc:
  "run_ops f s (xs @ [x]) =
   (fst (run_ops f s xs) @ [fst (f (snd (run_ops f s xs)) x)], snd (f (snd (run_ops f s xs)) x))"
  by (induction xs arbitrary: s) (simp_all add: split_beta)

lemma in_set_tlD: "x \<in> set (tl xs) \<Longrightarrow> x \<in> set xs"
  by (cases xs) auto

lemma mapE_mem: "mapE f xs = Inr ys \<Longrightarrow> y \<in> set ys \<Longrightarrow> \<exists>x \<in> set xs. f x = Inr y"
  by (induction xs arbitrary: ys) (auto simp: bindE_eq_Inr)

lemma mapE_mem_result: "mapE f xs = Inr ys \<Longrightarrow> x \<in> set xs \<Longrightarrow> \<exists>y \<in> set ys. f x = Inr y"
  by (induction xs arbitrary: ys) (auto simp: bindE_eq_Inr)

lemma mapE_append:
  "mapE f (xs @ ys) = bindE (mapE f xs) (\<lambda>us. bindE (mapE f ys) (\<lambda>vs. Inr (us @ vs)))"
proof (induction xs)
  case Nil
  show ?case by (cases "mapE f ys") simp_all
next
  case (Cons x xs)
  then show ?case
    by (cases "f x"; cases "mapE f xs"; cases "mapE f ys") simp_all
qed

lemma length_mapE: "mapE f xs = Inr ys \<Longrightarrow> length ys = length xs"
  by (simp add: mapE_eq_Inr list_all2_lengthD)

text \<open>A code whose words can be told apart at the front of any text is uniquely readable.\<close>

lemma prefix_code_until:
  assumes "\<And>a b x y. P a \<Longrightarrow> P b \<Longrightarrow> f a @ x = f b @ y \<Longrightarrow> a = b \<and> x = y"
    and "\<And>a x y. P a \<Longrightarrow> f a @ x \<noteq> q # y"
    and "list_all P s" and "list_all P t"
    and "concat (map f s) @ q # x = concat (map f t) @ q # y"
  shows "s = t \<and> x = y"
  using assms(3-5)
proof (induction s arbitrary: t)
  case Nil
  then show ?case
    using assms(2) by (cases t) (auto dest: sym)
next
  case (Cons a s)
  show ?case
  proof (cases t)
    case Nil
    with Cons.prems assms(2)[of a "concat (map f s) @ q # x"] show ?thesis by auto
  next
    case (Cons b t')
    with Cons.prems assms(1)[of a b "concat (map f s) @ q # x" "concat (map f t') @ q # y"]
      Cons.IH[of t'] show ?thesis by auto
  qed
qed

lemma prefix_code_inj:
  assumes "\<And>a b x y. P a \<Longrightarrow> P b \<Longrightarrow> f a @ x = f b @ y \<Longrightarrow> a = b \<and> x = y"
    and "\<And>a. f a \<noteq> []"
    and "list_all P s" and "list_all P t" and "concat (map f s) = concat (map f t)"
  shows "s = t"
  using assms(3-5)
proof (induction s arbitrary: t)
  case Nil
  then show ?case using assms(2) by (cases t) auto
next
  case (Cons a s)
  show ?case
  proof (cases t)
    case Nil
    with Cons.prems assms(2) show ?thesis by simp
  next
    case (Cons b t')
    with Cons.prems assms(1)[of a b "concat (map f s)" "concat (map f t')"] Cons.IH[of t']
    show ?thesis by auto
  qed
qed

section \<open>Floating-point numbers as clocks and times use them\<close>

text \<open>
  A finite float is the real number it stands for (the rounding of a sum is not modelled);
  the infinities and NaN are kept, because the code validates against them.
\<close>

datatype flt = Fin real | PosInf | NegInf | NaN

fun flt_add :: "flt \<Rightarrow> flt \<Rightarrow> flt" where
  "flt_add (Fin x) (Fin y) = Fin (x + y)"
| "flt_add NaN y = NaN"
| "flt_add x NaN = NaN"
| "flt_add PosInf NegInf = NaN"
| "flt_add NegInf PosInf = NaN"
| "flt_add PosInf y = PosInf"
| "flt_add x PosInf = PosInf"
| "flt_add NegInf y = NegInf"
| "flt_add x NegInf = NegInf"

text \<open>\<open>x <= y\<close> of Python: every comparison with NaN is false.\<close>

fun flt_le :: "flt \<Rightarrow> flt \<Rightarrow> bool" where
  "flt_le NaN y = False"
| "flt_le x NaN = False"
| "flt_le NegInf y = True"
| "flt_le x PosInf = True"
| "flt_le (Fin x) (Fin y) = (x \<le> y)"
| "flt_le x y = False"

fun flt_isfinite :: "flt \<Rightarrow> bool" where
  "flt_isfinite (Fin x) = True"
| "flt_isfinite x = False"

section \<open>Dictionaries as association lists\<close>

abbreviation keys :: "('k \<times> 'v) list \<Rightarrow> 'k list" where
  "keys d \<equiv> map fst d"

definition wf_dict :: "('k \<times> 'v) list \<Rightarrow> bool" where
  "wf_dict d = distinct (keys d)"

lemma wf_dict_Nil [simp]: "wf_dict []"
  by (simp add: wf_dict_def)

lemma wf_dict_Cons [simp]: "wf_dict ((k, v) # d) \<longleftrightarrow> k \<notin> set (keys d) \<and> wf_dict d"
  by (auto simp: wf_dict_def)

lemma wf_dict_update [simp]: "wf_dict d \<Longrightarrow> wf_dict (AList.update k v d)"
  by (simp add: wf_dict_def distinct_update)

lemma wf_dict_delete [simp]: "wf_dict d \<Longrightarrow> wf_dict (AList.delete k d)"
  by (simp add: wf_dict_def distinct_delete)

lemma wf_dict_append:
  "wf_dict (d @ e) \<longleftrightarrow> wf_dict d \<and> wf_dict e \<and> set (keys d) \<inter> set (keys e) = {}"
  by (auto simp: wf_dict_def)

lemma map_of_eq_None_keys: "map_of d k = None \<longleftrightarrow> k \<notin> set (keys d)"
  by (simp add: map_of_eq_None_iff)

lemma map_of_Some_keys: "map_of d k = Some v \<Longrightarrow> k \<in> set (keys d)"
  by (metis map_of_eq_None_keys option.distinct(1))

lemma map_of_snoc_fresh: "k \<notin> set (keys d) \<Longrightarrow> map_of (d @ [(k, v)]) k = Some v"
  by (induction d) auto

lemma update_fresh: "k \<notin> set (keys d) \<Longrightarrow> AList.update k v d = d @ [(k, v)]"
  by (induction d) auto

lemma delete_fresh: "k \<notin> set (keys d) \<Longrightarrow> AList.delete k d = d"
  by simp

lemma keys_delete: "keys (AList.delete k d) = removeAll k (keys d)"
  by (rule delete_keys)

lemma length_delete_wf:
  "wf_dict d \<Longrightarrow> k \<in> set (keys d) \<Longrightarrow> Suc (length (AList.delete k d)) = length d"
  by (induction d) (auto simp: wf_dict_def)

lemma delete_split:
  "k \<notin> set (keys d) \<Longrightarrow> k \<notin> set (keys e) \<Longrightarrow> AList.delete k (d @ (k, v) # e) = d @ e"
  by (induction d) auto

lemma delete_append: "AList.delete k (d @ e) = AList.delete k d @ AList.delete k e"
  by (induction d) auto

lemma set_keys_update: "set (keys (AList.update k v d)) = insert k (set (keys d))"
  by (induction d) auto

lemma wf_dict_card: "wf_dict d \<Longrightarrow> card (set (keys d)) = length d"
  by (metis distinct_card length_map wf_dict_def)

lemma wf_dict_same_keys:
  assumes "wf_dict d" "wf_dict e" "length d = length e" "set (keys d) \<subseteq> set (keys e)"
  shows "set (keys d) = set (keys e)"
proof (rule card_subset_eq)
  show "card (set (keys d)) = card (set (keys e))"
    unfolding wf_dict_card[OF assms(1)] wf_dict_card[OF assms(2)] by (rule assms(3))
qed (use assms(4) in simp_all)

lemma wf_dict_map_of_in:
  "wf_dict d \<Longrightarrow> map_of d k = Some v \<longleftrightarrow> (k, v) \<in> set d"
  by (auto simp: wf_dict_def)

lemma set_delete: "set (AList.delete k d) = {p \<in> set d. fst p \<noteq> k}"
  by (induction d) auto

lemma set_update_wf:
  "wf_dict d \<Longrightarrow> set (AList.update k v d) = insert (k, v) {p \<in> set d. fst p \<noteq> k}"
proof (induction d)
  case (Cons p d)
  show ?case
  proof (cases "fst p = k")
    case True
    with Cons.prems have "{q \<in> set d. fst q \<noteq> k} = set d"
      by (cases p) (force simp: wf_dict_def)
    with True show ?thesis using Cons.prems by (cases p) auto
  next
    case False
    with Cons show ?thesis by (cases p) auto
  qed
qed simp

end
