(* ===== verification/Json.thy ===== *)
theory Json
  imports Prelude "HOL-Library.Log_Nat" "HOL-Library.List_Lexorder"
begin

text \<open>
  Python's values as \<open>json.loads\<close> builds them: strings as lists of code points, unbounded
  integers, floats by their shortest round-tripping decimal (what \<open>repr\<close> prints), lists and
  insertion-ordered dictionaries. Here too: Python's \<open>==\<close>, \<open><\<close> and \<open>repr\<close> on these values,
  and the two encodings the code uses, UTF-16 (to order keys) and UTF-8 (to hash).
\<close>

section \<open>Strings\<close>

type_synonym pystr = "nat list"

text \<open>A string literal of the source. It stays folded in proofs: two literals are compared as
  HOL strings.\<close>

definition S :: "string \<Rightarrow> pystr" where
  "S s = map of_char s"

lemma S_eq [simp]: "S a = S b \<longleftrightarrow> a = b"
  unfolding S_def by (rule inj_map_eq_map) (simp add: inj_def)

lemma S_Nil [simp]: "S a = [] \<longleftrightarrow> a = []" "[] = S a \<longleftrightarrow> a = []"
  by (auto simp: S_def)

lemma S_append: "S a @ S b = S (a @ b)"
  by (simp add: S_def)

lemma S_length [simp]: "length (S a) = length a"
  by (simp add: S_def)

fun join :: "pystr \<Rightarrow> pystr list \<Rightarrow> pystr" where
  "join sep [] = []"
| "join sep [s] = s"
| "join sep (s # t # ss) = s @ sep @ join sep (t # ss)"

text \<open>\<open>str(n)\<close> of an integer.\<close>

fun nat_digits :: "nat \<Rightarrow> nat list" where
  "nat_digits n = (if n < 10 then [n] else nat_digits (n div 10) @ [n mod 10])"

declare nat_digits.simps [simp del]

definition digit_chars :: "nat list \<Rightarrow> pystr" where
  "digit_chars = map (\<lambda>d. d + 48)"

definition str_nat :: "nat \<Rightarrow> pystr" where
  "str_nat n = digit_chars (nat_digits n)"

definition str_int :: "int \<Rightarrow> pystr" where
  "str_int i = (if i < 0 then S ''-'' else []) @ str_nat (nat \<bar>i\<bar>)"

definition is_surrogate :: "nat \<Rightarrow> bool" where
  "is_surrogate c \<longleftrightarrow> 0xD800 \<le> c \<and> c \<le> 0xDFFF"

text \<open>\<open>s.encode("utf-16-be")\<close> and \<open>s.encode("utf-8")\<close>: a lone surrogate raises
  \<open>UnicodeEncodeError\<close>, which is a \<open>ValueError\<close>.\<close>

definition utf16_char :: "nat \<Rightarrow> nat list" where
  "utf16_char c =
     (if c < 0x10000 then [c div 256, c mod 256]
      else let h = 0xD800 + (c - 0x10000) div 1024; l = 0xDC00 + (c - 0x10000) mod 1024
           in [h div 256, h mod 256, l div 256, l mod 256])"

definition utf16_be :: "pystr \<Rightarrow> pyexc + nat list" where
  "utf16_be s = (if list_ex is_surrogate s then Inl ValueError else Inr (concat (map utf16_char s)))"

definition utf8_char :: "nat \<Rightarrow> nat list" where
  "utf8_char c =
     (if c < 0x80 then [c]
      else if c < 0x800 then [0xC0 + c div 64, 0x80 + c mod 64]
      else if c < 0x10000 then [0xE0 + c div 4096, 0x80 + c div 64 mod 64, 0x80 + c mod 64]
      else [0xF0 + c div 262144, 0x80 + c div 4096 mod 64, 0x80 + c div 64 mod 64, 0x80 + c mod 64])"

definition utf8 :: "pystr \<Rightarrow> nat list" where
  "utf8 s = concat (map utf8_char s)"

section \<open>Values\<close>

text \<open>\<open>Dec s d e\<close> is the float whose shortest decimal is \<open>(-1)^s * d * 10^e\<close>, the tuple of
  \<open>Decimal(repr(x)).normalize().as_tuple()\<close>; \<open>Dec True 0 0\<close> is \<open>-0.0\<close>.\<close>

datatype jfloat = Dec bool nat int | FInf bool | FNan

datatype json =
    JNull
  | JBool bool
  | JInt int
  | JFloat jfloat
  | JStr pystr
  | JList "json list"
  | JDict "(pystr \<times> json) list"

lemma size_JDict [termination_simp]:
  "(k, v) \<in> set d \<Longrightarrow> size v < Suc (size_list (size_prod (\<lambda>x. 0) size) d)"
  by (induction d) auto

lemma size_JDict_snd [termination_simp]:
  "p \<in> set d \<Longrightarrow> size (snd p) < Suc (size_list (size_prod (\<lambda>x. 0) size) d)"
  by (induction d) auto

lemma size_JList_zip [termination_simp]:
  "(x, y) \<in> set (zip xs ys) \<Longrightarrow> size x < Suc (size_list size xs)"
  by (drule set_zip_leftD, induction xs) auto

text \<open>A dictionary has distinct keys; a decimal is normalised; a character is a code point.\<close>

definition wf_str :: "pystr \<Rightarrow> bool" where
  "wf_str s \<longleftrightarrow> list_all (\<lambda>c. c < 0x110000) s"

lemma wf_str_S [simp]: "wf_str (S s)"
proof -
  have "(of_char c :: nat) < 256" for c by (cases c) simp
  then have "(of_char c :: nat) < 0x110000" for c by (rule less_trans) simp
  then show ?thesis by (simp add: wf_str_def S_def list_all_iff)
qed

fun wf_float :: "jfloat \<Rightarrow> bool" where
  "wf_float (Dec s d e) \<longleftrightarrow> (if d = 0 then e = 0 else \<not> 10 dvd d)"
| "wf_float x \<longleftrightarrow> True"

fun wf_json :: "json \<Rightarrow> bool" where
  "wf_json (JFloat x) \<longleftrightarrow> wf_float x"
| "wf_json (JList xs) \<longleftrightarrow> list_all wf_json xs"
| "wf_json (JStr s) \<longleftrightarrow> wf_str s"
| "wf_json (JDict d) \<longleftrightarrow> wf_dict d \<and> list_all (\<lambda>(k, v). wf_str k \<and> wf_json v) d"
| "wf_json x \<longleftrightarrow> True"

text \<open>\<open>isinstance\<close> tests. A \<open>bool\<close> is an \<open>int\<close> in Python.\<close>

fun is_dict :: "json \<Rightarrow> bool" where "is_dict (JDict d) = True" | "is_dict _ = False"
fun is_list :: "json \<Rightarrow> bool" where "is_list (JList xs) = True" | "is_list _ = False"
fun is_str :: "json \<Rightarrow> bool" where "is_str (JStr s) = True" | "is_str _ = False"

fun dict_items :: "json \<Rightarrow> (pystr \<times> json) list" where
  "dict_items (JDict d) = d" | "dict_items _ = []"

text \<open>Truthiness.\<close>

fun truthy :: "json \<Rightarrow> bool" where
  "truthy JNull = False"
| "truthy (JBool b) = b"
| "truthy (JInt i) = (i \<noteq> 0)"
| "truthy (JFloat (Dec s d e)) = (d \<noteq> 0)"
| "truthy (JFloat x) = True"
| "truthy (JStr s) = (s \<noteq> [])"
| "truthy (JList xs) = (xs \<noteq> [])"
| "truthy (JDict d) = (d \<noteq> [])"

text \<open>What \<open>for item in value\<close> walks over.\<close>

fun py_iter :: "json \<Rightarrow> pyexc + json list" where
  "py_iter (JList xs) = Inr xs"
| "py_iter (JStr s) = Inr (map (\<lambda>c. JStr [c]) s)"
| "py_iter (JDict d) = Inr (map JStr (keys d))"
| "py_iter _ = Inl TypeError"

section \<open>Numbers and Python's equality\<close>

text \<open>The double nearest to a rational (ties to even): what a decimal literal denotes.\<close>

definition ilog2 :: "rat \<Rightarrow> int" where
  "ilog2 q = (case quotient_of q of (a, b) \<Rightarrow>
     let k = bitlen a - bitlen b in if 2 powi k \<le> q then k else k - 1)"

definition round_half_even :: "rat \<Rightarrow> int" where
  "round_half_even q = (let f = \<lfloor>q\<rfloor>; r = q - of_int f in
     if r < 1 / 2 then f else if r > 1 / 2 then f + 1 else if even f then f else f + 1)"

definition dbl :: "rat \<Rightarrow> rat" where
  "dbl q = (if q = 0 then 0 else
     let u = 2 powi (max (ilog2 \<bar>q\<bar>) (- 1022) - 52)
     in sgn q * of_int (round_half_even (\<bar>q\<bar> / u)) * u)"

definition dec_value :: "bool \<Rightarrow> nat \<Rightarrow> int \<Rightarrow> rat" where
  "dec_value s d e = (if s then - 1 else 1) * of_nat d * 10 powi e"

datatype pyreal = Rat rat | Inf bool | Nan

fun numval :: "json \<Rightarrow> pyreal option" where
  "numval (JBool b) = Some (Rat (if b then 1 else 0))"
| "numval (JInt i) = Some (Rat (of_int i))"
| "numval (JFloat (Dec s d e)) = Some (Rat (dbl (dec_value s d e)))"
| "numval (JFloat (FInf s)) = Some (Inf s)"
| "numval (JFloat FNan) = Some Nan"
| "numval _ = None"

fun num_eq :: "pyreal \<Rightarrow> pyreal \<Rightarrow> bool" where
  "num_eq Nan y = False"
| "num_eq x Nan = False"
| "num_eq x y = (x = y)"

text \<open>\<open>x < y\<close>; the flag of an infinity is its sign (\<open>True\<close>: negative).\<close>

fun num_less :: "pyreal \<Rightarrow> pyreal \<Rightarrow> bool" where
  "num_less Nan y = False"
| "num_less x Nan = False"
| "num_less (Rat x) (Rat y) = (x < y)"
| "num_less (Inf s) (Inf t) = (s \<and> \<not> t)"
| "num_less (Inf s) (Rat y) = s"
| "num_less (Rat x) (Inf t) = (\<not> t)"

text \<open>
  \<open>a == b\<close>: numbers (booleans included) by value, dictionaries without regard to order.
  A NaN is equal to nothing, in a container too, where Python takes identical objects as
  equal; a value with a NaN has no hash, and everything that is compared was hashed before.
\<close>

fun py_eq :: "json \<Rightarrow> json \<Rightarrow> bool" where
  "py_eq (JStr s) b = (b = JStr s)"
| "py_eq JNull b = (b = JNull)"
| "py_eq (JList xs) b = (case b of
     JList ys \<Rightarrow> length xs = length ys \<and> list_all (\<lambda>(x, y). py_eq x y) (zip xs ys)
   | _ \<Rightarrow> False)"
| "py_eq (JDict d) b = (case b of
     JDict e \<Rightarrow> length d = length e \<and>
       list_all (\<lambda>(k, v). case map_of e k of None \<Rightarrow> False | Some w \<Rightarrow> py_eq v w) d
   | _ \<Rightarrow> False)"
| "py_eq a b = (case (numval a, numval b) of (Some x, Some y) \<Rightarrow> num_eq x y | _ \<Rightarrow> False)"

text \<open>No NaN anywhere: what \<open>==\<close> needs to be reflexive.\<close>

fun no_nan :: "json \<Rightarrow> bool" where
  "no_nan (JFloat x) \<longleftrightarrow> x \<noteq> FNan"
| "no_nan (JList xs) \<longleftrightarrow> list_all no_nan xs"
| "no_nan (JDict d) \<longleftrightarrow> list_all (\<lambda>(k, v). no_nan v) d"
| "no_nan _ \<longleftrightarrow> True"

lemma num_eq_refl: "x \<noteq> Nan \<Longrightarrow> num_eq x x"
  by (cases x) auto

lemma py_eq_refl: "wf_json a \<Longrightarrow> no_nan a \<Longrightarrow> py_eq a a"
proof (induction a)
  case (JFloat x)
  then show ?case by (cases x) auto
next
  case (JList xs)
  then show ?case by (auto simp: list_all_iff set_zip)
next
  case (JDict d)
  have "py_eq v v" "map_of d k = Some v" if "(k, v) \<in> set d" for k v
    using JDict.IH[OF that, of v] JDict.prems that by (auto simp: list_all_iff wf_dict_map_of_in)
  then show ?case by (auto simp: list_all_iff)
qed auto

section \<open>\<open>repr\<close>\<close>

text \<open>
  Which non-ASCII characters \<open>repr\<close> prints as they are is Unicode data, the parameter
  \<open>printable\<close>. A string is quoted with \<open>'\<close> unless it contains \<open>'\<close> and no \<open>"\<close>.
\<close>

definition hex_digit :: "nat \<Rightarrow> nat" where
  "hex_digit d = (if d < 10 then d + 48 else d + 87)"

fun hex_pad :: "nat \<Rightarrow> nat \<Rightarrow> pystr" where
  "hex_pad 0 n = []"
| "hex_pad (Suc w) n = hex_pad w (n div 16) @ [hex_digit (n mod 16)]"

definition repr_char :: "(nat \<Rightarrow> bool) \<Rightarrow> nat \<Rightarrow> nat \<Rightarrow> pystr" where
  "repr_char printable quote c =
     (if c = quote \<or> c = 92 then [92, c]
      else if c = 10 then S [CHR 0x5C, CHR ''n'']
      else if c = 13 then S [CHR 0x5C, CHR ''r'']
      else if c = 9 then S [CHR 0x5C, CHR ''t'']
      else if c < 32 \<or> c = 127 then [92, 120] @ hex_pad 2 c
      else if c < 127 \<or> printable c then [c]
      else if c < 0x100 then [92, 120] @ hex_pad 2 c
      else if c < 0x10000 then [92, 117] @ hex_pad 4 c
      else [92, 85] @ hex_pad 8 c)"

definition repr_str :: "(nat \<Rightarrow> bool) \<Rightarrow> pystr \<Rightarrow> pystr" where
  "repr_str printable s =
     (let quote = (if 39 \<in> set s \<and> 34 \<notin> set s then 34 else 39)
      in [quote] @ concat (map (repr_char printable quote) s) @ [quote])"

definition zeros :: "nat \<Rightarrow> pystr" where
  "zeros n = replicate n 48"

definition repr_float :: "jfloat \<Rightarrow> pystr" where
  "repr_float x = (case x of
     FNan \<Rightarrow> S ''nan''
   | FInf s \<Rightarrow> (if s then S ''-inf'' else S ''inf'')
   | Dec s d e \<Rightarrow>
       let ds = str_nat d; k = int (length ds); p = e + k;
           exp = (if p - 1 < 0 then S ''-'' else S ''+'')
             @ (if \<bar>p - 1\<bar> < 10 then S ''0'' else []) @ str_nat (nat \<bar>p - 1\<bar>)
       in (if s then S ''-'' else [])
        @ (if d = 0 then S ''0.0''
           else if p \<le> - 4 \<or> 16 < p then
             take 1 ds @ (if k > 1 then S ''.'' @ drop 1 ds else []) @ S ''e'' @ exp
           else if p \<le> 0 then S ''0.'' @ zeros (nat (- p)) @ ds
           else if p < k then take (nat p) ds @ S ''.'' @ drop (nat p) ds
           else ds @ zeros (nat (p - k)) @ S ''.0''))"

fun pyrepr :: "(nat \<Rightarrow> bool) \<Rightarrow> json \<Rightarrow> pystr" where
  "pyrepr pr JNull = S ''None''"
| "pyrepr pr (JBool b) = (if b then S ''True'' else S ''False'')"
| "pyrepr pr (JInt i) = str_int i"
| "pyrepr pr (JFloat x) = repr_float x"
| "pyrepr pr (JStr s) = repr_str pr s"
| "pyrepr pr (JList xs) = S ''['' @ join (S '', '') (map (pyrepr pr) xs) @ S '']''"
| "pyrepr pr (JDict d) = S ''{'' @ join (S '', '')
     (map (\<lambda>(k, v). repr_str pr k @ S '': '' @ pyrepr pr v) d) @ S ''}''"

text \<open>\<open>str(x)\<close>, what an f-string prints.\<close>

fun pystring :: "(nat \<Rightarrow> bool) \<Rightarrow> json \<Rightarrow> pystr" where
  "pystring pr (JStr s) = s"
| "pystring pr x = pyrepr pr x"

section \<open>Unicode data\<close>

text \<open>
  What the standard library knows about characters beyond ASCII is not in the source: the
  functions that depend on it take it as this record. \<open>u_lower\<close> is \<open>str.lower\<close>, \<open>u_isdigit\<close>
  and \<open>u_decimal\<close> are \<open>str.isdigit\<close> of one character and its value to \<open>int\<close>, \<open>u_printable\<close> is
  \<open>str.isprintable\<close> of a non-ASCII character; \<open>u_space\<close> is \<open>str.isspace\<close> (\<open>\s\<close>), \<open>u_word\<close> is
  \<open>\w\<close>, and \<open>u_fold\<close> maps the characters that match each other under \<open>re.IGNORECASE\<close> to one
  of them. \<open>ascii_data\<close> is right on ASCII text.
\<close>

record unidata =
  u_lower :: "pystr \<Rightarrow> pystr"
  u_isdigit :: "nat \<Rightarrow> bool"
  u_decimal :: "nat \<Rightarrow> nat option"
  u_printable :: "nat \<Rightarrow> bool"
  u_space :: "nat \<Rightarrow> bool"
  u_word :: "nat \<Rightarrow> bool"
  u_fold :: "nat \<Rightarrow> nat"

definition ascii_lower :: "nat \<Rightarrow> nat" where
  "ascii_lower c = (if 65 \<le> c \<and> c \<le> 90 then c + 32 else c)"

definition ascii_data :: unidata where
  "ascii_data = \<lparr>
     u_lower = map ascii_lower,
     u_isdigit = (\<lambda>c. 48 \<le> c \<and> c \<le> 57),
     u_decimal = (\<lambda>c. if 48 \<le> c \<and> c \<le> 57 then Some (c - 48) else None),
     u_printable = (\<lambda>c. 161 \<le> c),
     u_space = (\<lambda>c. 9 \<le> c \<and> c \<le> 13 \<or> 28 \<le> c \<and> c \<le> 32),
     u_word = (\<lambda>c. 48 \<le> c \<and> c \<le> 57 \<or> 65 \<le> c \<and> c \<le> 90 \<or> c = 95 \<or> 97 \<le> c \<and> c \<le> 122),
     u_fold = ascii_lower\<rparr>"

section \<open>Floating-point arithmetic\<close>

text \<open>One operation on doubles is the exact result rounded once.\<close>

definition fl_mul :: "rat \<Rightarrow> rat \<Rightarrow> rat" where "fl_mul x y = dbl (x * y)"
definition fl_add :: "rat \<Rightarrow> rat \<Rightarrow> rat" where "fl_add x y = dbl (x + y)"
definition fl_div :: "rat \<Rightarrow> rat \<Rightarrow> rat" where "fl_div x y = dbl (x / y)"

text \<open>\<open>f"{x:.2f}"\<close> of a non-negative double.\<close>

definition fixed2 :: "rat \<Rightarrow> pystr" where
  "fixed2 q = (let n = nat (round_half_even (q * 100)) in
     str_nat (n div 100) @ S ''.'' @ str_nat (n mod 100 div 10) @ str_nat (n mod 10))"

end
