(* ===== verification/Canonical.thy ===== *)
theory Canonical
  imports Json "HOL-Library.Multiset"
begin

text \<open>
  Canonical JSON and the hashes built on it (\<open>schema/canonical.py\<close>, vendored as
  \<open>harness/_canonical.py\<close>). The text of a value is a function of the value alone, and a
  value can be read back from it: two values have the same text exactly when they are the
  same JSON value. SHA-256 is the parameter \<open>sha\<close>, a function from bytes to hex digits.
\<close>

section \<open>Encoding\<close>

text \<open>The table \<open>_ESCAPES\<close>: the letter after the backslash.\<close>

definition escapes :: "(nat \<times> nat) list" where
  "escapes = [(34, 34), (92, 92), (8, 98), (12, 102), (10, 110), (13, 114), (9, 116)]"

definition encode_char :: "nat \<Rightarrow> pyexc + pystr" where
  "encode_char c = (case map_of escapes c of
     Some l \<Rightarrow> Inr [92, l]
   | None \<Rightarrow> if c < 0x20 then Inr ([92, 117] @ hex_pad 4 c)
             else if is_surrogate c then Inl ValueError
             else Inr [c])"

definition encode_string :: "pystr \<Rightarrow> pyexc + pystr" where
  "encode_string s = bindE (mapE encode_char s) (\<lambda>out. Inr (S [CHR 0x22] @ concat out @ S [CHR 0x22]))"

text \<open>The ECMAScript layout of the decimal \<open>0.ds * 10^e\<close>.\<close>

definition encode_decimal :: "nat \<Rightarrow> int \<Rightarrow> pystr" where
  "encode_decimal d x10 =
     (let ds = str_nat d; k = int (length ds); e = x10 + k in
      if k \<le> e \<and> e \<le> 21 then ds @ zeros (nat (e - k))
      else if 0 < e \<and> e \<le> 21 then take (nat e) ds @ S ''.'' @ drop (nat e) ds
      else if - 6 < e \<and> e \<le> 0 then S ''0.'' @ zeros (nat (- e)) @ ds
      else let x = e - 1 in
        take 1 ds @ (if k > 1 then S ''.'' @ drop 1 ds else [])
          @ S ''e'' @ (if x > 0 then S ''+'' else S ''-'') @ str_nat (nat \<bar>x\<bar>))"

fun encode_number :: "json \<Rightarrow> pyexc + pystr" where
  "encode_number (JInt n) = (if \<bar>n\<bar> > 2 ^ 53 then Inl ValueError else Inr (str_int n))"
| "encode_number (JFloat (Dec s d e)) =
     Inr (if d = 0 then S ''0'' else (if s then S ''-'' else []) @ encode_decimal d e)"
| "encode_number (JFloat _) = Inl ValueError"
| "encode_number _ = Inl TypeError"

definition utf16_key :: "pystr \<times> 'a \<Rightarrow> nat list" where
  "utf16_key kv = concat (map utf16_char (fst kv))"

text \<open>\<open>sorted(value.items(), key=lambda kv: kv[0].encode("utf-16-be"))\<close>: the keys are encoded
  first, so a lone surrogate raises before anything is printed.\<close>

definition sorted_items :: "(pystr \<times> 'a) list \<Rightarrow> (pystr \<times> 'a) list" where
  "sorted_items d = sort_key utf16_key d"

definition keys_encodable :: "(pystr \<times> 'a) list \<Rightarrow> bool" where
  "keys_encodable d \<longleftrightarrow> list_all (\<lambda>(k, v). \<not> list_ex is_surrogate k) d"

lemma set_sorted_items [simp]: "set (sorted_items d) = set d"
  by (simp add: sorted_items_def)

fun canonical_json :: "json \<Rightarrow> pyexc + pystr" where
  "canonical_json JNull = Inr (S ''null'')"
| "canonical_json (JBool b) = Inr (if b then S ''true'' else S ''false'')"
| "canonical_json (JInt n) = encode_number (JInt n)"
| "canonical_json (JFloat x) = encode_number (JFloat x)"
| "canonical_json (JStr s) = encode_string s"
| "canonical_json (JList xs) = bindE (mapE canonical_json xs)
     (\<lambda>ss. Inr (S ''['' @ join (S '','') ss @ S '']''))"
| "canonical_json (JDict d) =
     (if \<not> keys_encodable d then Inl ValueError
      else bindE (mapE (\<lambda>(k, v). bindE (encode_string k) (\<lambda>ks.
             bindE (canonical_json v) (\<lambda>vs. Inr (ks @ S '':'' @ vs)))) (sorted_items d))
        (\<lambda>ss. Inr (S ''{'' @ join (S '','') ss @ S ''}'')))"

section \<open>Normalisation and hashes\<close>

fun dict_get :: "(pystr \<times> json) list \<Rightarrow> pystr \<Rightarrow> json \<Rightarrow> json" where
  "dict_get d k x = (case map_of d k of Some v \<Rightarrow> v | None \<Rightarrow> x)"

text \<open>\<open>{**d, **e}\<close>\<close>

definition dict_merge :: "(pystr \<times> json) list \<Rightarrow> (pystr \<times> json) list \<Rightarrow> (pystr \<times> json) list" where
  "dict_merge d e = fold (\<lambda>(k, v) m. AList.update k v m) e d"

fun str_of :: "json \<Rightarrow> pystr" where
  "str_of (JStr s) = s" | "str_of _ = []"

text \<open>\<open>sorted(set(req), key=utf-16)\<close>; the order in which the set is walked does not matter,
  because the key is injective.\<close>

definition sort_required :: "json list \<Rightarrow> pyexc + json" where
  "sort_required req =
     (if list_ex (\<lambda>r. list_ex is_surrogate (str_of r)) req then Inl ValueError
      else Inr (JList (map JStr
        (sort_key (\<lambda>s. concat (map utf16_char s)) (remdups (map str_of req))))))"

fun normalize_schema :: "json \<Rightarrow> pyexc + json" where
  "normalize_schema (JDict d) =
     bindE (mapE (\<lambda>(k, v). bindE (normalize_schema v) (\<lambda>w. Inr (k, w)))
              (filter (\<lambda>(k, v). k \<noteq> S ''$comment'') d))
       (\<lambda>out. case map_of out (S ''required'') of
          Some (JList req) \<Rightarrow>
            if list_all is_str req
            then bindE (sort_required req) (\<lambda>r. Inr (JDict (AList.update (S ''required'') r out)))
            else Inr (JDict out)
        | _ \<Rightarrow> Inr (JDict out))"
| "normalize_schema (JList xs) = bindE (mapE normalize_schema xs) (\<lambda>ys. Inr (JList ys))"
| "normalize_schema v = Inr v"

definition normalize_tool :: "(pystr \<times> json) list \<Rightarrow> pyexc + json" where
  "normalize_tool tool =
     (case map_of tool (S ''name'') of
        None \<Rightarrow> Inl KeyError
      | Some name \<Rightarrow>
        bindE (normalize_schema (dict_get tool (S ''inputSchema'') (JDict []))) (\<lambda>schema.
          let out = [(S ''name'', name),
                     (S ''description'', dict_get tool (S ''description'') (JStr [])),
                     (S ''inputSchema'', schema)] in
          bindE (mapE (\<lambda>k. bindE (normalize_schema (dict_get tool k JNull)) (\<lambda>v. Inr (k, v)))
                   (filter (\<lambda>k. k \<in> set (keys tool)) [S ''outputSchema'', S ''annotations'']))
            (\<lambda>opt. Inr (JDict (out @ opt)))))"

definition hash_prefix :: pystr where "hash_prefix = S ''sha256:''"

definition sha256_hex :: "(nat list \<Rightarrow> pystr) \<Rightarrow> json \<Rightarrow> pyexc + pystr" where
  "sha256_hex sha v = bindE (canonical_json v) (\<lambda>s. Inr (hash_prefix @ sha (utf8 s)))"

definition tool_hash :: "(nat list \<Rightarrow> pystr) \<Rightarrow> (pystr \<times> json) list \<Rightarrow> pyexc + pystr" where
  "tool_hash sha tool = bindE (normalize_tool tool) (sha256_hex sha)"

text \<open>The hash of a recorded event leaves out the event's own hash.\<close>

definition event_hash :: "(nat list \<Rightarrow> pystr) \<Rightarrow> (pystr \<times> json) list \<Rightarrow> pyexc + pystr" where
  "event_hash sha ev = sha256_hex sha (JDict (filter (\<lambda>(k, v). k \<noteq> S ''event_hash'') ev))"

text \<open>What \<open>^sha256:[0-9a-f]{64}$\<close> matches (\<open>_HASH_RE\<close> of the control plane, the hashes of the
  recording schema). Python's \<open>$\<close> also matches before a newline that ends the string.\<close>

definition is_hex :: "nat \<Rightarrow> bool" where
  "is_hex c \<longleftrightarrow> (48 \<le> c \<and> c \<le> 57) \<or> (97 \<le> c \<and> c \<le> 102)"

definition hash_re_match :: "pystr \<Rightarrow> bool" where
  "hash_re_match s \<longleftrightarrow>
     take 7 s = hash_prefix \<and> length (drop 7 s) \<ge> 64 \<and> list_all is_hex (take 64 (drop 7 s))
     \<and> (drop 71 s = [] \<or> drop 71 s = [10])"

section \<open>The same JSON value\<close>

text \<open>The specification: numbers by their decimal value, objects without regard to the order of
  their keys, no confusion of booleans with numbers.\<close>

fun dec_number :: "json \<Rightarrow> rat option" where
  "dec_number (JInt n) = Some (of_int n)"
| "dec_number (JFloat (Dec s d e)) = Some (dec_value s d e)"
| "dec_number _ = None"

fun same_value :: "json \<Rightarrow> json \<Rightarrow> bool" where
  "same_value JNull b = (b = JNull)"
| "same_value (JBool x) b = (b = JBool x)"
| "same_value (JStr s) b = (b = JStr s)"
| "same_value (JList xs) b = (case b of
     JList ys \<Rightarrow> length xs = length ys \<and> list_all (\<lambda>(x, y). same_value x y) (zip xs ys)
   | _ \<Rightarrow> False)"
| "same_value (JDict d) b = (case b of
     JDict e \<Rightarrow> length d = length e \<and>
       list_all (\<lambda>(k, v). case map_of e k of None \<Rightarrow> False | Some w \<Rightarrow> same_value v w) d
   | _ \<Rightarrow> False)"
| "same_value a b = (dec_number a \<noteq> None \<and> dec_number a = dec_number b)"

end
