(* ===== verification/Findings.thy ===== *)
theory Findings
  imports Canonical "HOL-Library.Product_Lexorder"
begin

text \<open>
  \<open>Finding\<close>, the value every rule of the differ produces (\<open>harness/diff/types.py\<close>), its order
  and its JSON form. A message is kept as the parts of the f-string that prints it, so that
  the rules do not depend on how Python prints a value.
\<close>

section \<open>Severities\<close>

datatype severity = SECURITY | BREAKING | WARN | INFO

definition severity_order :: "severity list" where
  "severity_order = [SECURITY, BREAKING, WARN, INFO]"

text \<open>The position in \<open>SEVERITY_ORDER\<close>: smaller is worse.\<close>

fun severity_rank :: "severity \<Rightarrow> nat" where
  "severity_rank SECURITY = 0" | "severity_rank BREAKING = 1"
| "severity_rank WARN = 2" | "severity_rank INFO = 3"

instantiation severity :: linorder
begin
definition less_eq_severity :: "severity \<Rightarrow> severity \<Rightarrow> bool" where
  "less_eq_severity a b \<longleftrightarrow> severity_rank a \<le> severity_rank b"
definition less_severity :: "severity \<Rightarrow> severity \<Rightarrow> bool" where
  "less_severity a b \<longleftrightarrow> severity_rank a < severity_rank b"
instance
proof
  fix a b :: severity
  assume "a \<le> b" "b \<le> a"
  then show "a = b" unfolding less_eq_severity_def by (cases a; cases b) simp_all
qed (auto simp: less_eq_severity_def less_severity_def)
end

lemma severity_less_eq [simp]: "SECURITY \<le> s" "s \<le> INFO"
  by (cases s; simp add: less_eq_severity_def)+

definition severity_name :: "severity \<Rightarrow> pystr" where
  "severity_name s = (case s of SECURITY \<Rightarrow> S ''SECURITY'' | BREAKING \<Rightarrow> S ''BREAKING''
                      | WARN \<Rightarrow> S ''WARN'' | INFO \<Rightarrow> S ''INFO'')"

section \<open>Messages and findings\<close>

text \<open>A literal part, \<open>{x!r}\<close>, \<open>{x}\<close> of a value and \<open>{x}\<close> of a string in an f-string.\<close>

datatype msg_part = Lit string | Rep json | Shown json | Txt pystr

type_synonym message = "msg_part list"

fun render_part :: "(nat \<Rightarrow> bool) \<Rightarrow> msg_part \<Rightarrow> pystr" where
  "render_part pr (Lit s) = S s"
| "render_part pr (Rep v) = pyrepr pr v"
| "render_part pr (Shown v) = pystring pr v"
| "render_part pr (Txt s) = s"

definition render :: "(nat \<Rightarrow> bool) \<Rightarrow> message \<Rightarrow> pystr" where
  "render pr m = concat (map (render_part pr) m)"

text \<open>\<open>before\<close> and \<open>after\<close> default to \<open>None\<close>, which is also JSON \<open>null\<close>.\<close>

record finding =
  f_severity :: severity
  f_rule :: string
  f_path :: pystr
  f_message :: message
  f_tool :: "pystr option"
  f_before :: json
  f_after :: json

definition finding_dict :: "(nat \<Rightarrow> bool) \<Rightarrow> finding \<Rightarrow> json" where
  "finding_dict pr f = JDict
    ([(S ''severity'', JStr (severity_name (f_severity f))),
      (S ''rule_id'', JStr (S (f_rule f))),
      (S ''path'', JStr (f_path f)),
      (S ''message'', JStr (render pr (f_message f)))]
     @ (case f_tool f of None \<Rightarrow> [] | Some t \<Rightarrow> [(S ''tool'', JStr t)])
     @ (if f_before f = JNull then [] else [(S ''before'', f_before f)])
     @ (if f_after f = JNull then [] else [(S ''after'', f_after f)]))"

section \<open>Worst first\<close>

definition finding_key :: "finding \<Rightarrow> nat \<times> pystr \<times> pystr" where
  "finding_key f = (severity_rank (f_severity f), f_path f, S (f_rule f))"

definition sort_findings :: "finding list \<Rightarrow> finding list" where
  "sort_findings fs = sort_key finding_key fs"

text \<open>The worst severity present; \<open>None\<close> stands for the string \<open>NONE\<close>.\<close>

definition highest_severity :: "finding list \<Rightarrow> severity option" where
  "highest_severity fs = find (\<lambda>s. s \<in> f_severity ` set fs) severity_order"

lemma mset_sort_findings [simp]: "mset (sort_findings fs) = mset fs"
  by (simp add: sort_findings_def)

lemma set_sort_findings [simp]: "set (sort_findings fs) = set fs"
  by (simp add: sort_findings_def)

lemma highest_severity_None: "highest_severity fs = None \<longleftrightarrow> fs = []"
proof -
  have "f_severity f \<in> set severity_order" for f
    by (cases "f_severity f") (simp_all add: severity_order_def)
  then show ?thesis
    by (cases fs) (auto simp: highest_severity_def find_None_iff)
qed

lemma highest_severity_Some:
  "highest_severity fs = Some s \<Longrightarrow> s \<in> f_severity ` set fs \<and> (\<forall>f \<in> set fs. s \<le> f_severity f)"
proof -
  assume a: "highest_severity fs = Some s"
  then have mem: "s \<in> f_severity ` set fs"
    by (auto simp: highest_severity_def severity_order_def split: if_splits)
  moreover have "s \<le> t" if "t \<in> f_severity ` set fs" for t
    using a that by (cases t) (auto simp: highest_severity_def severity_order_def less_eq_severity_def
        split: if_splits)
  ultimately show ?thesis by blast
qed

text \<open>The first finding of the sorted list carries the highest severity.\<close>

lemma hd_sort_findings:
  assumes "fs \<noteq> []"
  shows "highest_severity fs = Some (f_severity (hd (sort_findings fs)))"
proof -
  obtain s where s: "highest_severity fs = Some s"
    using assms highest_severity_None by (cases "highest_severity fs") auto
  let ?h = "hd (sort_findings fs)"
  have ne: "sort_findings fs \<noteq> []" using assms by (metis mset_sort_findings mset_zero_iff)
  then have "?h \<in> set fs" using set_sort_findings[of fs] by (metis hd_in_set)
  with highest_severity_Some[OF s] have "s \<le> f_severity ?h" by blast
  moreover from highest_severity_Some[OF s] obtain f where f: "f \<in> set fs" "f_severity f = s" by blast
  have "sorted (map finding_key (sort_findings fs))" by (simp add: sort_findings_def sorted_sort_key)
  then have "\<forall>g \<in> set (sort_findings fs). finding_key ?h \<le> finding_key g"
    using ne by (cases "sort_findings fs") auto
  with f have "finding_key ?h \<le> finding_key f" by simp
  then have "f_severity ?h \<le> s" using f(2) by (auto simp: finding_key_def less_eq_severity_def)
  ultimately show ?thesis using s by simp
qed

end
