(* ===== verification/Policy.thy ===== *)
theory Policy
  imports Findings
begin

text \<open>
  The response policy of the control plane (\<open>control/policy.py\<close>): the table from (highest
  severity, risk class) to verdict, its validation at load time, the risk class of a
  tool, and the table shipped in \<open>default_policy.json\<close>. Reading and parsing the file are
  outside: \<open>from_file\<close> takes the result of \<open>json.loads\<close>.
\<close>

definition severities :: "pystr list" where
  "severities = [S ''NONE'', S ''INFO'', S ''WARN'', S ''BREAKING'', S ''SECURITY'']"

definition risk_classes :: "pystr list" where
  "risk_classes = [S ''read_only'', S ''side_effecting'', S ''destructive'']"

definition verdicts :: "pystr list" where
  "verdicts = [S ''resume'', S ''warn'', S ''suspend'', S ''quarantine'']"

text \<open>\<open>is True\<close>, not truthiness: only the boolean counts as a hint.\<close>

definition derive_risk_class :: "(pystr \<times> json) list \<Rightarrow> pystr" where
  "derive_risk_class tool_def =
     (case map_of tool_def (S ''annotations'') of
        Some (JDict ann) \<Rightarrow>
          if map_of ann (S ''readOnlyHint'') = Some (JBool True) then S ''read_only''
          else if map_of ann (S ''destructiveHint'') = Some (JBool True) then S ''destructive''
          else S ''side_effecting''
      | _ \<Rightarrow> S ''side_effecting'')"

record policy_table =
  matrix :: "(pystr \<times> (pystr \<times> pystr) list) list"
  risk_overrides :: "((pystr \<times> pystr) \<times> pystr) list"

definition risk_class :: "policy_table \<Rightarrow> pystr \<Rightarrow> pystr \<Rightarrow> (pystr \<times> json) list \<Rightarrow> pystr" where
  "risk_class p server tool tool_def =
     (case map_of (risk_overrides p) (server, tool) of
        Some r \<Rightarrow> if r = [] then derive_risk_class tool_def else r
      | None \<Rightarrow> derive_risk_class tool_def)"

definition decide :: "policy_table \<Rightarrow> pystr \<Rightarrow> pystr \<Rightarrow> pyexc + pystr" where
  "decide p severity risk =
     (case map_of (matrix p) severity of
        None \<Rightarrow> Inl KeyError
      | Some row \<Rightarrow> (case map_of row risk of None \<Rightarrow> Inl KeyError | Some v \<Rightarrow> Inr v))"

section \<open>Validation at load time\<close>

definition parse_cell :: "(pystr \<times> json) list \<Rightarrow> pystr \<Rightarrow> pyexc + pystr \<times> pystr" where
  "parse_cell row risk =
     (case map_of row risk of
        Some (JStr v) \<Rightarrow> if v \<in> set verdicts then Inr (risk, v) else Inl PolicyError
      | _ \<Rightarrow> Inl PolicyError)"

definition parse_row :: "(pystr \<times> json) list \<Rightarrow> pystr \<Rightarrow> pyexc + pystr \<times> (pystr \<times> pystr) list" where
  "parse_row m severity =
     (case map_of m severity of
        Some (JDict row) \<Rightarrow>
          if list_ex (\<lambda>c. c \<notin> set risk_classes) (keys row) then Inl PolicyError
          else bindE (mapE (parse_cell row) risk_classes) (\<lambda>cells. Inr (severity, cells))
      | _ \<Rightarrow> Inl PolicyError)"

definition add_override ::
  "((pystr \<times> pystr) \<times> pystr) list \<Rightarrow> json \<Rightarrow> pyexc + ((pystr \<times> pystr) \<times> pystr) list" where
  "add_override ov item =
     (case item of
        JDict d \<Rightarrow>
          (case (map_of d (S ''server''), map_of d (S ''tool'')) of
             (Some (JStr server), Some (JStr tool)) \<Rightarrow>
               if server = [] \<or> tool = [] then Inl PolicyError
               else (case map_of d (S ''risk_class'') of
                       Some (JStr risk) \<Rightarrow>
                         if risk \<in> set risk_classes then Inr (AList.update (server, tool) risk ov)
                         else Inl PolicyError
                     | _ \<Rightarrow> Inl PolicyError)
           | _ \<Rightarrow> Inl PolicyError)
      | _ \<Rightarrow> Inl PolicyError)"

definition policy_from_dict :: "(pystr \<times> json) list \<Rightarrow> pyexc + policy_table" where
  "policy_from_dict raw =
     (case map_of raw (S ''matrix'') of
        Some (JDict m) \<Rightarrow>
          if list_ex (\<lambda>r. r \<notin> set severities) (keys m) then Inl PolicyError
          else bindE (mapE (parse_row m) severities) (\<lambda>rows.
               bindE (py_iter (dict_get raw (S ''risk_overrides'') (JList []))) (\<lambda>items.
               bindE (foldE add_override [] items) (\<lambda>ov.
               Inr \<lparr>matrix = rows, risk_overrides = ov\<rparr>)))
      | _ \<Rightarrow> Inl PolicyError)"

text \<open>\<open>parsed\<close> is what reading the file and \<open>json.loads\<close> return or raise; only \<open>JSONDecodeError\<close> is caught.\<close>

definition policy_from_file :: "pyexc + json \<Rightarrow> pyexc + policy_table" where
  "policy_from_file parsed =
     (case parsed of
        Inl e \<Rightarrow> if e = JSONDecodeError then Inl PolicyError else Inl e
      | Inr (JDict raw) \<Rightarrow> policy_from_dict raw
      | Inr _ \<Rightarrow> Inl PolicyError)"

section \<open>The table the package ships\<close>

definition default_row :: "string \<Rightarrow> string \<Rightarrow> string \<Rightarrow> json" where
  "default_row a b c = JDict [(S ''read_only'', JStr (S a)), (S ''side_effecting'', JStr (S b)),
     (S ''destructive'', JStr (S c))]"

definition default_policy_json :: "(pystr \<times> json) list" where
  "default_policy_json =
     [(S ''matrix'', JDict
        [(S ''NONE'', default_row ''resume'' ''resume'' ''resume''),
         (S ''INFO'', default_row ''resume'' ''resume'' ''resume''),
         (S ''WARN'', default_row ''warn'' ''warn'' ''suspend''),
         (S ''BREAKING'', default_row ''suspend'' ''suspend'' ''suspend''),
         (S ''SECURITY'', default_row ''quarantine'' ''quarantine'' ''quarantine'')]),
      (S ''risk_overrides'', JList [])]"

definition default_policy :: "pyexc + policy_table" where
  "default_policy = policy_from_dict default_policy_json"

section \<open>What a validated table guarantees\<close>

definition policy_ok :: "policy_table \<Rightarrow> bool" where
  "policy_ok p \<longleftrightarrow>
     (\<forall>s \<in> set severities. \<forall>r \<in> set risk_classes. \<exists>v \<in> set verdicts. decide p s r = Inr v)
   \<and> (\<forall>k r. map_of (risk_overrides p) k = Some r \<longrightarrow> r \<in> set risk_classes)"

lemma mapE_lookup:
  assumes "mapE f ks = Inr d" and "k \<in> set ks" and "distinct ks"
    and "\<And>k p. f k = Inr p \<Longrightarrow> fst p = k"
  shows "\<exists>p. f k = Inr p \<and> map_of d k = Some (snd p)"
  using assms(1-3)
proof (induction ks arbitrary: d)
  case (Cons a ks)
  then obtain p d' where p: "f a = Inr p" "mapE f ks = Inr d'" "d = p # d'" by (auto simp: bindE_eq_Inr)
  from assms(4)[OF p(1)] have "fst p = a" .
  with Cons p show ?case by (cases p) auto
qed simp

lemma parse_cell_Inr: "parse_cell row risk = Inr p \<Longrightarrow> fst p = risk \<and> snd p \<in> set verdicts"
  by (auto simp: parse_cell_def split: option.splits json.splits if_splits)

lemma parse_row_Inr:
  assumes "parse_row m s = Inr p"
  shows "fst p = s" and "r \<in> set risk_classes \<Longrightarrow> \<exists>v \<in> set verdicts. map_of (snd p) r = Some v"
proof -
  from assms obtain row cells where cells: "mapE (parse_cell row) risk_classes = Inr cells" "p = (s, cells)"
    by (auto simp: parse_row_def bindE_eq_Inr split: option.splits json.splits if_splits)
  then show "fst p = s" by simp
  assume "r \<in> set risk_classes"
  with mapE_lookup[OF cells(1)] parse_cell_Inr
  obtain q where "parse_cell row r = Inr q" "map_of cells r = Some (snd q)"
    by (fastforce simp: risk_classes_def)
  with parse_cell_Inr cells(2) show "\<exists>v \<in> set verdicts. map_of (snd p) r = Some v" by auto
qed

lemma add_override_ok:
  assumes "add_override ov item = Inr ov'" "\<forall>k r. map_of ov k = Some r \<longrightarrow> r \<in> set risk_classes"
  shows "\<forall>k r. map_of ov' k = Some r \<longrightarrow> r \<in> set risk_classes"
  using assms
  by (auto simp: add_override_def update_conv' split: json.splits option.splits if_splits)

lemma policy_from_dict_ok:
  assumes "policy_from_dict raw = Inr p"
  shows "policy_ok p"
proof -
  from assms obtain m items where m: "mapE (parse_row m) severities = Inr (matrix p)"
      and ov: "foldE add_override [] items = Inr (risk_overrides p)"
    by (auto simp: policy_from_dict_def bindE_eq_Inr simp del: dict_get.simps
        split: option.splits json.splits if_splits)
  have "\<exists>v \<in> set verdicts. decide p s r = Inr v" if s: "s \<in> set severities" and r: "r \<in> set risk_classes" for s r
  proof -
    have "distinct severities" by (simp add: severities_def)
    moreover have "fst q = k" if "parse_row m k = Inr q" for k q by (rule parse_row_Inr(1)[OF that])
    ultimately obtain q where "parse_row m s = Inr q" "map_of (matrix p) s = Some (snd q)"
      using mapE_lookup[OF m s] by blast
    with parse_row_Inr(2)[OF _ r] show ?thesis by (fastforce simp: decide_def)
  qed
  moreover have "\<forall>k r. map_of (risk_overrides p) k = Some r \<longrightarrow> r \<in> set risk_classes"
  proof (rule foldE_invariant[OF ov])
    show "\<forall>k r. map_of v k = Some r \<longrightarrow> r \<in> set risk_classes"
      if "\<forall>k r. map_of u k = Some r \<longrightarrow> r \<in> set risk_classes" "add_override u x = Inr v" for u x v
      using add_override_ok[OF that(2,1)] .
  qed simp
  ultimately show ?thesis by (simp add: policy_ok_def)
qed

lemma derive_risk_class_ok: "derive_risk_class d \<in> set risk_classes"
  by (auto simp: derive_risk_class_def risk_classes_def split: option.splits json.splits)

lemma risk_class_ok: "policy_ok p \<Longrightarrow> risk_class p server tool d \<in> set risk_classes"
  using derive_risk_class_ok by (auto simp: risk_class_def policy_ok_def split: option.splits)

section \<open>Properties\<close>

text \<open>C7 A policy file that loads is complete: whatever the differ's severity and whatever the
  tool (any annotations, any override), the decision is one of the four verdicts and never
  raises.\<close>

theorem policy_never_raises:
  assumes "policy_from_file parsed = Inr p" and "severity \<in> set severities"
  shows "\<exists>v \<in> set verdicts. decide p severity (risk_class p server tool tool_def) = Inr v"
proof -
  from assms(1) have "policy_ok p"
    by (auto simp: policy_from_file_def policy_from_dict_ok split: sum.splits json.splits if_splits)
  with assms(2) risk_class_ok[OF this] show ?thesis by (auto simp: policy_ok_def)
qed

lemma parse_default_row:
  assumes "S a \<in> set verdicts" "S b \<in> set verdicts" "S c \<in> set verdicts"
    and "map_of m s = Some (default_row a b c)"
  shows "parse_row m s = Inr (s, zip risk_classes [S a, S b, S c])"
  using assms by (simp add: parse_row_def default_row_def risk_classes_def parse_cell_def)

lemma default_policy_value:
  "default_policy = Inr \<lparr>matrix =
     [(S ''NONE'', zip risk_classes [S ''resume'', S ''resume'', S ''resume'']),
      (S ''INFO'', zip risk_classes [S ''resume'', S ''resume'', S ''resume'']),
      (S ''WARN'', zip risk_classes [S ''warn'', S ''warn'', S ''suspend'']),
      (S ''BREAKING'', zip risk_classes [S ''suspend'', S ''suspend'', S ''suspend'']),
      (S ''SECURITY'', zip risk_classes [S ''quarantine'', S ''quarantine'', S ''quarantine''])],
     risk_overrides = []\<rparr>"
proof -
  define m where "m =
     [(S ''NONE'', default_row ''resume'' ''resume'' ''resume''),
      (S ''INFO'', default_row ''resume'' ''resume'' ''resume''),
      (S ''WARN'', default_row ''warn'' ''warn'' ''suspend''),
      (S ''BREAKING'', default_row ''suspend'' ''suspend'' ''suspend''),
      (S ''SECURITY'', default_row ''quarantine'' ''quarantine'' ''quarantine'')]"
  have v: "S ''resume'' \<in> set verdicts" "S ''warn'' \<in> set verdicts" "S ''suspend'' \<in> set verdicts"
    "S ''quarantine'' \<in> set verdicts" by (simp_all add: verdicts_def)
  have rows: "parse_row m (S ''NONE'') = Inr (S ''NONE'', zip risk_classes [S ''resume'', S ''resume'', S ''resume''])"
    "parse_row m (S ''INFO'') = Inr (S ''INFO'', zip risk_classes [S ''resume'', S ''resume'', S ''resume''])"
    "parse_row m (S ''WARN'') = Inr (S ''WARN'', zip risk_classes [S ''warn'', S ''warn'', S ''suspend''])"
    "parse_row m (S ''BREAKING'') = Inr (S ''BREAKING'', zip risk_classes [S ''suspend'', S ''suspend'', S ''suspend''])"
    "parse_row m (S ''SECURITY'') = Inr (S ''SECURITY'', zip risk_classes [S ''quarantine'', S ''quarantine'', S ''quarantine''])"
    by (rule parse_default_row; simp add: v m_def)+
  have "keys m = severities" by (simp add: m_def severities_def)
  then have "\<not> list_ex (\<lambda>r. r \<notin> set severities) (keys m)" by (simp add: list_ex_iff)
  moreover have "map_of default_policy_json (S ''matrix'') = Some (JDict m)"
    "dict_get default_policy_json (S ''risk_overrides'') (JList []) = JList []"
    by (simp_all add: default_policy_json_def m_def)
  ultimately show ?thesis
    by (simp add: default_policy_def policy_from_dict_def severities_def rows)
qed

lemma default_policy_loads: "\<exists>p. default_policy = Inr p"
  by (simp add: default_policy_value)

theorem policy_never_raises_witness:
  "\<exists>p. default_policy = Inr p
     \<and> (\<exists>v \<in> set verdicts. decide p (S ''WARN'') (risk_class p (S ''srv'') (S ''t'') []) = Inr v)"
proof -
  obtain p where p: "default_policy = Inr p" using default_policy_loads by blast
  then have "policy_from_file (Inr (JDict default_policy_json)) = Inr p"
    by (simp add: policy_from_file_def default_policy_def)
  from policy_never_raises[OF this, of "S ''WARN''"] p show ?thesis by (auto simp: severities_def)
qed

lemma default_policy_examples:
  assumes "default_policy = Inr p"
  shows "risk_overrides p = []"
    and "decide p (S ''NONE'') (S ''side_effecting'') = Inr (S ''resume'')"
    and "decide p (S ''SECURITY'') (S ''side_effecting'') = Inr (S ''quarantine'')"
  using assms unfolding default_policy_value
  by (auto simp: decide_def risk_classes_def)

text \<open>The shipped table by the positions of its verdicts.\<close>

definition default_positions :: "nat list list" where
  "default_positions = [[0, 0, 0], [0, 0, 0], [1, 1, 2], [2, 2, 2], [3, 3, 3]]"

lemma default_policy_decides:
  assumes "default_policy = Inr p" and "i < 5" and "k < 3"
  shows "decide p (severities ! i) (risk_classes ! k) = Inr (verdicts ! (default_positions ! i ! k))"
proof -
  have "list_all (\<lambda>i. list_all (\<lambda>k. decide p (severities ! i) (risk_classes ! k)
          = Inr (verdicts ! (default_positions ! i ! k))) [0, 1, 2]) [0, 1, 2, 3, 4]"
    using assms(1) unfolding default_policy_value
    by (auto simp: severities_def risk_classes_def verdicts_def decide_def default_positions_def)
  moreover have "i \<in> {0, 1, 2, 3, 4}" "k \<in> {0, 1, 2}" using assms(2,3) by auto
  ultimately show ?thesis by auto
qed

lemma default_positions_monotone:
  assumes "i \<le> j" "j < 5" "k \<le> l" "l < 3"
  shows "default_positions ! i ! k \<le> default_positions ! j ! l \<and> default_positions ! j ! l < 4
       \<and> (3 \<le> j \<longrightarrow> 2 \<le> default_positions ! j ! l) \<and> (j = 4 \<longrightarrow> default_positions ! j ! l = 3)"
proof -
  let ?t = "\<lambda>i k. default_positions ! i ! k"
  have all: "list_all (\<lambda>i. list_all (\<lambda>j. list_all (\<lambda>k. list_all (\<lambda>l. i \<le> j \<longrightarrow> k \<le> l \<longrightarrow>
      ?t i k \<le> ?t j l \<and> ?t j l < 4 \<and> (3 \<le> j \<longrightarrow> 2 \<le> ?t j l) \<and> (j = 4 \<longrightarrow> ?t j l = 3))
      [0..<3]) [0..<3]) [0..<5]) [0..<5]"
    unfolding default_positions_def by code_simp
  show ?thesis using all assms by (simp add: list_all_iff)
qed

text \<open>C18 The shipped table is monotone: a worse severity never gets a milder verdict, nor does a
  more dangerous risk class; a security finding is always quarantined and a breaking one is
  always suspended or worse.\<close>

theorem default_policy_monotone:
  assumes "default_policy = Inr p"
    and "i \<le> j" and "j < length severities" and "k \<le> l" and "l < length risk_classes"
  shows "\<exists>a b. decide p (severities ! i) (risk_classes ! k) = Inr (verdicts ! a)
       \<and> decide p (severities ! j) (risk_classes ! l) = Inr (verdicts ! b)
       \<and> a \<le> b \<and> b < length verdicts \<and> (3 \<le> j \<longrightarrow> 2 \<le> b) \<and> (j = 4 \<longrightarrow> b = 3)"
proof -
  have len: "j < 5" "l < 3" "length verdicts = 4"
    using assms(3,5) by (simp_all add: severities_def risk_classes_def verdicts_def)
  have less: "i < 5" "k < 3" using assms(2,4) len by simp_all
  show ?thesis
    using default_policy_decides[OF assms(1) less] default_policy_decides[OF assms(1) len(1,2)]
      default_positions_monotone[OF assms(2) len(1) assms(4) len(2)] len(3) by metis
qed

theorem default_policy_monotone_witness:
  "\<exists>p a b. default_policy = Inr p
     \<and> decide p (S ''WARN'') (S ''read_only'') = Inr (verdicts ! a)
     \<and> decide p (S ''SECURITY'') (S ''destructive'') = Inr (verdicts ! b) \<and> a \<le> b \<and> b = 3"
proof -
  obtain p where p: "default_policy = Inr p" using default_policy_loads by blast
  have nth: "severities ! 2 = S ''WARN''" "severities ! 4 = S ''SECURITY''"
    "risk_classes ! 0 = S ''read_only''" "risk_classes ! 2 = S ''destructive''"
    by (simp_all add: severities_def risk_classes_def)
  from default_policy_monotone[OF p, of 2 4 0 2] obtain a b where
    "decide p (severities ! 2) (risk_classes ! 0) = Inr (verdicts ! a)"
    "decide p (severities ! 4) (risk_classes ! 2) = Inr (verdicts ! b)" "a \<le> b" "b = 3"
    by (auto simp: severities_def risk_classes_def)
  with p show ?thesis unfolding nth by blast
qed

end
