(* ===== verification/Control.thy ===== *)
theory Control
  imports Policy
begin

text \<open>
  The logic of the control plane (\<open>control/service.py\<close>): parsing of a change report, the
  approved baselines, the quarantine set, the verdict cache with its futures, and the
  verdict. The operations are cut where the code takes and releases its lock, so that the
  concurrent model (theory \<open>Control_Threads\<close>) interleaves exactly these sections; here they are
  also composed in the order of the code, for a caller that is alone. The differ
  (\<open>diff_fn\<close>, injectable in the code) and SHA-256 are parameters.
\<close>

section \<open>Requests\<close>

text \<open>The messages of \<open>BadRequest\<close>; everything else that is raised becomes a 500.\<close>

datatype bad_request =
    BodyNotObject | DefsNotObjects | BadField string | CannotHash pyexc | BadHashFormat
  | BadApprover | BadLength | BodyTooLarge | InvalidJson

datatype control_error = Bad bad_request | Raised pyexc

record change_request =
  cr_server :: pystr
  cr_tool :: pystr
  cr_session :: pystr
  cr_old_hash :: pystr
  cr_new_hash :: pystr
  cr_old_def :: "(pystr \<times> json) list"
  cr_new_def :: "(pystr \<times> json) list"

definition require_str :: "(pystr \<times> json) list \<Rightarrow> string \<Rightarrow> bool \<Rightarrow> control_error + pystr" where
  "require_str payload key allow_empty =
     (case map_of payload (S key) of
        Some (JStr s) \<Rightarrow> if s = [] \<and> \<not> allow_empty then Inl (Bad (BadField key)) else Inr s
      | _ \<Rightarrow> Inl (Bad (BadField key)))"

definition parse_change_request :: "json \<Rightarrow> control_error + change_request" where
  "parse_change_request body =
     (case body of
        JDict payload \<Rightarrow>
          (case (map_of payload (S ''old_def''), map_of payload (S ''new_def'')) of
             (Some (JDict old_def), Some (JDict new_def)) \<Rightarrow>
               bindE (require_str payload ''server'' False) (\<lambda>server.
               bindE (require_str payload ''tool'' False) (\<lambda>tool.
               bindE (if S ''session_id'' \<in> set (keys payload)
                      then require_str payload ''session_id'' True else Inr []) (\<lambda>session.
               bindE (require_str payload ''old_hash'' False) (\<lambda>old_hash.
               bindE (require_str payload ''new_hash'' False) (\<lambda>new_hash.
               Inr \<lparr>cr_server = server, cr_tool = tool, cr_session = session,
                    cr_old_hash = old_hash, cr_new_hash = new_hash,
                    cr_old_def = old_def, cr_new_def = new_def\<rparr>)))))
           | _ \<Rightarrow> Inl (Bad DefsNotObjects))
      | _ \<Rightarrow> Inl (Bad BodyNotObject))"

section \<open>Analyses\<close>

type_synonym diff_fn = "pystr \<Rightarrow> (pystr \<times> json) list \<Rightarrow> (pystr \<times> json) list \<Rightarrow> pyexc + finding list"

record analysis =
  an_findings :: "finding list"
  an_severity :: "severity option"

definition analyse :: "diff_fn \<Rightarrow> pystr \<Rightarrow> (pystr \<times> json) list \<Rightarrow> (pystr \<times> json) list \<Rightarrow> pyexc + analysis" where
  "analyse diff tool old_def new_def =
     bindE (diff tool old_def new_def) (\<lambda>fs.
       let findings = sort_findings fs in
       Inr \<lparr>an_findings = findings, an_severity = highest_severity findings\<rparr>)"

definition severity_text :: "severity option \<Rightarrow> pystr" where
  "severity_text s = (case s of None \<Rightarrow> S ''NONE'' | Some x \<Rightarrow> severity_name x)"

definition reason :: "analysis \<Rightarrow> pystr \<Rightarrow> pystr" where
  "reason a risk =
     (case an_findings a of
        [] \<Rightarrow> S ''no differences found; risk_class='' @ risk
      | worst # rest \<Rightarrow>
          severity_name (f_severity worst) @ S '' '' @ S (f_rule worst) @ S '' at '' @ f_path worst
          @ (if rest = [] then []
             else S '' (+'' @ str_nat (length rest) @ S '' more finding''
                  @ (if length rest \<noteq> 1 then S ''s'' else []) @ S '')'')
          @ S ''; risk_class='' @ risk)"

section \<open>The state and its sections\<close>

record approval =
  ap_hash :: pystr
  ap_by :: pystr
  ap_reason :: pystr
  ap_at :: pystr

record control_stats =
  changes :: nat
  cache_hits :: nat
  cache_misses :: nat
  hash_mismatches :: nat
  approved_hits :: nat

text \<open>A \<open>Future\<close>: the cache holds references to futures, so that waiters and the cache share
  the one result. A future is named by its position in \<open>futures\<close>.\<close>

datatype future = Pending | Result analysis | Exception pyexc

record control =
  policy :: policy_table
  cache_size :: int
  cache :: "((pystr \<times> pystr) \<times> nat) list"
  futures :: "future list"
  quarantine :: "(pystr \<times> pystr) set"
  approved :: "((pystr \<times> pystr) \<times> approval) list"
  stats :: control_stats

definition control_init :: "policy_table \<Rightarrow> int \<Rightarrow> control" where
  "control_init p n =
     \<lparr>policy = p, cache_size = n, cache = [], futures = [], quarantine = {}, approved = [],
      stats = \<lparr>changes = 0, cache_hits = 0, cache_misses = 0, hash_mismatches = 0, approved_hits = 0\<rparr>\<rparr>"

definition compute_hashes ::
  "(nat list \<Rightarrow> pystr) \<Rightarrow> change_request \<Rightarrow> control_error + pystr \<times> pystr" where
  "compute_hashes sha req =
     (case bindE (tool_hash sha (cr_old_def req)) (\<lambda>oh.
           bindE (tool_hash sha (cr_new_def req)) (\<lambda>nh. Inr (oh, nh))) of
        Inl e \<Rightarrow> if e \<in> {KeyError, TypeError, ValueError} then Inl (Bad (CannotHash e)) else Inl (Raised e)
      | Inr h \<Rightarrow> Inr h)"

text \<open>The hashes on which the proxy and the control plane disagree: field, theirs, ours.\<close>

definition check_hashes :: "change_request \<Rightarrow> pystr \<Rightarrow> pystr \<Rightarrow> (string \<times> pystr \<times> pystr) list" where
  "check_hashes req oh nh = filter (\<lambda>(field, theirs, ours). theirs \<noteq> ours)
     [(''old_hash'', cr_old_hash req, oh), (''new_hash'', cr_new_hash req, nh)]"

definition subject :: "change_request \<Rightarrow> pystr \<times> pystr" where
  "subject req = (cr_server req, cr_tool req)"

definition is_approved :: "control \<Rightarrow> change_request \<Rightarrow> pystr \<Rightarrow> bool" where
  "is_approved c req nh = (case map_of (approved c) (subject req) of
     Some a \<Rightarrow> ap_hash a = nh | None \<Rightarrow> False)"

text \<open>First locked section of \<open>evaluate_change\<close>: count the change, look for an approval.\<close>

definition enter_change :: "control \<Rightarrow> change_request \<Rightarrow> pystr \<Rightarrow> bool \<Rightarrow> bool \<times> control" where
  "enter_change c req nh mismatch =
     (let s = stats c;
          s = s\<lparr>changes := changes s + 1\<rparr>;
          s = (if mismatch then s\<lparr>hash_mismatches := hash_mismatches s + 1\<rparr> else s);
          app = is_approved c req nh;
          s = (if app then s\<lparr>approved_hits := approved_hits s + 1\<rparr> else s)
      in (app, c\<lparr>stats := s\<rparr>))"

text \<open>\<open>while len(cache) > cache_size: cache.popitem(last=False)\<close>; \<open>popitem\<close> raises on an empty
  dictionary (a negative size).\<close>

primrec shrink :: "int \<Rightarrow> ('a \<times> 'b) list \<Rightarrow> pyexc + ('a \<times> 'b) list" where
  "shrink n [] = (if 0 > n then Inl KeyError else Inr [])"
| "shrink n (p # d) = (if int (length (p # d)) > n then shrink n d else Inr (p # d))"

text \<open>Locked section of \<open>_cached_analysis\<close>: the future for the key, and whether the caller owns it.\<close>

definition lookup_future :: "control \<Rightarrow> pystr \<times> pystr \<Rightarrow> (pyexc + nat \<times> bool) \<times> control" where
  "lookup_future c key =
     (case map_of (cache c) key of
        Some fid \<Rightarrow>
          (Inr (fid, False),
           c\<lparr>cache := AList.delete key (cache c) @ [(key, fid)],
             stats := (stats c)\<lparr>cache_hits := cache_hits (stats c) + 1\<rparr>\<rparr>)
      | None \<Rightarrow>
          let fid = length (futures c);
              c1 = c\<lparr>futures := futures c @ [Pending],
                     cache := AList.update key fid (cache c),
                     stats := (stats c)\<lparr>cache_misses := cache_misses (stats c) + 1\<rparr>\<rparr>
          in (case shrink (cache_size c) (cache c1) of
                Inl e \<Rightarrow> (Inl e, c1\<lparr>cache := []\<rparr>)
              | Inr d \<Rightarrow> (Inr (fid, True), c1\<lparr>cache := d\<rparr>)))"

definition set_future :: "nat \<Rightarrow> future \<Rightarrow> control \<Rightarrow> control" where
  "set_future fid r c = c\<lparr>futures := (futures c)[fid := r]\<rparr>"

text \<open>\<open>self._cache.pop(key, None)\<close>: a failure is not cached.\<close>

definition forget_key :: "pystr \<times> pystr \<Rightarrow> control \<Rightarrow> control" where
  "forget_key key c = c\<lparr>cache := AList.delete key (cache c)\<rparr>"

text \<open>Last locked section: an approval that came meanwhile wins over a quarantine.\<close>

definition conclude :: "control \<Rightarrow> change_request \<Rightarrow> pystr \<Rightarrow> pystr \<Rightarrow> bool \<times> control" where
  "conclude c req nh verdict =
     (if is_approved c req nh
      then (True, c\<lparr>stats := (stats c)\<lparr>approved_hits := approved_hits (stats c) + 1\<rparr>\<rparr>)
      else (False, if verdict = S ''quarantine''
                   then c\<lparr>quarantine := insert (subject req) (quarantine c)\<rparr> else c))"

section \<open>Responses\<close>

definition opt_str :: "pystr option \<Rightarrow> json" where
  "opt_str s = (case s of None \<Rightarrow> JNull | Some x \<Rightarrow> JStr x)"

definition mismatch_dict :: "string \<times> pystr \<times> pystr \<Rightarrow> json" where
  "mismatch_dict m = (case m of (field, theirs, ours) \<Rightarrow>
     JDict [(S ''field'', JStr (S field)), (S ''proxy'', JStr theirs), (S ''control'', JStr ours)])"

definition response_body ::
  "(nat \<Rightarrow> bool) \<Rightarrow> pystr \<Rightarrow> pystr \<Rightarrow> finding list \<Rightarrow> pystr option \<Rightarrow> pystr option \<Rightarrow> bool \<Rightarrow>
   (string \<times> pystr \<times> pystr) list \<Rightarrow> (pystr \<times> json) list" where
  "response_body pr verdict why findings severity risk hit mismatches =
     (let body = [(S ''verdict'', JStr verdict), (S ''reason'', JStr why),
                  (S ''findings'', JList (map (finding_dict pr) findings)),
                  (S ''severity'', opt_str severity), (S ''risk_class'', opt_str risk),
                  (S ''cache_hit'', JBool hit)]
      in if mismatches = [] then body
         else AList.update (S ''reason'')
           (JStr (S ''HASH_MISMATCH ('' @ join (S '', '') (map (S \<circ> fst) mismatches)
              @ S ''): proxy and control disagree on def_hash; '' @ why))
           (body @ [(S ''hash_mismatch'', JList (map mismatch_dict mismatches))]))"

definition approved_body :: "(nat \<Rightarrow> bool) \<Rightarrow> (string \<times> pystr \<times> pystr) list \<Rightarrow> (pystr \<times> json) list" where
  "approved_body pr mm =
     response_body pr (S ''resume'') (S ''matches approved baseline'') [] None None False mm"

definition verdict_of :: "policy_table \<Rightarrow> change_request \<Rightarrow> analysis \<Rightarrow> pyexc + pystr \<times> pystr" where
  "verdict_of p req a =
     (let risk = risk_class p (cr_server req) (cr_tool req) (cr_new_def req) in
      bindE (decide p (severity_text (an_severity a)) risk) (\<lambda>v. Inr (v, risk)))"

definition verdict_body ::
  "(nat \<Rightarrow> bool) \<Rightarrow> analysis \<Rightarrow> pystr \<Rightarrow> pystr \<Rightarrow> bool \<Rightarrow> (string \<times> pystr \<times> pystr) list \<Rightarrow> (pystr \<times> json) list" where
  "verdict_body pr a verdict risk hit mm =
     response_body pr verdict (reason a risk) (an_findings a)
       (Some (severity_text (an_severity a))) (Some risk) hit mm"

section \<open>The operations for a caller that is alone\<close>

text \<open>\<open>_cached_analysis\<close>. \<open>None\<close>: the caller waits for a future that nobody will resolve.\<close>

definition cached_analysis ::
  "diff_fn \<Rightarrow> control \<Rightarrow> pystr \<times> pystr \<Rightarrow> change_request \<Rightarrow> (pyexc + analysis \<times> bool) option \<times> control" where
  "cached_analysis diff c key req =
     (case lookup_future c key of
        (Inl e, c1) \<Rightarrow> (Some (Inl e), c1)
      | (Inr (fid, owner), c1) \<Rightarrow>
          if owner then
            (case analyse diff (cr_tool req) (cr_old_def req) (cr_new_def req) of
               Inr a \<Rightarrow> (Some (Inr (a, False)), set_future fid (Result a) c1)
             | Inl e \<Rightarrow> (Some (Inl e), set_future fid (Exception e) (forget_key key c1)))
          else (case futures c1 ! fid of
                  Pending \<Rightarrow> (None, c1)
                | Result a \<Rightarrow> (Some (Inr (a, True)), c1)
                | Exception e \<Rightarrow> (Some (Inl e), c1)))"

definition evaluate_change ::
  "(nat \<Rightarrow> bool) \<Rightarrow> (nat list \<Rightarrow> pystr) \<Rightarrow> diff_fn \<Rightarrow> control \<Rightarrow> change_request \<Rightarrow>
   (control_error + (pystr \<times> json) list) option \<times> control" where
  "evaluate_change pr sha diff c req =
     (case compute_hashes sha req of
        Inl e \<Rightarrow> (Some (Inl e), c)
      | Inr (oh, nh) \<Rightarrow>
        let mm = check_hashes req oh nh;
            (app, c1) = enter_change c req nh (mm \<noteq> [])
        in if app then (Some (Inr (approved_body pr mm)), c1)
           else (case cached_analysis diff c1 (oh, nh) req of
                   (None, c2) \<Rightarrow> (None, c2)
                 | (Some (Inl e), c2) \<Rightarrow> (Some (Inl (Raised e)), c2)
                 | (Some (Inr (a, hit)), c2) \<Rightarrow>
                     (case verdict_of (policy c2) req a of
                        Inl e \<Rightarrow> (Some (Inl (Raised e)), c2)
                      | Inr (verdict, risk) \<Rightarrow>
                          let (app2, c3) = conclude c2 req nh verdict
                          in if app2 then (Some (Inr (approved_body pr mm)), c3)
                             else (Some (Inr (verdict_body pr a verdict risk hit mm)), c3))))"

definition quarantine_list :: "control \<Rightarrow> json" where
  "quarantine_list c = JList (map (\<lambda>(s, t). JDict [(S ''server'', JStr s), (S ''tool'', JStr t)])
     (sorted_list_of_set (quarantine c)))"

definition optional_str :: "(pystr \<times> json) list \<Rightarrow> string \<Rightarrow> control_error + pystr" where
  "optional_str payload key = (case dict_get payload (S key) (JStr []) of
     JStr s \<Rightarrow> Inr s | _ \<Rightarrow> Inl (Bad BadApprover))"

definition parse_approval :: "json \<Rightarrow> control_error + (pystr \<times> pystr) \<times> pystr \<times> pystr \<times> pystr" where
  "parse_approval body =
     (case body of
        JDict payload \<Rightarrow>
          bindE (require_str payload ''server'' False) (\<lambda>server.
          bindE (require_str payload ''tool'' False) (\<lambda>tool.
          bindE (require_str payload ''def_hash'' False) (\<lambda>def_hash.
          if \<not> hash_re_match def_hash then Inl (Bad BadHashFormat)
          else bindE (optional_str payload ''approved_by'') (\<lambda>who.
               bindE (optional_str payload ''reason'') (\<lambda>why.
               Inr ((server, tool), def_hash, who, why))))))
      | _ \<Rightarrow> Inl (Bad BodyNotObject))"

text \<open>The locked section of \<open>approve\<close>; \<open>now\<close> is the time stamp.\<close>

definition set_approved ::
  "pystr \<Rightarrow> control \<Rightarrow> pystr \<times> pystr \<Rightarrow> pystr \<Rightarrow> pystr \<Rightarrow> pystr \<Rightarrow> bool \<times> control" where
  "set_approved now c key def_hash who why =
     (key \<in> quarantine c,
      c\<lparr>approved := AList.update key \<lparr>ap_hash = def_hash, ap_by = who, ap_reason = why, ap_at = now\<rparr> (approved c),
        quarantine := quarantine c - {key}\<rparr>)"

definition approve :: "pystr \<Rightarrow> control \<Rightarrow> json \<Rightarrow> (control_error + (pystr \<times> json) list) \<times> control" where
  "approve now c payload =
     (case parse_approval payload of
        Inl e \<Rightarrow> (Inl e, c)
      | Inr ((server, tool), def_hash, who, why) \<Rightarrow>
          let (cleared, c1) = set_approved now c (server, tool) def_hash who why
          in (Inr [(S ''server'', JStr server), (S ''tool'', JStr tool),
                   (S ''approved_hash'', JStr def_hash), (S ''cleared_quarantine'', JBool cleared)], c1))"

definition stats_body :: "control \<Rightarrow> (pystr \<times> json) list" where
  "stats_body c =
     [(S ''changes'', JInt (int (changes (stats c)))),
      (S ''cache_hits'', JInt (int (cache_hits (stats c)))),
      (S ''cache_misses'', JInt (int (cache_misses (stats c)))),
      (S ''hash_mismatches'', JInt (int (hash_mismatches (stats c)))),
      (S ''approved_hits'', JInt (int (approved_hits (stats c)))),
      (S ''quarantined'', JInt (int (card (quarantine c)))),
      (S ''cache_entries'', JInt (int (length (cache c))))]"

end
