(* ===== verification/Control_Threads.thy ===== *)
theory Control_Threads
  imports Control
begin

text \<open>
  The control plane under concurrency (\<open>ThreadingHTTPServer\<close>: one thread per request). A
  step of a thread is one section of \<open>evaluate_change\<close> between lock operations, taken in
  any order with the others; the differ runs outside the lock. \<open>approve\<close> is one locked
  section. The invariant: every pending future has exactly one thread that will resolve it,
  the cache never holds a failure, and a future's result answers for its key.
\<close>

section \<open>Threads\<close>

record job =
  jb_req :: change_request
  jb_old :: pystr
  jb_new :: pystr

definition jb_key :: "job \<Rightarrow> pystr \<times> pystr" where
  "jb_key j = (jb_old j, jb_new j)"

definition jb_mismatches :: "job \<Rightarrow> (string \<times> pystr \<times> pystr) list" where
  "jb_mismatches j = check_hashes (jb_req j) (jb_old j) (jb_new j)"

datatype outcome = Resumed | Judged analysis pystr pystr bool

datatype pc =
    Idle
  | Hashed job
  | Unapproved job
  | Running job nat
  | Failing job nat pyexc
  | Raising job nat pyexc
  | Waiting job nat
  | Analysed job analysis bool
  | Refused control_error
  | Finished job "control_error + outcome"

record sys =
  ctl :: control
  pcs :: "nat \<Rightarrow> pc"

definition goto :: "nat \<Rightarrow> pc \<Rightarrow> control \<Rightarrow> sys \<Rightarrow> sys" where
  "goto i p c s = \<lparr>ctl = c, pcs = (pcs s)(i := p)\<rparr>"

datatype label =
    Arrive nat change_request
  | Run nat
  | Approve "pystr \<times> pystr" pystr

definition job_of_hashes :: "change_request \<Rightarrow> pystr \<times> pystr \<Rightarrow> job" where
  "job_of_hashes req h = \<lparr>jb_req = req, jb_old = fst h, jb_new = snd h\<rparr>"

text \<open>What a thread that is inside \<open>evaluate_change\<close> does next; \<open>None\<close>: it waits.\<close>

fun advance :: "diff_fn \<Rightarrow> control \<Rightarrow> pc \<Rightarrow> (pc \<times> control) option" where
  "advance diff c (Hashed j) =
     (case enter_change c (jb_req j) (jb_new j) (jb_mismatches j \<noteq> []) of
        (True, c1) \<Rightarrow> Some (Finished j (Inr Resumed), c1)
      | (False, c1) \<Rightarrow> Some (Unapproved j, c1))"
| "advance diff c (Unapproved j) =
     (case lookup_future c (jb_key j) of
        (Inl e, c1) \<Rightarrow> Some (Finished j (Inl (Raised e)), c1)
      | (Inr (fid, True), c1) \<Rightarrow> Some (Running j fid, c1)
      | (Inr (fid, False), c1) \<Rightarrow> Some (Waiting j fid, c1))"
| "advance diff c (Running j fid) =
     (case analyse diff (cr_tool (jb_req j)) (cr_old_def (jb_req j)) (cr_new_def (jb_req j)) of
        Inr a \<Rightarrow> Some (Analysed j a False, set_future fid (Result a) c)
      | Inl e \<Rightarrow> Some (Failing j fid e, c))"
| "advance diff c (Failing j fid e) = Some (Raising j fid e, forget_key (jb_key j) c)"
| "advance diff c (Raising j fid e) = Some (Finished j (Inl (Raised e)), set_future fid (Exception e) c)"
| "advance diff c (Waiting j fid) =
     (case futures c ! fid of
        Pending \<Rightarrow> None
      | Result a \<Rightarrow> Some (Analysed j a True, c)
      | Exception e \<Rightarrow> Some (Finished j (Inl (Raised e)), c))"
| "advance diff c (Analysed j a hit) =
     (case verdict_of (policy c) (jb_req j) a of
        Inl e \<Rightarrow> Some (Finished j (Inl (Raised e)), c)
      | Inr (v, risk) \<Rightarrow>
          (case conclude c (jb_req j) (jb_new j) v of
             (True, c1) \<Rightarrow> Some (Finished j (Inr Resumed), c1)
           | (False, c1) \<Rightarrow> Some (Finished j (Inr (Judged a v risk hit)), c1)))"
| "advance diff c _ = None"

inductive ctl_step :: "(nat list \<Rightarrow> pystr) \<Rightarrow> diff_fn \<Rightarrow> sys \<Rightarrow> label \<Rightarrow> sys \<Rightarrow> bool" for sha diff where
  arrive: "pcs s i = Idle \<Longrightarrow> compute_hashes sha req = Inr h \<Longrightarrow>
    ctl_step sha diff s (Arrive i req) (goto i (Hashed (job_of_hashes req h)) (ctl s) s)"
| refuse: "pcs s i = Idle \<Longrightarrow> compute_hashes sha req = Inl e \<Longrightarrow>
    ctl_step sha diff s (Arrive i req) (goto i (Refused e) (ctl s) s)"
| run: "advance diff (ctl s) (pcs s i) = Some (p, c) \<Longrightarrow>
    ctl_step sha diff s (Run i) (goto i p c s)"
| approve: "ctl_step sha diff s (Approve key h)
    (s\<lparr>ctl := snd (set_approved now (ctl s) key h who why)\<rparr>)"

inductive ctl_run :: "(nat list \<Rightarrow> pystr) \<Rightarrow> diff_fn \<Rightarrow> sys \<Rightarrow> label list \<Rightarrow> sys \<Rightarrow> bool" for sha diff where
  empty: "ctl_run sha diff s [] s"
| snoc: "ctl_run sha diff s ls t \<Longrightarrow> ctl_step sha diff t l u \<Longrightarrow> ctl_run sha diff s (ls @ [l]) u"

definition sys_init :: "policy_table \<Rightarrow> int \<Rightarrow> sys" where
  "sys_init p n = \<lparr>ctl = control_init p n, pcs = (\<lambda>_. Idle)\<rparr>"

inductive_cases ctl_stepE: "ctl_step sha diff s l t"

section \<open>The invariant\<close>

text \<open>The future a thread has promised to resolve, the one it refers to, and its job.\<close>

fun owned :: "pc \<Rightarrow> nat option" where
  "owned (Running j fid) = Some fid"
| "owned (Failing j fid e) = Some fid"
| "owned (Raising j fid e) = Some fid"
| "owned _ = None"

fun refers :: "pc \<Rightarrow> (job \<times> nat) option" where
  "refers (Running j fid) = Some (j, fid)"
| "refers (Failing j fid e) = Some (j, fid)"
| "refers (Raising j fid e) = Some (j, fid)"
| "refers (Waiting j fid) = Some (j, fid)"
| "refers _ = None"

fun active_job :: "pc \<Rightarrow> job option" where
  "active_job (Hashed j) = Some j"
| "active_job (Unapproved j) = Some j"
| "active_job (Running j fid) = Some j"
| "active_job (Failing j fid e) = Some j"
| "active_job (Raising j fid e) = Some j"
| "active_job (Waiting j fid) = Some j"
| "active_job (Analysed j a hit) = Some j"
| "active_job _ = None"

definition job_ok :: "(nat list \<Rightarrow> pystr) \<Rightarrow> job \<Rightarrow> bool" where
  "job_ok sha j \<longleftrightarrow> compute_hashes sha (jb_req j) = Inr (jb_key j)"

text \<open>An analysis answers for a key when the differ made it from definitions with these hashes.\<close>

definition answers :: "(nat list \<Rightarrow> pystr) \<Rightarrow> diff_fn \<Rightarrow> pystr \<times> pystr \<Rightarrow> analysis \<Rightarrow> bool" where
  "answers sha diff key a \<longleftrightarrow>
     (\<exists>req. compute_hashes sha req = Inr key
          \<and> analyse diff (cr_tool req) (cr_old_def req) (cr_new_def req) = Inr a)"

text \<open>\<open>K\<close> names the key each future was made for.\<close>

definition pc_ok :: "(nat list \<Rightarrow> pystr) \<Rightarrow> diff_fn \<Rightarrow> (nat \<Rightarrow> pystr \<times> pystr) \<Rightarrow> control \<Rightarrow> pc \<Rightarrow> bool" where
  "pc_ok sha diff K c p \<longleftrightarrow>
     (\<forall>j. active_job p = Some j \<longrightarrow> job_ok sha j)
   \<and> (\<forall>j fid. refers p = Some (j, fid) \<longrightarrow> fid < length (futures c) \<and> K fid = jb_key j)
   \<and> (\<forall>fid. owned p = Some fid \<longrightarrow> futures c ! fid = Pending)
   \<and> (\<forall>j a hit. p = Analysed j a hit \<longrightarrow> answers sha diff (jb_key j) a)
   \<and> (\<forall>j a v risk hit. p = Finished j (Inr (Judged a v risk hit)) \<longrightarrow>
        answers sha diff (jb_key j) a \<and> verdict_of (policy c) (jb_req j) a = Inr (v, risk))
   \<and> (\<forall>j r. p = Finished j r \<longrightarrow> job_ok sha j)
   \<and> (\<forall>j fid e. p = Raising j fid e \<longrightarrow> fid \<notin> snd ` set (cache c))"

definition sys_ok :: "(nat list \<Rightarrow> pystr) \<Rightarrow> diff_fn \<Rightarrow> (nat \<Rightarrow> pystr \<times> pystr) \<Rightarrow> sys \<Rightarrow> bool" where
  "sys_ok sha diff K s \<longleftrightarrow>
     (\<forall>i. pc_ok sha diff K (ctl s) (pcs s i))
   \<and> (\<forall>i i' fid. owned (pcs s i) = Some fid \<longrightarrow> owned (pcs s i') = Some fid \<longrightarrow> i = i')
   \<and> (\<forall>fid < length (futures (ctl s)). futures (ctl s) ! fid = Pending \<longrightarrow> (\<exists>i. owned (pcs s i) = Some fid))
   \<and> (\<forall>fid < length (futures (ctl s)). \<forall>a. futures (ctl s) ! fid = Result a \<longrightarrow> answers sha diff (K fid) a)
   \<and> (\<forall>(key, fid) \<in> set (cache (ctl s)). fid < length (futures (ctl s)) \<and> K fid = key
        \<and> (\<forall>e. futures (ctl s) ! fid \<noteq> Exception e))
   \<and> wf_dict (cache (ctl s))
   \<and> 0 \<le> cache_size (ctl s)"

lemma sys_okD:
  assumes "sys_ok sha diff K s"
  shows "pc_ok sha diff K (ctl s) (pcs s i)"
    and "owned (pcs s i) = Some fid \<Longrightarrow> owned (pcs s i') = Some fid \<Longrightarrow> i = i'"
    and "fid < length (futures (ctl s)) \<Longrightarrow> futures (ctl s) ! fid = Pending \<Longrightarrow> \<exists>i. owned (pcs s i) = Some fid"
    and "fid < length (futures (ctl s)) \<Longrightarrow> futures (ctl s) ! fid = Result a \<Longrightarrow> answers sha diff (K fid) a"
    and "(key, fid) \<in> set (cache (ctl s)) \<Longrightarrow> fid < length (futures (ctl s)) \<and> K fid = key
        \<and> (\<forall>e. futures (ctl s) ! fid \<noteq> Exception e)"
    and "wf_dict (cache (ctl s))"
    and "0 \<le> cache_size (ctl s)"
  using assms unfolding sys_ok_def by blast+

lemma job_ok_of_hashes: "compute_hashes sha req = Inr h \<Longrightarrow> job_ok sha (job_of_hashes req h)"
  by (simp add: job_ok_def job_of_hashes_def jb_key_def)

lemma sys_ok_init: "0 \<le> n \<Longrightarrow> sys_ok sha diff K (sys_init p n)"
  by (simp add: sys_ok_def sys_init_def control_init_def pc_ok_def)

text \<open>A state that keeps the futures and the policy and does not add to the cache keeps the
  other threads' invariant.\<close>

lemma pc_ok_mono:
  assumes "pc_ok sha diff K c p" and "futures c' = futures c" and "policy c' = policy c"
    and "snd ` set (cache c') \<subseteq> snd ` set (cache c)"
  shows "pc_ok sha diff K c' p"
proof -
  have "fid \<notin> snd ` set (cache c')" if p: "p = Raising j fid e" for j fid e
  proof -
    have "fid \<notin> snd ` set (cache c)" using assms(1) p unfolding pc_ok_def by blast
    with assms(4) show ?thesis by blast
  qed
  with assms(1-3) show ?thesis by (simp add: pc_ok_def)
qed

text \<open>One thread moves, the control state changes.\<close>

lemma sys_ok_goto:
  assumes ok: "sys_ok sha diff K s"
    and p: "pc_ok sha diff K c p"
    and others: "\<And>i'. i' \<noteq> i \<Longrightarrow> pc_ok sha diff K c (pcs s i')"
    and own: "owned p = None \<or> owned p = owned (pcs s i)"
    and pending: "\<And>fid. fid < length (futures c) \<Longrightarrow> futures c ! fid = Pending \<Longrightarrow>
        owned p = Some fid \<or> (\<exists>i'. i' \<noteq> i \<and> owned (pcs s i') = Some fid)"
    and result: "\<And>fid a. fid < length (futures c) \<Longrightarrow> futures c ! fid = Result a \<Longrightarrow> answers sha diff (K fid) a"
    and cached: "\<And>key fid. (key, fid) \<in> set (cache c) \<Longrightarrow> fid < length (futures c) \<and> K fid = key
        \<and> (\<forall>e. futures c ! fid \<noteq> Exception e)"
    and dict: "wf_dict (cache c)" and size: "cache_size c = cache_size (ctl s)"
  shows "sys_ok sha diff K (goto i p c s)"
proof -
  let ?t = "goto i p c s"
  have pcs: "pcs ?t k = (if k = i then p else pcs s k)" and ctl: "ctl ?t = c" for k
    by (simp_all add: goto_def)
  have mono: "owned (pcs ?t k) = Some fid \<Longrightarrow> owned (pcs s k) = Some fid" for k fid
    using own by (auto simp: pcs split: if_splits)
  have "\<forall>k. pc_ok sha diff K c (pcs ?t k)" using p others by (simp add: pcs)
  moreover have "\<forall>k k' fid. owned (pcs ?t k) = Some fid \<longrightarrow> owned (pcs ?t k') = Some fid \<longrightarrow> k = k'"
    using mono sys_okD(2)[OF ok] by blast
  moreover have "\<forall>fid < length (futures c). futures c ! fid = Pending \<longrightarrow> (\<exists>k. owned (pcs ?t k) = Some fid)"
  proof (intro allI impI)
    fix fid assume "fid < length (futures c)" "futures c ! fid = Pending"
    from pending[OF this] show "\<exists>k. owned (pcs ?t k) = Some fid"
    proof
      assume "owned p = Some fid"
      then show ?thesis by (intro exI[of _ i]) (simp add: pcs)
    next
      assume "\<exists>i'. i' \<noteq> i \<and> owned (pcs s i') = Some fid"
      then obtain i' where "i' \<noteq> i" "owned (pcs s i') = Some fid" by blast
      then show ?thesis by (intro exI[of _ i']) (simp add: pcs)
    qed
  qed
  moreover have "0 \<le> cache_size c" using sys_okD(7)[OF ok] size by simp
  ultimately show ?thesis
    using result cached dict unfolding sys_ok_def ctl by blast
qed

lemma sys_ok_frame:
  assumes ok: "sys_ok sha diff K s"
    and p: "pc_ok sha diff K c p"
    and own: "owned p = owned (pcs s i)"
    and same: "futures c = futures (ctl s)" "policy c = policy (ctl s)" "cache_size c = cache_size (ctl s)"
    and sub: "set (cache c) \<subseteq> set (cache (ctl s))" and dict: "wf_dict (cache c)"
  shows "sys_ok sha diff K (goto i p c s)"
proof (rule sys_ok_goto[OF ok p])
  show "pc_ok sha diff K c (pcs s i')" for i'
    using same sub by (intro pc_ok_mono[OF sys_okD(1)[OF ok]]) auto
  show "owned p = Some fid \<or> (\<exists>i'. i' \<noteq> i \<and> owned (pcs s i') = Some fid)"
    if "fid < length (futures c)" "futures c ! fid = Pending" for fid
  proof -
    from sys_okD(3)[OF ok] that same(1) obtain k where "owned (pcs s k) = Some fid" by auto
    with own show ?thesis by (cases "k = i") auto
  qed
  show "answers sha diff (K fid) a" if "fid < length (futures c)" "futures c ! fid = Result a" for fid a
    using sys_okD(4)[OF ok] that same(1) by simp
  show "fid < length (futures c) \<and> K fid = key \<and> (\<forall>e. futures c ! fid \<noteq> Exception e)"
    if "(key, fid) \<in> set (cache c)" for key fid
    using sys_okD(5)[OF ok subsetD[OF sub that]] same(1) by simp
qed (use own same dict in simp_all)

text \<open>The owner of a future resolves it.\<close>

lemma sys_ok_resolve:
  assumes ok: "sys_ok sha diff K s" and own: "owned (pcs s i) = Some fid"
    and p: "pc_ok sha diff K (set_future fid r (ctl s)) p" "owned p = None"
    and res: "r \<noteq> Pending" "\<And>a. r = Result a \<Longrightarrow> answers sha diff (K fid) a"
      "\<And>e. r = Exception e \<Longrightarrow> fid \<notin> snd ` set (cache (ctl s))"
  shows "sys_ok sha diff K (goto i p (set_future fid r (ctl s)) s)"
proof (rule sys_ok_goto[OF ok p(1)])
  let ?c = "set_future fid r (ctl s)"
  have pcs: "pc_ok sha diff K (ctl s) (pcs s k)" for k by (rule sys_okD(1)[OF ok])
  have fid: "fid < length (futures (ctl s))"
    using pcs[of i] own by (cases "pcs s i") (auto simp: pc_ok_def)
  have uniq: "owned (pcs s k) \<noteq> Some fid" if "k \<noteq> i" for k
    using sys_okD(2)[OF ok _ own] that by blast
  show "pc_ok sha diff K ?c (pcs s k)" if "k \<noteq> i" for k
    using pcs[of k] uniq[OF that] by (auto simp: pc_ok_def set_future_def nth_list_update)
  show "owned p = Some f \<or> (\<exists>i'. i' \<noteq> i \<and> owned (pcs s i') = Some f)"
    if "f < length (futures ?c)" "futures ?c ! f = Pending" for f
  proof -
    have "f \<noteq> fid" "futures (ctl s) ! f = Pending" "f < length (futures (ctl s))"
      using that res(1) fid by (auto simp: set_future_def nth_list_update split: if_splits)
    with sys_okD(3)[OF ok] obtain k where k: "owned (pcs s k) = Some f" by blast
    with own \<open>f \<noteq> fid\<close> have "k \<noteq> i" by auto
    with k show ?thesis by blast
  qed
  show "answers sha diff (K f) a" if "f < length (futures ?c)" "futures ?c ! f = Result a" for f a
    using sys_okD(4)[OF ok, of f a] that res(2) fid by (auto simp: set_future_def nth_list_update split: if_splits)
  show "f < length (futures ?c) \<and> K f = key \<and> (\<forall>e. futures ?c ! f \<noteq> Exception e)"
    if "(key, f) \<in> set (cache ?c)" for key f
  proof -
    have mem: "(key, f) \<in> set (cache (ctl s))" using that by (simp add: set_future_def)
    have "f \<noteq> fid" if "r = Exception e" for e using res(3)[OF that] mem by force
    with sys_okD(5)[OF ok mem] fid show ?thesis by (auto simp: set_future_def nth_list_update)
  qed
  show "wf_dict (cache ?c)" using sys_okD(6)[OF ok] by (simp add: set_future_def)
  show "cache_size ?c = cache_size (ctl s)" by (simp add: set_future_def)
qed (use p(2) in simp_all)

section \<open>Every step keeps the invariant\<close>

lemma shrink_eq: "0 \<le> n \<Longrightarrow> shrink n d = Inr (drop (length d - nat n) d)"
  by (induction d) (auto simp: Suc_diff_le nat_le_iff)

text \<open>A miss: the thread becomes the owner of a fresh future.\<close>

lemma sys_ok_fresh:
  assumes ok: "sys_ok sha diff K s" and i: "pcs s i = Unapproved j"
    and miss: "map_of (cache (ctl s)) (jb_key j) = None"
    and c: "futures c = futures (ctl s) @ [Pending]" "policy c = policy (ctl s)"
      "cache_size c = cache_size (ctl s)"
    and d: "set (cache c) \<subseteq> set (cache (ctl s)) \<union> {(jb_key j, length (futures (ctl s)))}" "wf_dict (cache c)"
  shows "sys_ok sha diff (K(length (futures (ctl s)) := jb_key j))
           (goto i (Running j (length (futures (ctl s)))) c s)"
proof -
  let ?f = "length (futures (ctl s))" let ?t = "goto i (Running j ?f) c s"
  let ?K = "K(?f := jb_key j)"
  have pcs: "pcs ?t k = (if k = i then Running j ?f else pcs s k)" and ctl: "ctl ?t = c" for k
    by (simp_all add: goto_def)
  have fut: "futures c ! g = futures (ctl s) ! g" if "g < ?f" for g
    using that c(1) by (simp add: nth_append)
  have own_less: "g < ?f" if "owned (pcs s k) = Some g" for k g
    using sys_okD(1)[OF ok, of k] that by (cases "pcs s k") (auto simp: pc_ok_def)
  have old: "pc_ok sha diff ?K c (pcs s k)" if "k \<noteq> i" for k
  proof -
    have "g \<notin> snd ` set (cache c)" if "pcs s k = Raising j' g e" for j' g e
    proof -
      have "g \<notin> snd ` set (cache (ctl s))" "g < ?f"
        using sys_okD(1)[OF ok, of k] that by (auto simp: pc_ok_def)
      with d(1) show ?thesis by auto
    qed
    moreover have "refers (pcs s k) = Some (j', g) \<Longrightarrow> g < ?f \<and> K g = jb_key j'" for j' g
      using sys_okD(1)[OF ok, of k] by (simp add: pc_ok_def)
    ultimately show ?thesis
      using sys_okD(1)[OF ok, of k] own_less[of k] fut c
      by (auto simp: pc_ok_def less_Suc_eq)
  qed
  have new: "pc_ok sha diff ?K c (Running j ?f)"
    using sys_okD(1)[OF ok, of i] i c(1) by (simp add: pc_ok_def nth_append)
  have "\<forall>k. pc_ok sha diff ?K c (pcs ?t k)" using old new by (simp add: pcs)
  moreover have "\<forall>k k' fid. owned (pcs ?t k) = Some fid \<longrightarrow> owned (pcs ?t k') = Some fid \<longrightarrow> k = k'"
  proof (intro allI impI)
    fix k k' fid assume a: "owned (pcs ?t k) = Some fid" "owned (pcs ?t k') = Some fid"
    show "k = k'"
    proof (cases "fid = ?f")
      case True
      with a own_less show ?thesis by (auto simp: pcs split: if_splits)
    next
      case False
      with a have "owned (pcs s k) = Some fid" "owned (pcs s k') = Some fid"
        by (auto simp: pcs split: if_splits)
      then show ?thesis by (rule sys_okD(2)[OF ok])
    qed
  qed
  moreover have "\<forall>fid < length (futures c). futures c ! fid = Pending \<longrightarrow> (\<exists>k. owned (pcs ?t k) = Some fid)"
  proof (intro allI impI)
    fix fid assume a: "fid < length (futures c)" "futures c ! fid = Pending"
    show "\<exists>k. owned (pcs ?t k) = Some fid"
    proof (cases "fid = ?f")
      case True
      then show ?thesis by (intro exI[of _ i]) (simp add: pcs)
    next
      case False
      with a c(1) have "fid < ?f" by simp
      with a fut sys_okD(3)[OF ok] obtain k where k: "owned (pcs s k) = Some fid" by metis
      with i have "k \<noteq> i" by auto
      with k show ?thesis by (intro exI[of _ k]) (simp add: pcs)
    qed
  qed
  moreover have "\<forall>fid < length (futures c). \<forall>a. futures c ! fid = Result a \<longrightarrow> answers sha diff (?K fid) a"
    using sys_okD(4)[OF ok] c(1) by (auto simp: nth_append less_Suc_eq)
  moreover have "\<forall>(key, fid) \<in> set (cache c). fid < length (futures c) \<and> ?K fid = key
      \<and> (\<forall>e. futures c ! fid \<noteq> Exception e)"
  proof (intro ballI, clarify)
    fix k1 k2 fid assume "((k1, k2), fid) \<in> set (cache c)"
    with d(1) consider "((k1, k2), fid) \<in> set (cache (ctl s))" | "(k1, k2) = jb_key j" "fid = ?f" by auto
    then show "fid < length (futures c) \<and> ?K fid = (k1, k2) \<and> (\<forall>e. futures c ! fid \<noteq> Exception e)"
    proof cases
      case 1
      from sys_okD(5)[OF ok 1] fut c(1) show ?thesis by auto
    next
      case 2
      with c(1) show ?thesis by simp
    qed
  qed
  moreover have "0 \<le> cache_size c" using sys_okD(7)[OF ok] c(3) by simp
  ultimately show ?thesis using d(2) unfolding sys_ok_def ctl by blast
qed

lemma lookup_miss:
  assumes "map_of (cache c) key = None" and "0 \<le> cache_size c" and "lookup_future c key = (r, c1)"
  shows "r = Inr (length (futures c), True)" and "futures c1 = futures c @ [Pending]"
    and "policy c1 = policy c" and "cache_size c1 = cache_size c"
    and "set (cache c1) \<subseteq> set (cache c) \<union> {(key, length (futures c))}"
    and "wf_dict (cache c) \<Longrightarrow> wf_dict (cache c1)"
    and "int (length (cache c1)) \<le> max (cache_size c) 0"
proof -
  have k: "key \<notin> set (keys (cache c))" using assms(1) by (simp add: map_of_eq_None_keys)
  define d where "d = cache c @ [(key, length (futures c))]"
  have upd: "AList.update key (length (futures c)) (cache c) = d" using k by (simp add: update_fresh d_def)
  define m where "m = length d - nat (cache_size c)"
  have eq: "r = Inr (length (futures c), True)"
    "c1 = c\<lparr>futures := futures c @ [Pending], cache := drop m d,
           stats := (stats c)\<lparr>cache_misses := cache_misses (stats c) + 1\<rparr>\<rparr>"
    using assms(1,3) by (auto simp: lookup_future_def Let_def upd shrink_eq[OF assms(2)] m_def)
  then show "r = Inr (length (futures c), True)" "futures c1 = futures c @ [Pending]"
    "policy c1 = policy c" "cache_size c1 = cache_size c" by simp_all
  have "set (drop m d) \<subseteq> set d" by (rule set_drop_subset)
  with eq show "set (cache c1) \<subseteq> set (cache c) \<union> {(key, length (futures c))}" by (auto simp: d_def)
  show "wf_dict (cache c1)" if "wf_dict (cache c)"
  proof -
    have "wf_dict d" using that k by (simp add: d_def wf_dict_append)
    then have "wf_dict (take m d @ drop m d)" by simp
    then have "wf_dict (drop m d)" by (simp only: wf_dict_append)
    with eq show ?thesis by simp
  qed
  show "int (length (cache c1)) \<le> max (cache_size c) 0" using eq assms(2) by (simp add: m_def)
qed

lemma lookup_hit:
  assumes "map_of (cache c) key = Some fid" and "lookup_future c key = (r, c1)"
  shows "r = Inr (fid, False)" and "futures c1 = futures c" and "policy c1 = policy c"
    and "cache_size c1 = cache_size c" and "wf_dict (cache c) \<Longrightarrow> set (cache c1) = set (cache c)"
    and "wf_dict (cache c) \<Longrightarrow> wf_dict (cache c1)"
    and "wf_dict (cache c) \<Longrightarrow> length (cache c1) = length (cache c)"
proof -
  have eq: "r = Inr (fid, False)" "c1 = c\<lparr>cache := AList.delete key (cache c) @ [(key, fid)],
      stats := (stats c)\<lparr>cache_hits := cache_hits (stats c) + 1\<rparr>\<rparr>"
    using assms by (simp_all add: lookup_future_def)
  then show "r = Inr (fid, False)" "futures c1 = futures c" "policy c1 = policy c"
    "cache_size c1 = cache_size c" by simp_all
  assume wf: "wf_dict (cache c)"
  have mem: "(key, fid) \<in> set (cache c)" using map_of_SomeD[OF assms(1)] .
  have only: "p = (key, fid)" if p: "p \<in> set (cache c)" "fst p = key" for p
  proof -
    from p have "(key, snd p) \<in> set (cache c)" by (metis prod.collapse)
    then have "map_of (cache c) key = Some (snd p)" using wf_dict_map_of_in[OF wf] by blast
    with assms(1) p(2) show ?thesis by (cases p) simp
  qed
  have "{p \<in> set (cache c). fst p \<noteq> key} \<union> {(key, fid)} = set (cache c)"
    using only mem by blast
  then show "set (cache c1) = set (cache c)" by (simp add: eq(2) set_delete)
  from eq wf show "wf_dict (cache c1)" by (auto simp: wf_dict_append keys_delete)
  have "key \<in> set (keys (cache c))" using map_of_Some_keys[OF assms(1)] .
  with eq wf show "length (cache c1) = length (cache c)"
    using length_delete_wf[OF wf, of key] by simp
qed

lemma enter_change_same:
  "enter_change c req nh m = (app, c1) \<Longrightarrow> futures c1 = futures c \<and> policy c1 = policy c
     \<and> cache_size c1 = cache_size c \<and> cache c1 = cache c \<and> quarantine c1 = quarantine c
     \<and> approved c1 = approved c \<and> app = is_approved c req nh"
  by (auto simp: enter_change_def Let_def)

lemma conclude_same:
  "conclude c req nh v = (app, c1) \<Longrightarrow> futures c1 = futures c \<and> policy c1 = policy c
     \<and> cache_size c1 = cache_size c \<and> cache c1 = cache c \<and> approved c1 = approved c
     \<and> app = is_approved c req nh"
  by (auto simp: conclude_def split: if_splits)

lemma sys_ok_analysed:
  assumes ok: "sys_ok sha diff K s" and i: "pcs s i = Analysed j a hit"
    and adv: "advance diff (ctl s) (pcs s i) = Some (p, c)"
  shows "sys_ok sha diff K (goto i p c s)"
proof -
  have j: "job_ok sha j" "answers sha diff (jb_key j) a"
    using sys_okD(1)[OF ok, of i] i by (simp_all add: pc_ok_def)
  have wf: "wf_dict (cache (ctl s))" by (rule sys_okD(6)[OF ok])
  show ?thesis
  proof (cases "verdict_of (policy (ctl s)) (jb_req j) a")
    case (Inl e)
    with adv i have eq: "p = Finished j (Inl (Raised e))" "c = ctl s" by simp_all
    show ?thesis using eq i j wf by (intro sys_ok_frame[OF ok]) (simp_all add: pc_ok_def)
  next
    case (Inr vr)
    obtain v risk where vr: "vr = (v, risk)" by force
    obtain app c1 where con: "conclude (ctl s) (jb_req j) (jb_new j) v = (app, c1)" by force
    have eq: "p = Finished j (Inr (if app then Resumed else Judged a v risk hit))" "c = c1"
      using adv i Inr vr con by (cases app; simp)+
    show ?thesis
      using eq i j wf Inr vr conclude_same[OF con]
      by (intro sys_ok_frame[OF ok]) (auto simp: pc_ok_def)
  qed
qed

lemma sys_ok_unapproved:
  assumes ok: "sys_ok sha diff K s" and i: "pcs s i = Unapproved j"
    and adv: "advance diff (ctl s) (pcs s i) = Some (p, c)"
  shows "\<exists>K'. sys_ok sha diff K' (goto i p c s)"
proof -
  have j: "job_ok sha j" using sys_okD(1)[OF ok, of i] i by (simp add: pc_ok_def)
  have wf: "wf_dict (cache (ctl s))" and size: "0 \<le> cache_size (ctl s)"
    by (rule sys_okD(6)[OF ok], rule sys_okD(7)[OF ok])
  obtain r c1 where look: "lookup_future (ctl s) (jb_key j) = (r, c1)" by force
  show ?thesis
  proof (cases "map_of (cache (ctl s)) (jb_key j)")
    case None
    note m = lookup_miss[OF None size look]
    have eq: "p = Running j (length (futures (ctl s)))" "c = c1" using adv i look m(1) by simp_all
    from sys_ok_fresh[OF ok i None m(2,3,4,5) m(6)[OF wf]] show ?thesis unfolding eq by blast
  next
    case (Some fid)
    note h = lookup_hit[OF Some look]
    have eq: "p = Waiting j fid" "c = c1" using adv i look h(1) by simp_all
    have "fid < length (futures (ctl s)) \<and> K fid = jb_key j"
      using sys_okD(5)[OF ok map_of_SomeD[OF Some]] by simp
    with j have "pc_ok sha diff K c1 (Waiting j fid)" using h(2) by (simp add: pc_ok_def)
    then have "sys_ok sha diff K (goto i p c s)" unfolding eq
      using h(2-5) h(6)[OF wf] wf i by (intro sys_ok_frame[OF ok]) simp_all
    then show ?thesis by blast
  qed
qed

lemma sys_ok_advance:
  assumes ok: "sys_ok sha diff K s" and adv: "advance diff (ctl s) (pcs s i) = Some (p, c)"
  shows "\<exists>K'. sys_ok sha diff K' (goto i p c s)"
proof (cases "pcs s i")
  case (Hashed j)
  obtain app c1 where e: "enter_change (ctl s) (jb_req j) (jb_new j) (jb_mismatches j \<noteq> []) = (app, c1)"
    by force
  have eq: "p = (if app then Finished j (Inr Resumed) else Unapproved j)" "c = c1"
    using adv Hashed e by (cases app; simp)+
  have "sys_ok sha diff K (goto i p c s)"
    using eq Hashed sys_okD(1)[OF ok, of i] sys_okD(6)[OF ok] enter_change_same[OF e]
    by (intro sys_ok_frame[OF ok]) (auto simp: pc_ok_def)
  then show ?thesis by blast
next
  case (Unapproved j)
  from sys_ok_unapproved[OF ok this adv] show ?thesis .
next
  case (Running j fid)
  have j: "job_ok sha j" "K fid = jb_key j" using sys_okD(1)[OF ok, of i] Running by (simp_all add: pc_ok_def)
  show ?thesis
  proof (cases "analyse diff (cr_tool (jb_req j)) (cr_old_def (jb_req j)) (cr_new_def (jb_req j))")
    case (Inr a)
    with adv Running have eq: "p = Analysed j a False" "c = set_future fid (Result a) (ctl s)" by simp_all
    have ans: "answers sha diff (jb_key j) a" using Inr j(1) by (auto simp: answers_def job_ok_def)
    have "sys_ok sha diff K (goto i p c s)" unfolding eq
      using Running j ans by (intro sys_ok_resolve[OF ok]) (simp_all add: pc_ok_def)
    then show ?thesis by blast
  next
    case (Inl e)
    with adv Running have eq: "p = Failing j fid e" "c = ctl s" by simp_all
    have "sys_ok sha diff K (goto i p c s)" unfolding eq
      using Running sys_okD(1)[OF ok, of i] sys_okD(6)[OF ok]
      by (intro sys_ok_frame[OF ok]) (simp_all add: pc_ok_def)
    then show ?thesis by blast
  qed
next
  case (Failing j fid e)
  with adv have eq: "p = Raising j fid e" "c = forget_key (jb_key j) (ctl s)" by simp_all
  have K: "K fid = jb_key j" using sys_okD(1)[OF ok, of i] Failing by (simp add: pc_ok_def)
  have gone: "fid \<notin> snd ` set (cache c)"
  proof
    assume "fid \<in> snd ` set (cache c)"
    then obtain key where "(key, fid) \<in> set (cache (ctl s))" "key \<noteq> jb_key j"
      by (auto simp: eq forget_key_def set_delete)
    with sys_okD(5)[OF ok this(1)] K show False by simp
  qed
  have "sys_ok sha diff K (goto i p c s)"
    using Failing sys_okD(1)[OF ok, of i] sys_okD(6)[OF ok] gone
    by (intro sys_ok_frame[OF ok]) (auto simp: pc_ok_def eq forget_key_def set_delete)
  then show ?thesis by blast
next
  case (Raising j fid e)
  with adv have eq: "p = Finished j (Inl (Raised e))" "c = set_future fid (Exception e) (ctl s)" by simp_all
  have "sys_ok sha diff K (goto i p c s)" unfolding eq
    using Raising sys_okD(1)[OF ok, of i] by (intro sys_ok_resolve[OF ok]) (auto simp: pc_ok_def)
  then show ?thesis by blast
next
  case (Waiting j fid)
  have j: "job_ok sha j" "K fid = jb_key j" "fid < length (futures (ctl s))"
    using sys_okD(1)[OF ok, of i] Waiting by (simp_all add: pc_ok_def)
  show ?thesis
  proof (cases "futures (ctl s) ! fid")
    case Pending
    with adv Waiting show ?thesis by simp
  next
    case (Result a)
    with adv Waiting have eq: "p = Analysed j a True" "c = ctl s" by simp_all
    have "answers sha diff (jb_key j) a" using sys_okD(4)[OF ok j(3) Result] j(2) by simp
    then have "sys_ok sha diff K (goto i p c s)" unfolding eq
      using Waiting j sys_okD(6)[OF ok] by (intro sys_ok_frame[OF ok]) (simp_all add: pc_ok_def)
    then show ?thesis by blast
  next
    case (Exception e)
    with adv Waiting have eq: "p = Finished j (Inl (Raised e))" "c = ctl s" by simp_all
    have "sys_ok sha diff K (goto i p c s)" unfolding eq
      using Waiting j sys_okD(6)[OF ok] by (intro sys_ok_frame[OF ok]) (simp_all add: pc_ok_def)
    then show ?thesis by blast
  qed
next
  case (Analysed j a hit)
  from sys_ok_analysed[OF ok this adv] show ?thesis by blast
qed (use adv in simp_all)

lemma sys_ok_step:
  assumes "ctl_step sha diff s l t" and ok: "sys_ok sha diff K s"
  shows "\<exists>K'. sys_ok sha diff K' t"
  using assms(1)
proof cases
  case (arrive i req h)
  have "sys_ok sha diff K t" unfolding arrive(2)
    using arrive sys_okD(6)[OF ok] job_ok_of_hashes
    by (intro sys_ok_frame[OF ok]) (auto simp: pc_ok_def)
  then show ?thesis by blast
next
  case (refuse i req e)
  have "sys_ok sha diff K t" unfolding refuse(2)
    using refuse sys_okD(6)[OF ok] by (intro sys_ok_frame[OF ok]) (auto simp: pc_ok_def)
  then show ?thesis by blast
next
  case (run i p c)
  with sys_ok_advance[OF ok] show ?thesis by blast
next
  case (approve key h now who why)
  have "sys_ok sha diff K t"
    using ok unfolding approve(2) sys_ok_def by (simp add: pc_ok_def set_approved_def)
  then show ?thesis by blast
qed

lemma sys_ok_run:
  assumes "ctl_run sha diff s ls t" and "sys_ok sha diff K s"
  shows "\<exists>K'. sys_ok sha diff K' t"
  using assms
proof (induction rule: ctl_run.induct)
  case (snoc s ls t l u)
  then obtain K' where "sys_ok sha diff K' t" by blast
  with snoc(2) show ?case by (rule sys_ok_step)
qed blast

lemma ctl_reachable_ok:
  assumes "ctl_run sha diff (sys_init p n) ls s" and "0 \<le> n"
  obtains K where "sys_ok sha diff K s"
  using sys_ok_run[OF assms(1) sys_ok_init[OF assms(2)]] by blast

end
