(* ===== verification/Canonical_Numbers.thy ===== *)
theory Canonical_Numbers
  imports Canonical
begin

text \<open>
  Numbers in canonical JSON: a reader for the ECMAScript layouts, the proof that it reads back
  the value of every number the encoder writes, and that numbers of equal value are written
  alike (an \<open>int\<close> and the \<open>float\<close> equal to it included).
\<close>

section \<open>Digits\<close>

definition is_digit :: "nat \<Rightarrow> bool" where
  "is_digit c \<longleftrightarrow> 48 \<le> c \<and> c \<le> 57"

definition natval :: "pystr \<Rightarrow> nat" where
  "natval = foldl (\<lambda>a c. 10 * a + (c - 48)) 0"

lemma natval_Nil [simp]: "natval [] = 0"
  by (simp add: natval_def)

lemma natval_snoc [simp]: "natval (s @ [c]) = 10 * natval s + (c - 48)"
  by (simp add: natval_def)

lemma str_nat_unfold:
  "str_nat n = (if n < 10 then [n + 48] else str_nat (n div 10) @ [n mod 10 + 48])"
  unfolding str_nat_def digit_chars_def by (subst nat_digits.simps) simp

lemma str_nat_simps:
  "n < 10 \<Longrightarrow> str_nat n = [n + 48]"
  "\<not> n < 10 \<Longrightarrow> str_nat n = str_nat (n div 10) @ [n mod 10 + 48]"
  using str_nat_unfold by auto

lemma natval_str_nat [simp]: "natval (str_nat n) = n"
proof (induction n rule: less_induct)
  case (less n)
  show ?case
  proof (cases "n < 10")
    case True
    then show ?thesis using natval_snoc[of "[]"] by (simp add: str_nat_simps)
  next
    case False
    then show ?thesis using less[of "n div 10"] by (simp add: str_nat_simps)
  qed
qed

lemma str_nat_digits: "\<forall>c \<in> set (str_nat n). is_digit c"
proof (induction n rule: less_induct)
  case (less n)
  show ?case
  proof (cases "n < 10")
    case True
    then show ?thesis by (simp add: str_nat_simps is_digit_def)
  next
    case False
    then have "n div 10 < n" "n mod 10 < 10" by simp_all
    with less[of "n div 10"] False show ?thesis by (auto simp: str_nat_simps is_digit_def)
  qed
qed

lemma str_nat_not_Nil [simp]: "str_nat n \<noteq> []"
  by (cases "n < 10") (simp_all add: str_nat_simps)

lemma str_nat_inj: "str_nat m = str_nat n \<longleftrightarrow> m = n"
  by (metis natval_str_nat)

lemma str_nat_hd: "0 < n \<Longrightarrow> hd (str_nat n) \<noteq> 48"
proof (induction n rule: less_induct)
  case (less n)
  show ?case
  proof (cases "n < 10")
    case True
    with less.prems show ?thesis by (simp add: str_nat_simps)
  next
    case False
    then have "n div 10 < n" "0 < n div 10" by (simp_all add: div_greater_zero_iff)
    with less.IH[of "n div 10"] False show ?thesis by (simp add: str_nat_simps)
  qed
qed

lemma zeros_simps [simp]: "zeros 0 = []" "length (zeros n) = n"
  by (simp_all add: zeros_def)

lemma zeros_Suc: "zeros (Suc n) = zeros n @ [48]" "zeros (Suc n) = 48 # zeros n"
  by (simp_all add: zeros_def replicate_append_same)

lemma natval_append: "natval (s @ t) = natval s * 10 ^ length t + natval t"
proof (induction t rule: rev_induct)
  case (snoc c t)
  have "natval (s @ t @ [c]) = 10 * natval (s @ t) + (c - 48)"
    by (metis append.assoc natval_snoc)
  with snoc show ?case by simp
qed simp

lemma natval_zeros [simp]: "natval (zeros n) = 0"
  by (induction n) (simp_all add: zeros_Suc(1))

lemma str_nat_times_pow: "0 < n \<Longrightarrow> str_nat (n * 10 ^ m) = str_nat n @ zeros m"
proof (induction m)
  case (Suc m)
  then have "\<not> n * 10 ^ Suc m < 10" by simp
  moreover have "n * 10 ^ Suc m div 10 = n * 10 ^ m" "n * 10 ^ Suc m mod 10 = 0" by simp_all
  ultimately show ?case using Suc by (simp add: str_nat_simps zeros_Suc(1) del: power_Suc)
qed simp

lemma length_str_nat_le: "n < 10 ^ k \<Longrightarrow> 0 < k \<Longrightarrow> length (str_nat n) \<le> k"
proof (induction k arbitrary: n)
  case (Suc k)
  show ?case
  proof (cases "n < 10")
    case False
    have "n div 10 < 10 ^ k" using Suc.prems(1) by (simp add: less_mult_imp_div_less mult.commute)
    moreover have "0 < k" using Suc.prems(1) False by (cases k) simp_all
    ultimately show ?thesis using Suc.IH[of "n div 10"] False by (simp add: str_nat_simps)
  qed (simp add: str_nat_simps)
qed simp

section \<open>A reader for the layouts\<close>

definition read_exponent :: "pystr \<Rightarrow> int" where
  "read_exponent s =
     (if take 2 s = [101, 43] then int (natval (drop 2 s))
      else if take 2 s = [101, 45] then - int (natval (drop 2 s)) else 0)"

definition read_unsigned :: "pystr \<Rightarrow> rat" where
  "read_unsigned s =
     (let ip = takeWhile is_digit s; r = dropWhile is_digit s;
          (fp, x) = (if take 1 r = [46] then (takeWhile is_digit (tl r), dropWhile is_digit (tl r))
                     else ([], r))
      in of_nat (natval (ip @ fp)) * 10 powi (read_exponent x - int (length fp)))"

definition read_number :: "pystr \<Rightarrow> rat" where
  "read_number s = (if take 1 s = [45] then - read_unsigned (tl s) else read_unsigned s)"

lemma read_unsigned_int:
  assumes "\<forall>c \<in> set s. is_digit c"
  shows "read_unsigned s = of_nat (natval s)"
proof -
  have tw: "takeWhile is_digit s = s" and dw: "dropWhile is_digit s = []"
    using assms by (simp_all add: takeWhile_eq_all_conv dropWhile_eq_Nil_conv)
  show ?thesis by (simp add: read_unsigned_def read_exponent_def tw dw)
qed

lemma read_unsigned_parts:
  assumes "\<forall>c \<in> set i. is_digit c" and "\<forall>c \<in> set f. is_digit c"
    and "x = [] \<or> (\<exists>t. x = 101 # t)"
  shows "read_unsigned (i @ 46 # f @ x) =
           of_nat (natval (i @ f)) * 10 powi (read_exponent x - int (length f))"
    and "read_unsigned (i @ x) = of_nat (natval i) * 10 powi read_exponent x"
proof -
  have dot: "\<not> is_digit 46" and e: "\<not> is_digit 101" by (simp_all add: is_digit_def)
  have tw: "takeWhile is_digit (i @ 46 # f @ x) = i" "dropWhile is_digit (i @ 46 # f @ x) = 46 # f @ x"
    using assms(1) dot by (simp_all add: takeWhile_append dropWhile_append)
  have tw': "takeWhile is_digit (f @ x) = f" "dropWhile is_digit (f @ x) = x"
    using assms(2,3) e by (auto simp: takeWhile_append dropWhile_append)
  show "read_unsigned (i @ 46 # f @ x) =
      of_nat (natval (i @ f)) * 10 powi (read_exponent x - int (length f))"
    by (simp add: read_unsigned_def tw tw')
  have tw'': "takeWhile is_digit (i @ x) = i" "dropWhile is_digit (i @ x) = x"
    using assms(1,3) e by (auto simp: takeWhile_append dropWhile_append)
  have "take 1 x \<noteq> [46]" using assms(3) by auto
  then show "read_unsigned (i @ x) = of_nat (natval i) * 10 powi read_exponent x"
    by (simp add: read_unsigned_def tw'')
qed

text \<open>Every layout is read back as \<open>d * 10^e\<close>.\<close>

lemma S_chars:
  "S ''-'' = [45]" "S ''+'' = [43]" "S ''.'' = [46]" "S ''e'' = [101]" "S ''0'' = [48]"
  "S ''0.'' = [48, 46]"
  by (simp_all add: S_def)

lemma read_exponent_text:
  "x \<noteq> 0 \<Longrightarrow> read_exponent (101 # (if 0 < x then [43] else [45]) @ str_nat (nat \<bar>x\<bar>)) = x"
  by (auto simp: read_exponent_def)

lemma digit_lists:
  "\<forall>c \<in> set (zeros n). is_digit c" "\<forall>c \<in> set (take m (str_nat d)). is_digit c"
  "\<forall>c \<in> set (drop m (str_nat d)). is_digit c"
  using str_nat_digits[of d] by (auto simp: zeros_def is_digit_def dest!: in_set_takeD in_set_dropD)

lemma read_encode_decimal:
  assumes "0 < d"
  shows "read_unsigned (encode_decimal d e) = of_nat d * 10 powi e"
proof -
  define ds where "ds = str_nat d"
  define p where "p = e + int (length ds)"
  have len: "0 < length ds" by (simp add: ds_def)
  have dig: "\<forall>c \<in> set ds. is_digit c" "\<forall>c \<in> set (take m ds). is_digit c"
    "\<forall>c \<in> set (drop m ds). is_digit c" for m
    using digit_lists str_nat_digits by (simp_all add: ds_def)
  have val: "natval ds = d" "natval (take m ds @ drop m ds) = d" for m by (simp_all add: ds_def)
  consider (int) "int (length ds) \<le> p" "p \<le> 21"
    | (mixed) "0 < p" "p \<le> 21" "p < int (length ds)"
    | (small) "- 6 < p" "p \<le> 0"
    | (exp) "p \<le> - 6 \<or> 21 < p" by linarith
  then show ?thesis
  proof cases
    case int
    then have "encode_decimal d e = ds @ zeros (nat (p - int (length ds)))"
      by (simp add: encode_decimal_def ds_def p_def Let_def)
    moreover have "\<forall>c \<in> set (ds @ zeros n). is_digit c" for n using dig digit_lists by auto
    ultimately show ?thesis using int
      by (simp add: read_unsigned_int natval_append val p_def power_int_def)
  next
    case mixed
    then have enc: "encode_decimal d e = take (nat p) ds @ 46 # drop (nat p) ds @ []"
      by (simp add: encode_decimal_def ds_def p_def Let_def S_chars)
    have "int (length (drop (nat p) ds)) = - e" using mixed by (simp add: p_def)
    then show ?thesis
      unfolding enc read_unsigned_parts(1)[OF dig(2,3) disjI1[OF refl]] val
      by (simp add: read_exponent_def)
  next
    case small
    moreover have "\<not> 0 \<le> e" using small(2) len unfolding p_def by linarith
    ultimately have enc: "encode_decimal d e = [48] @ 46 # (zeros (nat (- p)) @ ds) @ []"
      by (simp add: encode_decimal_def ds_def p_def Let_def S_chars)
    have z: "\<forall>c \<in> set (zeros (nat (- p)) @ ds). is_digit c" using dig digit_lists by auto
    have o: "\<forall>c \<in> set [48]. is_digit c" by (simp add: is_digit_def)
    have v: "natval ([48] @ zeros n @ ds) = d" for n
    proof -
      have "natval [48] = 0" by (simp add: natval_def)
      then show ?thesis by (simp only: natval_append natval_zeros val)
    qed
    have "int (length (zeros (nat (- p)) @ ds)) = - e" using small by (simp add: p_def)
    then show ?thesis
      unfolding enc read_unsigned_parts(1)[OF o z disjI1[OF refl]] v
      by (simp add: read_exponent_def)
  next
    case exp
    define x where "x = 101 # (if 0 < p - 1 then [43] else [45]) @ str_nat (nat \<bar>p - 1\<bar>)"
    have rx: "read_exponent x = p - 1" using exp unfolding x_def
      by (intro read_exponent_text) auto
    have enc: "encode_decimal d e =
        take 1 ds @ (if 1 < length ds then 46 # drop 1 ds else []) @ x"
      using exp len by (auto simp: encode_decimal_def ds_def p_def Let_def S_chars x_def)
    have xe: "x = [] \<or> (\<exists>t. x = 101 # t)" by (simp add: x_def)
    show ?thesis
    proof (cases "1 < length ds")
      case True
      then have "encode_decimal d e = take 1 ds @ 46 # drop 1 ds @ x" using enc by simp
      moreover have "p - 1 - int (length (drop 1 ds)) = e" using True by (simp add: p_def)
      ultimately show ?thesis by (simp only: read_unsigned_parts(1)[OF dig(2,3) xe] val rx)
    next
      case False
      with len have "length ds = 1" by linarith
      then have "take 1 ds = ds" "p - 1 = e" by (simp_all add: p_def)
      with enc False have "encode_decimal d e = ds @ x" "p - 1 = e" by simp_all
      then show ?thesis by (simp only: read_unsigned_parts(2)[OF dig(1) dig(1) xe] val rx)
    qed
  qed
qed

section \<open>Numbers written alike\<close>

lemma dec_value_0 [simp]: "dec_value s 0 e = 0"
  by (simp add: dec_value_def)

lemma encode_decimal_chars:
  "\<forall>c \<in> set (encode_decimal d e). is_digit c \<or> c = 43 \<or> c = 45 \<or> c = 46 \<or> c = 101"
  using str_nat_digits[of d] str_nat_digits digit_lists
  by (auto simp: encode_decimal_def Let_def S_chars is_digit_def)

lemma encode_decimal_hd: "is_digit (hd (encode_decimal d e))" "encode_decimal d e \<noteq> []"
proof -
  have "hd (str_nat d) \<in> set (str_nat d)" by simp
  then have "is_digit (hd (str_nat d))" using str_nat_digits by blast
  moreover have "hd (take (nat k) (str_nat d)) = hd (str_nat d)" if "0 < k" for k
    using that by (cases "str_nat d"; cases "nat k") auto
  ultimately show "is_digit (hd (encode_decimal d e))" "encode_decimal d e \<noteq> []"
    by (auto simp: encode_decimal_def Let_def S_chars is_digit_def hd_append take_Suc)
qed

lemma read_number_sign:
  assumes "s \<noteq> []" and "is_digit (hd s)"
  shows "read_number ((if neg then S ''-'' else []) @ s)
           = (if neg then - 1 else 1) * read_unsigned s"
  using assms by (cases s) (auto simp: read_number_def S_chars is_digit_def)

lemma str_nat_hd_digit: "is_digit (hd (str_nat n))"
  using str_nat_digits[of n] by (metis hd_in_set str_nat_not_Nil)

lemma read_str_int: "read_number (str_int i) = of_int i"
  unfolding str_int_def
  by (subst read_number_sign) (auto simp: str_nat_hd_digit read_unsigned_int str_nat_digits)

lemma read_encode_number:
  assumes "encode_number a = Inr s"
  shows "dec_number a = Some (read_number s)"
  using assms
proof (cases a rule: encode_number.cases)
  case (2 g d e)
  have "read_number ((if g then S ''-'' else []) @ encode_decimal d e) = dec_value g d e" if "0 < d"
    by (subst read_number_sign)
      (use that encode_decimal_hd in \<open>auto simp: read_encode_decimal dec_value_def\<close>)
  moreover have "read_number (S ''0'') = 0"
    by (simp add: read_number_def S_chars read_unsigned_def read_exponent_def natval_def is_digit_def)
  ultimately show ?thesis using assms 2 by (auto split: if_splits)
qed (auto simp: read_str_int split: if_splits)

text \<open>The decimal of a float is unique.\<close>

lemma pow10_cancel:
  assumes "int m * 10 ^ k = int n" "\<not> 10 dvd n" shows "k = 0"
proof (rule ccontr)
  assume "k \<noteq> 0"
  then have "int n = 10 * (int m * 10 ^ (k - 1))" using assms(1) by (cases k) auto
  then have "(10 :: int) dvd int n" by (rule dvdI)
  with assms(2) show False by presburger
qed

lemma dec_unique_le:
  assumes "\<not> 10 dvd m" "\<not> 10 dvd n" and "e \<le> f"
    and "of_nat m * 10 powi e = (of_nat n * 10 powi f :: rat)"
  shows "m = n \<and> e = f"
proof -
  have "(10 :: rat) powi f = 10 powi e * 10 powi (f - e)" by (simp add: power_int_add[symmetric])
  also have "(10 :: rat) powi (f - e) = 10 ^ nat (f - e)" using assms(3) by (simp add: power_int_def)
  finally have "(of_nat m :: rat) = of_nat n * 10 ^ nat (f - e)" using assms(4) by simp
  then have "(of_int (int m) :: rat) = of_int (int n * 10 ^ nat (f - e))" by simp
  then have eq: "int n * 10 ^ nat (f - e) = int m" by (simp only: of_int_eq_iff)
  then have "nat (f - e) = 0" using pow10_cancel assms(1) by blast
  with eq assms(3) show ?thesis by simp
qed

lemma dec_value_unique:
  assumes "dec_value s m e = dec_value t n f" "\<not> 10 dvd m" "\<not> 10 dvd n"
  shows "s = t \<and> m = n \<and> e = f"
proof -
  have pos: "0 < m" "0 < n" using assms(2,3) by (auto intro: ccontr)
  then have p: "0 < (of_nat m * 10 powi e :: rat)" "0 < (of_nat n * 10 powi f :: rat)" by simp_all
  with assms(1) have "s = t" by (auto simp: dec_value_def split: if_splits)
  with assms(1) have "of_nat m * 10 powi e = (of_nat n * 10 powi f :: rat)"
    by (auto simp: dec_value_def split: if_splits)
  with dec_unique_le[OF assms(2,3)] dec_unique_le[OF assms(3,2)] \<open>s = t\<close> show ?thesis
    by (metis linorder_le_cases)
qed

lemma int_float_text:
  assumes safe: "\<bar>n\<bar> \<le> 2 ^ 53" and d: "\<not> 10 dvd d" and eq: "dec_value g d e = of_int n"
  shows "(if g then S ''-'' else []) @ encode_decimal d e = str_int n"
proof -
  have "0 < d" using d by (auto intro: ccontr)
  then have pos: "0 < (of_nat d * 10 powi e :: rat)" by simp
  have sign: "g \<longleftrightarrow> n < 0" and n0: "n \<noteq> 0"
    using eq pos by (auto simp: dec_value_def split: if_splits)
  have abs: "of_nat d * 10 powi e = (of_int \<bar>n\<bar> :: rat)"
    using eq pos by (auto simp: dec_value_def split: if_splits)
  have "0 \<le> e"
  proof (rule ccontr)
    assume "\<not> 0 \<le> e"
    then have "(of_nat d :: rat) = of_int \<bar>n\<bar> * 10 ^ nat (- e)"
      using abs by (simp add: power_int_def field_simps)
    then have "(of_int (int d) :: rat) = of_int (int (nat \<bar>n\<bar>) * 10 ^ nat (- e))" by simp
    then have "int (nat \<bar>n\<bar>) * 10 ^ nat (- e) = int d" by (simp only: of_int_eq_iff)
    with d have "nat (- e) = 0" by (rule pow10_cancel[rotated])
    with \<open>\<not> 0 \<le> e\<close> show False by simp
  qed
  then have "(of_int (int (d * 10 ^ nat e)) :: rat) = of_int \<bar>n\<bar>"
    using abs by (simp add: power_int_def)
  then have "int (d * 10 ^ nat e) = \<bar>n\<bar>" by (simp only: of_int_eq_iff)
  then have nat: "nat \<bar>n\<bar> = d * 10 ^ nat e" by (metis nat_int)
  have digs: "str_nat (nat \<bar>n\<bar>) = str_nat d @ zeros (nat e)"
    unfolding nat by (rule str_nat_times_pow[OF \<open>0 < d\<close>])
  have "nat \<bar>n\<bar> < 10 ^ 16" using safe by simp
  then have "length (str_nat (nat \<bar>n\<bar>)) \<le> 16" by (intro length_str_nat_le) simp_all
  then have "length (str_nat d) + nat e \<le> 16" unfolding digs by simp
  with \<open>0 \<le> e\<close> have "encode_decimal d e = str_nat d @ zeros (nat e)"
    by (auto simp: encode_decimal_def Let_def)
  with digs sign show ?thesis by (simp add: str_int_def)
qed

lemma str_int_0: "str_int 0 = S ''0''"
  by (simp add: str_int_def str_nat_simps S_chars)

lemma encode_number_int_float:
  assumes "encode_number (JInt n) = Inr s" and "encode_number (JFloat x) = Inr t"
    and "dec_number (JInt n) = dec_number (JFloat x)" and "wf_float x"
  shows "s = t"
proof (cases x)
  case (Dec g d e)
  show ?thesis
  proof (cases "d = 0")
    case True
    with assms Dec show ?thesis by (simp add: str_int_0 split: if_splits)
  next
    case False
    then have "t = (if g then S ''-'' else []) @ encode_decimal d e" using assms(2) Dec by simp
    moreover have "s = str_int n" "\<bar>n\<bar> \<le> 2 ^ 53" using assms(1) by (auto split: if_splits)
    ultimately show ?thesis
      using int_float_text[of n d g e] assms(3,4) Dec False by simp
  qed
qed (use assms in auto)

lemma encode_number_float_float:
  assumes "encode_number (JFloat x) = Inr s" and "encode_number (JFloat y) = Inr t"
    and "dec_number (JFloat x) = dec_number (JFloat y)" and "wf_float x" and "wf_float y"
  shows "s = t"
proof (cases x)
  case (Dec g d e)
  show ?thesis
  proof (cases y)
    case (Dec h m f)
    have eq: "dec_value g d e = dec_value h m f" using assms(3) Dec \<open>x = _\<close> by simp
    have "d = 0 \<longleftrightarrow> m = 0" using eq by (auto simp: dec_value_def split: if_splits)
    with eq assms Dec \<open>x = _\<close> show ?thesis
      by (cases "d = 0") (auto dest: dec_value_unique)
  qed (use assms in auto)
qed (use assms in auto)

lemma encode_number_equal:
  assumes "encode_number a = Inr s" and "encode_number b = Inr t"
    and "dec_number a = dec_number b" and "wf_json a" and "wf_json b"
  shows "s = t"
proof (cases a)
  case (JInt n)
  then show ?thesis
  proof (cases b)
    case (JInt m)
    with assms(1-3) \<open>a = _\<close> show ?thesis by (simp split: if_splits)
  next
    case (JFloat x)
    with assms \<open>a = _\<close> show ?thesis using encode_number_int_float[of n s x t] by simp
  qed (use assms in auto)
next
  case (JFloat x)
  then show ?thesis
  proof (cases b)
    case (JInt n)
    then show ?thesis using encode_number_int_float[of n t x s] assms JFloat by simp
  next
    case (JFloat y)
    then show ?thesis using encode_number_float_float[of x s y t] assms \<open>a = _\<close> by simp
  qed (use assms in auto)
qed (use assms in auto)

end
