(* ===== verification/Canonical_Facts.thy ===== *)
theory Canonical_Facts
  imports Canonical_Numbers
begin

text \<open>
  What canonical JSON guarantees: two values have the same text exactly when they are the same
  JSON value (\<^const>\<open>same_value\<close>), so the hash of a tool changes with its normalised definition
  and with nothing else.
\<close>

section \<open>The encodings of characters\<close>

definition scalar :: "nat \<Rightarrow> bool" where
  "scalar c \<longleftrightarrow> c < 0x110000 \<and> \<not> is_surrogate c"

lemma div_mod_eq: "(a :: nat) div n = b div n \<Longrightarrow> a mod n = b mod n \<Longrightarrow> a = b"
  by (metis div_mult_mod_eq)

lemma utf16_char_prefix:
  assumes "scalar a" "scalar b" "utf16_char a @ x = utf16_char b @ y"
  shows "a = b \<and> x = y"
proof -
  have mixed: False
    if "scalar u" "u < 0x10000" "scalar v" "\<not> v < 0x10000" "utf16_char u @ r = utf16_char v @ r'"
    for u v r r'
  proof -
    define h where "h = 0xD800 + (v - 0x10000) div 1024"
    have "v - 0x10000 < 1024 * 1024" using that by (auto simp: scalar_def)
    then have "h < 0xDC00" using less_mult_imp_div_less by (fastforce simp: h_def)
    moreover have "u div 256 = h div 256"
      using that by (simp add: utf16_char_def Let_def h_def)
    moreover have "0xD800 div 256 \<le> h div 256" by (rule div_le_mono) (simp add: h_def)
    moreover have "h div 256 < 220" using \<open>h < 0xDC00\<close> by (intro less_mult_imp_div_less) simp
    moreover have "u = 256 * (u div 256) + u mod 256" "u mod 256 < 256" by simp_all
    ultimately have "0xD800 \<le> u \<and> u \<le> 0xDFFF" by simp
    then have "is_surrogate u" by (simp add: is_surrogate_def)
    with that show False by (simp add: scalar_def)
  qed
  show ?thesis
  proof (cases "a < 0x10000"; cases "b < 0x10000")
    assume "a < 0x10000" "b < 0x10000"
    with assms(3) have "a div 256 = b div 256" "a mod 256 = b mod 256" "x = y"
      by (simp_all add: utf16_char_def)
    then show ?thesis using div_mod_eq by blast
  next
    assume big: "\<not> a < 0x10000" "\<not> b < 0x10000"
    define ha la hb lb where "ha = 0xD800 + (a - 0x10000) div 1024" and "la = 0xDC00 + (a - 0x10000) mod 1024"
      and "hb = 0xD800 + (b - 0x10000) div 1024" and "lb = 0xDC00 + (b - 0x10000) mod 1024"
    have "utf16_char a = [ha div 256, ha mod 256, la div 256, la mod 256]"
        "utf16_char b = [hb div 256, hb mod 256, lb div 256, lb mod 256]"
      unfolding utf16_char_def Let_def ha_def la_def hb_def lb_def using big by (simp_all only: if_False)
    with assms(3) have eqs: "ha div 256 = hb div 256" "ha mod 256 = hb mod 256"
        "la div 256 = lb div 256" "la mod 256 = lb mod 256" "x = y"
      by simp_all
    have "ha = hb" "la = lb" using eqs div_mod_eq by blast+
    then have "(a - 0x10000) div 1024 = (b - 0x10000) div 1024"
        "(a - 0x10000) mod 1024 = (b - 0x10000) mod 1024"
      unfolding ha_def hb_def la_def lb_def by (simp_all only: add_left_cancel)
    then have "a - 0x10000 = b - 0x10000" by (rule div_mod_eq)
    with big eqs(5) show ?thesis by simp
  next
    assume "a < 0x10000" "\<not> b < 0x10000"
    with mixed[OF assms(1) _ assms(2)] assms(3) show ?thesis by blast
  next
    assume "\<not> a < 0x10000" "b < 0x10000"
    with mixed[OF assms(2) _ assms(1)] assms(3)[symmetric] show ?thesis by blast
  qed
qed

lemma utf16_inj:
  assumes "list_all scalar s" "list_all scalar t"
    and "concat (map utf16_char s) = concat (map utf16_char t)"
  shows "s = t"
  by (rule prefix_code_inj[where P = scalar and f = utf16_char, OF _ _ assms])
    (use utf16_char_prefix in blast, simp add: utf16_char_def Let_def)

lemma utf8_char_prefix:
  assumes "a < 0x110000" "b < 0x110000" "utf8_char a @ x = utf8_char b @ y"
  shows "a = b \<and> x = y"
proof -
  have bound: "a div 262144 < 8" "b div 262144 < 8" using assms by simp_all
  have two: "c div 64 < 32" if "c < 0x800" for c :: nat using that by simp
  have three: "c div 4096 < 16" if "c < 0x10000" for c :: nat using that by simp
  have d64: "c div 4096 = c div 64 div 64" "c div 262144 = c div 64 div 64 div 64" for c :: nat
    by (simp_all add: div_mult2_eq[symmetric])
  have eq2: "u = v" if "u div 64 = v div 64" "u mod 64 = v mod 64" for u v :: nat
    using that by (rule div_mod_eq)
  have eq3: "u = v" if "u div 4096 = v div 4096" "u div 64 mod 64 = v div 64 mod 64"
    "u mod 64 = v mod 64" for u v :: nat
    using that eq2 d64(1) by metis
  have eq4: "u = v" if "u div 262144 = v div 262144" "u div 4096 mod 64 = v div 4096 mod 64"
    "u div 64 mod 64 = v div 64 mod 64" "u mod 64 = v mod 64" for u v :: nat
    using that eq2 eq3 d64 by metis
  show ?thesis
    using assms(3) bound two[of a] two[of b] three[of a] three[of b]
    by (auto simp: utf8_char_def split: if_splits intro: eq2 eq3 eq4)
qed

lemma utf8_inj:
  assumes "wf_str s" "wf_str t" "utf8 s = utf8 t"
  shows "s = t"
proof (rule prefix_code_inj)
  show "a = b \<and> x = y"
    if "a < 0x110000" "b < 0x110000" "utf8_char a @ x = utf8_char b @ y" for a b x y
    using that by (rule utf8_char_prefix)
  show "utf8_char a \<noteq> []" for a by (simp add: utf8_char_def)
qed (use assms in \<open>simp_all add: wf_str_def utf8_def\<close>)

section \<open>Strings\<close>

text \<open>The text of a character that can be encoded.\<close>

definition esc :: "nat \<Rightarrow> pystr" where
  "esc c = (case map_of escapes c of Some l \<Rightarrow> [92, l]
            | None \<Rightarrow> if c < 0x20 then [92, 117] @ hex_pad 4 c else [c])"

lemma encode_string_eq:
  "encode_string s =
     (if list_ex is_surrogate s then Inl ValueError else Inr (34 # concat (map esc s) @ [34]))"
proof -
  have plain: "map_of escapes c = None \<and> \<not> c < 0x20" if "is_surrogate c" for c
    using that by (auto simp: escapes_def is_surrogate_def)
  have ch: "encode_char c = (if is_surrogate c then Inl ValueError else Inr (esc c))" for c
    using plain[of c] by (auto simp: encode_char_def esc_def split: option.splits)
  have "mapE encode_char s = (if list_ex is_surrogate s then Inl ValueError else Inr (map esc s))"
    by (induction s) (simp_all add: ch)
  then show ?thesis by (simp add: encode_string_def S_def)
qed

lemma hex_digit_inj: "a < 16 \<Longrightarrow> b < 16 \<Longrightarrow> hex_digit a = hex_digit b \<longleftrightarrow> a = b"
  by (auto simp: hex_digit_def split: if_splits)

lemma esc_cases:
  obtains (short) l where "esc c = [92, l]" "map_of escapes c = Some l" "l \<noteq> 117"
  | (hex) "esc c = [92, 117] @ hex_pad 4 c" "c < 32"
  | (raw) "esc c = [c]" "c \<noteq> 92" "c \<noteq> 34"
proof (cases "map_of escapes c")
  case (Some l)
  then have "l \<noteq> 117" by (auto simp: escapes_def split: if_splits)
  with Some short show ?thesis by (simp add: esc_def)
next
  case None
  then have "c \<noteq> 92" "c \<noteq> 34" by (auto simp: escapes_def split: if_splits)
  with None hex raw show ?thesis by (cases "c < 32") (simp_all add: esc_def)
qed

lemma escapes_inj: "map_of escapes a = Some l \<Longrightarrow> map_of escapes b = Some l \<Longrightarrow> a = b"
  by (simp add: escapes_def split: if_splits)

lemma hex_pad_4_inj:
  assumes "a < 32" "b < 32" "hex_pad 4 a @ x = hex_pad 4 b @ y"
  shows "a = b \<and> x = y"
proof -
  have "hex_pad 4 c = [hex_digit (c div 16 div 16 div 16 mod 16), hex_digit (c div 16 div 16 mod 16),
      hex_digit (c div 16 mod 16), hex_digit (c mod 16)]" for c
  proof -
    have four: "4 = Suc (Suc (Suc (Suc 0)))" by simp
    show ?thesis unfolding four hex_pad.simps by simp
  qed
  with assms(3) have "a div 16 mod 16 = b div 16 mod 16" "a mod 16 = b mod 16" "x = y"
    by (simp_all add: hex_digit_inj)
  with assms(1,2) show ?thesis by (auto intro: div_mod_eq[of _ 16])
qed

lemma esc_prefix:
  assumes "esc a @ x = esc b @ y"
  shows "a = b \<and> x = y"
proof (cases a rule: esc_cases)
  case a: (short l)
  show ?thesis
  proof (cases b rule: esc_cases)
    case (short m)
    with a assms have "l = m" "x = y" by simp_all
    with a short escapes_inj show ?thesis by simp
  qed (use a assms in auto)
next
  case a: hex
  show ?thesis
  proof (cases b rule: esc_cases)
    case hex
    with a assms hex_pad_4_inj[of a b x y] show ?thesis by simp
  qed (use a assms in auto)
next
  case a: raw
  show ?thesis by (cases b rule: esc_cases) (use a assms in auto)
qed

lemma esc_no_quote: "esc a @ x \<noteq> 34 # y"
  by (cases a rule: esc_cases) auto

lemma encode_string_prefix:
  assumes "encode_string s = Inr u" "encode_string t = Inr v" "u @ x = v @ y"
  shows "s = t \<and> x = y"
proof -
  have "u = 34 # concat (map esc s) @ [34]" "v = 34 # concat (map esc t) @ [34]"
    using assms(1,2) by (auto simp: encode_string_eq split: if_splits)
  with assms(3) have "concat (map esc s) @ 34 # x = concat (map esc t) @ 34 # y" by simp
  with prefix_code_until[where P = "\<lambda>_. True" and f = esc and q = 34 and s = s and t = t and x = x and y = y, OF esc_prefix esc_no_quote]
  show ?thesis by (simp add: list_all_iff)
qed

section \<open>What the text of a value starts with and is followed by\<close>

definition tail_ok :: "pystr \<Rightarrow> bool" where
  "tail_ok r \<longleftrightarrow> r = [] \<or> hd r \<in> {44, 93, 125}"

fun kind :: "json \<Rightarrow> nat" where
  "kind JNull = 0" | "kind (JBool b) = 1" | "kind (JInt n) = 2" | "kind (JFloat x) = 2"
| "kind (JStr s) = 3" | "kind (JList xs) = 4" | "kind (JDict d) = 5"

definition char_kind :: "nat \<Rightarrow> nat" where
  "char_kind c = (if c = 110 then 0 else if c = 116 \<or> c = 102 then 1 else if c = 34 then 3
     else if c = 91 then 4 else if c = 123 then 5 else if is_digit c \<or> c = 45 then 2 else 6)"

lemma digit_kind: "is_digit c \<Longrightarrow> char_kind c = 2 \<and> c \<notin> {44, 93, 125}"
  by (auto simp: char_kind_def is_digit_def)

definition number_text :: "pystr \<Rightarrow> bool" where
  "number_text s \<longleftrightarrow> s \<noteq> [] \<and> char_kind (hd s) = 2 \<and> (\<forall>c \<in> set s. c \<notin> {44, 93, 125})"

lemma number_text_sign:
  assumes "u \<noteq> []" "is_digit (hd u)" "\<forall>c \<in> set u. c \<notin> {44, 93, 125}"
  shows "number_text ((if g then S ''-'' else []) @ u)"
proof -
  have "char_kind 45 = 2" by (simp add: char_kind_def is_digit_def)
  then show ?thesis
    using assms digit_kind[OF assms(2)] by (cases g) (simp_all add: S_chars number_text_def)
qed

lemma encode_number_chars:
  assumes "encode_number a = Inr s"
  shows "number_text s"
proof (cases a rule: encode_number.cases)
  case (1 n)
  have "\<forall>c \<in> set (str_nat (nat \<bar>n\<bar>)). c \<notin> {44, 93, 125}"
    using str_nat_digits digit_kind by blast
  then have "number_text (str_int n)"
    unfolding str_int_def by (intro number_text_sign) (simp_all add: str_nat_hd_digit)
  with assms 1 show ?thesis by (simp split: if_splits)
next
  case (2 g d e)
  have "\<forall>c \<in> set (encode_decimal d e). c \<notin> {44, 93, 125}"
    using encode_decimal_chars[of d e] digit_kind by fastforce
  then have "number_text ((if g then S ''-'' else []) @ encode_decimal d e)"
    by (intro number_text_sign) (simp_all add: encode_decimal_hd)
  moreover have "number_text (S ''0'')"
    by (simp add: S_chars number_text_def char_kind_def is_digit_def)
  moreover have "s = (if d = 0 then S ''0'' else (if g then S ''-'' else []) @ encode_decimal d e)"
    using assms 2 by simp
  ultimately show ?thesis by (cases "d = 0") simp_all
qed (use assms in simp_all)

lemma char_kind_simps:
  "char_kind 110 = 0" "char_kind 116 = 1" "char_kind 102 = 1" "char_kind 34 = 3"
  "char_kind 91 = 4" "char_kind 123 = 5"
  by (simp_all add: char_kind_def)

lemma canonical_kind:
  assumes "canonical_json a = Inr s"
  shows "s \<noteq> [] \<and> char_kind (hd s) = kind a"
proof (cases a)
  case (JInt n)
  with assms encode_number_chars[of a s] show ?thesis by (simp add: number_text_def)
next
  case (JFloat x)
  with assms encode_number_chars[of a s] show ?thesis by (simp add: number_text_def)
next
  case (JStr t)
  with assms have "s = 34 # concat (map esc t) @ [34]" by (simp add: encode_string_eq split: if_splits)
  with JStr show ?thesis by (simp add: char_kind_simps)
next
  case (JBool b)
  with assms show ?thesis by (cases b) (auto simp: S_def char_kind_simps)
next
  case JNull
  with assms show ?thesis by (auto simp: S_def char_kind_simps)
next
  case (JList xs)
  with assms obtain t where "s = S ''['' @ t" by (auto simp: bindE_eq_Inr)
  with JList show ?thesis by (simp add: S_def char_kind_simps)
next
  case (JDict d)
  with assms obtain t where "s = S ''{'' @ t" by (auto simp: bindE_eq_Inr split: if_splits)
  with JDict show ?thesis by (simp add: S_def char_kind_simps)
qed

end
