(* ===== verification/Canonical_Values.thy ===== *)
theory Canonical_Values
  imports Canonical_Facts
begin

text \<open>
  The text of a value determines the value, and the value determines the text: the proofs, by
  structural induction, and the properties of canonical JSON and of the hashes.
\<close>

section \<open>The text determines the value\<close>

lemma join_Cons: "join sep (s # ss) = s @ (if ss = [] then [] else sep @ join sep ss)"
  by (cases ss) simp_all

lemma join_unique:
  assumes parse: "\<And>a b u v x y. a \<in> set xs \<Longrightarrow> b \<in> set ys \<Longrightarrow> f a = Inr u \<Longrightarrow> f b = Inr v \<Longrightarrow>
      u @ x = v @ y \<Longrightarrow> tail_ok x \<Longrightarrow> tail_ok y \<Longrightarrow> Q a b \<and> x = y"
    and start: "\<And>a u. a \<in> set xs \<union> set ys \<Longrightarrow> f a = Inr u \<Longrightarrow> u \<noteq> [] \<and> hd u \<noteq> q"
    and q: "q = 93 \<or> q = 125"
    and "mapE f xs = Inr us" and "mapE f ys = Inr vs"
    and "join [44] us @ q # x = join [44] vs @ q # y"
  shows "list_all2 Q xs ys \<and> x = y"
  using assms(4-6) parse start
proof (induction xs arbitrary: ys us vs)
  case Nil
  then have us: "us = []" by simp
  show ?case
  proof (cases ys)
    case ys: Nil
    with us Nil.prems show ?thesis by simp
  next
    case (Cons b ys')
    with Nil.prems(2) obtain v vs' where v: "f b = Inr v" "vs = v # vs'" by (auto simp: bindE_eq_Inr)
    with Nil.prems(5)[of b v] Cons have "v \<noteq> []" "hd v \<noteq> q" by auto
    with Nil.prems(3) us v show ?thesis by (cases v) (auto simp: join_Cons)
  qed
next
  case (Cons a xs)
  from Cons.prems(1) obtain u us' where u: "f a = Inr u" "us = u # us'" "mapE f xs = Inr us'"
    by (auto simp: bindE_eq_Inr)
  show ?case
  proof (cases ys)
    case Nil
    with Cons.prems(5)[of a u] u have "u \<noteq> []" "hd u \<noteq> q" by auto
    with Cons.prems(2,3) u Nil show ?thesis by (cases u) (auto simp: join_Cons)
  next
    case ys: (Cons b ys')
    from Cons.prems(2) ys obtain v vs' where v: "f b = Inr v" "vs = v # vs'" "mapE f ys' = Inr vs'"
      by (auto simp: bindE_eq_Inr)
    let ?X = "(if us' = [] then [] else [44] @ join [44] us') @ q # x"
    let ?Y = "(if vs' = [] then [] else [44] @ join [44] vs') @ q # y"
    have "u @ ?X = v @ ?Y" using Cons.prems(3) u v by (simp add: join_Cons)
    moreover have "tail_ok ?X" "tail_ok ?Y" using q by (auto simp: tail_ok_def)
    ultimately have ab: "Q a b" "?X = ?Y"
      using Cons.prems(4)[of a b u v ?X ?Y] u(1) v(1) ys by auto
    have "us' = [] \<longleftrightarrow> vs' = []" using ab(2) q by (auto split: if_splits)
    then have "join [44] us' @ q # x = join [44] vs' @ q # y"
      using ab(2) by (auto split: if_splits)
    with Cons.IH[OF u(3) v(3)] Cons.prems(4,5) ys have "list_all2 Q xs ys' \<and> x = y"
      by (metis UnCI list.set_intros(2) Un_iff)
    with ab(1) ys show ?thesis by simp
  qed
qed

text \<open>One entry of an object: the key, a colon, the value.\<close>

definition entry_text :: "pystr \<times> json \<Rightarrow> pyexc + pystr" where
  "entry_text kv = bindE (encode_string (fst kv)) (\<lambda>ks.
     bindE (canonical_json (snd kv)) (\<lambda>vs. Inr (ks @ S '':'' @ vs)))"

lemma canonical_JDict:
  "canonical_json (JDict d) =
     (if \<not> keys_encodable d then Inl ValueError
      else bindE (mapE entry_text (sorted_items d)) (\<lambda>ss. Inr (S ''{'' @ join (S '','') ss @ S ''}'')))"
  by (simp add: entry_text_def[abs_def] case_prod_unfold)

definition reads_back :: "json \<Rightarrow> bool" where
  "reads_back a \<longleftrightarrow> (\<forall>b s t x y. canonical_json a = Inr s \<longrightarrow> canonical_json b = Inr t \<longrightarrow>
     s @ x = t @ y \<longrightarrow> tail_ok x \<longrightarrow> tail_ok y \<longrightarrow> wf_json a \<longrightarrow> wf_json b \<longrightarrow>
     same_value a b \<and> x = y)"

lemma reads_backD:
  "reads_back a \<Longrightarrow> canonical_json a = Inr s \<Longrightarrow> canonical_json b = Inr t \<Longrightarrow> s @ x = t @ y \<Longrightarrow>
   tail_ok x \<Longrightarrow> tail_ok y \<Longrightarrow> wf_json a \<Longrightarrow> wf_json b \<Longrightarrow> same_value a b \<and> x = y"
  unfolding reads_back_def by blast

lemma closing_kind: "char_kind 93 \<noteq> kind a" "char_kind 125 \<noteq> kind a"
  by (cases a; simp add: char_kind_def is_digit_def)+

lemma same_kind:
  assumes "canonical_json a = Inr s" "canonical_json b = Inr t" "s @ x = t @ y"
  shows "kind a = kind b"
  using canonical_kind[OF assms(1)] canonical_kind[OF assms(2)] assms(3)
  by (metis hd_append2)

lemma number_prefix:
  assumes "number_text s" "number_text t" "s @ x = t @ y" "tail_ok x" "tail_ok y"
  shows "s = t \<and> x = y"
proof -
  let ?P = "\<lambda>c. c \<notin> {44, 93, 125 :: nat}"
  have "takeWhile ?P (s @ x) = s" "takeWhile ?P (t @ y) = t"
    using assms(1,2,4,5)
    by (cases x; cases y; auto simp: number_text_def tail_ok_def takeWhile_append takeWhile_eq_all_conv)+
  with assms(3) show ?thesis by auto
qed

lemma same_value_number:
  "kind a = 2 \<Longrightarrow> same_value a b \<longleftrightarrow> dec_number a \<noteq> None \<and> dec_number a = dec_number b"
  by (cases a) auto

lemma reads_back_number:
  assumes "kind a = 2"
  shows "reads_back a"
  unfolding reads_back_def
proof (intro allI impI)
  fix b s t x y
  assume a: "canonical_json a = Inr s" and b: "canonical_json b = Inr t" and eq: "s @ x = t @ y"
    and tails: "tail_ok x" "tail_ok y"
  have "kind b = 2" using same_kind[OF a b eq] assms by simp
  then have enc: "encode_number a = Inr s" "encode_number b = Inr t"
    using a b assms by (cases a; cases b; simp)+
  then have "s = t \<and> x = y" using number_prefix encode_number_chars eq tails by blast
  moreover have "dec_number a = Some (read_number s)" "dec_number b = Some (read_number t)"
    using enc by (simp_all add: read_encode_number)
  ultimately show "same_value a b \<and> x = y" by (simp add: same_value_number[OF assms])
qed

lemma reads_back_list:
  assumes "\<And>a. a \<in> set xs \<Longrightarrow> reads_back a"
  shows "reads_back (JList xs)"
  unfolding reads_back_def
proof (intro allI impI)
  fix b s t x y
  assume a: "canonical_json (JList xs) = Inr s" and b: "canonical_json b = Inr t"
    and eq: "s @ x = t @ y" and tails: "tail_ok x" "tail_ok y"
    and wf: "wf_json (JList xs)" "wf_json b"
  from same_kind[OF a b eq] obtain ys where ys: "b = JList ys" by (cases b) auto
  from a obtain us where us: "mapE canonical_json xs = Inr us" "s = S ''['' @ join (S '','') us @ S '']''"
    by (auto simp: bindE_eq_Inr)
  from b ys obtain vs where vs: "mapE canonical_json ys = Inr vs" "t = S ''['' @ join (S '','') vs @ S '']''"
    by (auto simp: bindE_eq_Inr)
  have "join [44] us @ 93 # x = join [44] vs @ 93 # y" using eq us vs by (simp add: S_def)
  from join_unique[where f = canonical_json and Q = same_value and q = 93, OF _ _ _ us(1) vs(1) this]
  have "list_all2 same_value xs ys \<and> x = y"
  proof
    show "same_value a b \<and> x = y"
      if "a \<in> set xs" "b \<in> set ys" "canonical_json a = Inr u" "canonical_json b = Inr v"
        "u @ x = v @ y" "tail_ok x" "tail_ok y" for a b u v x y
    proof -
      have "wf_json a" "wf_json b" using wf ys that(1,2) by (simp_all add: list_all_iff)
      with reads_backD[OF assms[OF that(1)] that(3-7)] show ?thesis by blast
    qed
    show "u \<noteq> [] \<and> hd u \<noteq> 93" if "canonical_json a = Inr u" for a u
      using canonical_kind[OF that] closing_kind[of a] by auto
  qed simp_all
  then show "same_value (JList xs) b \<and> x = y"
    by (auto simp: ys list_all2_iff list_all_iff)
qed

lemma reads_back_dict:
  assumes "\<And>k v. (k, v) \<in> set d \<Longrightarrow> reads_back v"
  shows "reads_back (JDict d)"
  unfolding reads_back_def
proof (intro allI impI)
  fix b s t x y
  assume a: "canonical_json (JDict d) = Inr s" and b: "canonical_json b = Inr t"
    and eq: "s @ x = t @ y" and tails: "tail_ok x" "tail_ok y"
    and wf: "wf_json (JDict d)" "wf_json b"
  from same_kind[OF a b eq] obtain e where e: "b = JDict e" by (cases b) auto
  from a[unfolded canonical_JDict] obtain us where us: "mapE entry_text (sorted_items d) = Inr us"
      "s = S ''{'' @ join (S '','') us @ S ''}''"
    by (auto simp: bindE_eq_Inr split: if_splits)
  from b[unfolded e canonical_JDict] obtain vs where vs: "mapE entry_text (sorted_items e) = Inr vs"
      "t = S ''{'' @ join (S '','') vs @ S ''}''"
    by (auto simp: bindE_eq_Inr split: if_splits)
  let ?Q = "\<lambda>p q. fst p = fst q \<and> same_value (snd p) (snd q)"
  have "join [44] us @ 125 # x = join [44] vs @ 125 # y" using eq us vs by (simp add: S_def)
  from join_unique[where f = entry_text and Q = ?Q and q = 125, OF _ _ _ us(1) vs(1) this]
  have all: "list_all2 ?Q (sorted_items d) (sorted_items e) \<and> x = y"
  proof
    fix p q u v r r'
    assume p: "p \<in> set (sorted_items d)" and q: "q \<in> set (sorted_items e)"
      and u: "entry_text p = Inr u" and v: "entry_text q = Inr v"
      and uv: "u @ r = v @ r'" "tail_ok r" "tail_ok r'"
    from u obtain ku wu where ku: "encode_string (fst p) = Inr ku" "canonical_json (snd p) = Inr wu"
        "u = ku @ S '':'' @ wu" by (auto simp: entry_text_def bindE_eq_Inr)
    from v obtain kv wv where kv: "encode_string (fst q) = Inr kv" "canonical_json (snd q) = Inr wv"
        "v = kv @ S '':'' @ wv" by (auto simp: entry_text_def bindE_eq_Inr)
    have "ku @ (S '':'' @ wu @ r) = kv @ (S '':'' @ wv @ r')" using uv(1) ku(3) kv(3) by simp
    from encode_string_prefix[OF ku(1) kv(1) this] have "fst p = fst q" "wu @ r = wv @ r'" by simp_all
    moreover have "reads_back (snd p)" using assms[of "fst p" "snd p"] p by simp
    moreover have "wf_json (snd p)" "wf_json (snd q)"
      using wf p q e by (auto simp: list_all_iff)
    ultimately show "?Q p q \<and> r = r'" using reads_backD[of "snd p" wu "snd q" wv r r'] ku(2) kv(2) uv(2,3)
      by blast
  next
    show "u \<noteq> [] \<and> hd u \<noteq> 125" if "entry_text p = Inr u" for p u
      using that by (auto simp: entry_text_def bindE_eq_Inr encode_string_eq split: if_splits)
  qed simp_all
  have len: "length d = length e"
    using list_all2_lengthD[OF conjunct1[OF all]] by (simp add: sorted_items_def)
  have "\<exists>w. map_of e k = Some w \<and> same_value v w" if "(k, v) \<in> set d" for k v
  proof -
    from that have "(k, v) \<in> set (sorted_items d)" by simp
    then obtain i where i: "i < length (sorted_items d)" "sorted_items d ! i = (k, v)"
      unfolding in_set_conv_nth by blast
    define q where "q = sorted_items e ! i"
    have "?Q (k, v) q" using list_all2_nthD[OF conjunct1[OF all] i(1)] i(2) by (simp add: q_def)
    moreover have "q \<in> set (sorted_items e)"
      using i(1) list_all2_lengthD[OF conjunct1[OF all]] unfolding q_def by (intro nth_mem) simp
    ultimately have "(k, snd q) \<in> set e" "same_value v (snd q)" by (cases q; simp)+
    with wf e show ?thesis by (auto simp: wf_dict_map_of_in)
  qed
  then show "same_value (JDict d) b \<and> x = y"
    using len all by (fastforce simp: e list_all_iff)
qed

lemma text_reads_back: "reads_back a"
proof (induction a)
  case JNull
  show ?case unfolding reads_back_def
  proof (intro allI impI)
    fix b s t x y
    assume a: "canonical_json JNull = Inr s" and b: "canonical_json b = Inr t" and eq: "s @ x = t @ y"
    from same_kind[OF a b eq] have "b = JNull" by (cases b) auto
    with a b eq show "same_value JNull b \<and> x = y" by simp
  qed
next
  case (JBool p)
  show ?case unfolding reads_back_def
  proof (intro allI impI)
    fix b s t x y
    assume a: "canonical_json (JBool p) = Inr s" and b: "canonical_json b = Inr t" and eq: "s @ x = t @ y"
    from same_kind[OF a b eq] obtain q where "b = JBool q" by (cases b) auto
    with a b eq show "same_value (JBool p) b \<and> x = y" by (cases p; cases q) (auto simp: S_def)
  qed
next
  case (JStr u)
  show ?case unfolding reads_back_def
  proof (intro allI impI)
    fix b s t x y
    assume a: "canonical_json (JStr u) = Inr s" and b: "canonical_json b = Inr t" and eq: "s @ x = t @ y"
    from same_kind[OF a b eq] obtain v where "b = JStr v" by (cases b) auto
    with a b have "encode_string u = Inr s" "encode_string v = Inr t" by simp_all
    from encode_string_prefix[OF this eq] \<open>b = JStr v\<close> show "same_value (JStr u) b \<and> x = y" by simp
  qed
next
  case (JList xs)
  then show ?case by (rule reads_back_list)
next
  case (JDict d)
  show ?case by (rule reads_back_dict) (use JDict in force)
qed (simp_all add: reads_back_number)

section \<open>The value determines the text\<close>

definition str_key :: "pystr \<Rightarrow> nat list" where
  "str_key k = concat (map utf16_char k)"

lemma utf16_key_fst: "utf16_key = str_key \<circ> fst"
  by (simp add: fun_eq_iff utf16_key_def str_key_def)

lemma str_key_inj:
  "wf_str k \<Longrightarrow> wf_str l \<Longrightarrow> \<not> list_ex is_surrogate k \<Longrightarrow> \<not> list_ex is_surrogate l \<Longrightarrow>
   str_key k = str_key l \<Longrightarrow> k = l"
  unfolding str_key_def
  by (rule utf16_inj) (auto simp: wf_str_def scalar_def list_all_iff list_ex_iff)

lemma keys_sorted_items: "keys (sorted_items d) = sort_key str_key (keys d)"
proof -
  have insort: "keys (insort_key utf16_key p d) = insort_key str_key (fst p) (keys d)" for p :: "pystr \<times> 'a" and d
    by (induction d) (simp_all add: utf16_key_fst)
  show ?thesis
    unfolding sorted_items_def by (induction d) (simp_all add: insort)
qed

lemma sorted_keys_eq:
  assumes "wf_json (JDict d)" "wf_json (JDict e)" "keys_encodable d" "set (keys d) = set (keys e)"
  shows "keys (sorted_items d) = keys (sorted_items e)"
proof -
  have ok: "wf_str k \<and> \<not> list_ex is_surrogate k" if "k \<in> set (keys d)" for k
    using assms(1,3) that by (auto simp: keys_encodable_def list_all_iff)
  have "inj_on str_key (set (keys d))"
  proof (rule inj_onI)
    fix k l assume "k \<in> set (keys d)" "l \<in> set (keys d)" "str_key k = str_key l"
    with ok[of k] ok[of l] show "k = l" by (blast intro: str_key_inj)
  qed
  moreover have "distinct (keys d)" "distinct (keys e)" using assms(1,2) by (simp_all add: wf_dict_def)
  then have "mset (keys d) = mset (keys e)" using assms(4) set_eq_iff_mset_eq_distinct by blast
  ultimately have "sort_key str_key (keys d) = sort_key str_key (keys e)"
    by (intro sort_key_inj_key_eq) (simp_all add: sorted_sort_key)
  then show ?thesis unfolding keys_sorted_items .
qed

lemma mapE_pointwise:
  assumes "mapE f xs = Inr us" "mapE g ys = Inr vs" "length xs = length ys"
    and "\<And>i u v. i < length xs \<Longrightarrow> f (xs ! i) = Inr u \<Longrightarrow> g (ys ! i) = Inr v \<Longrightarrow> u = v"
  shows "us = vs"
proof (rule nth_equalityI)
  show "length us = length vs" using assms(1-3) by (simp add: length_mapE)
  show "us ! i = vs ! i" if "i < length us" for i
    using that assms length_mapE[OF assms(1)] by (auto simp: mapE_eq_Inr list_all2_conv_all_nth)
qed

definition text_of_value :: "json \<Rightarrow> bool" where
  "text_of_value a \<longleftrightarrow> (\<forall>b s t. canonical_json a = Inr s \<longrightarrow> canonical_json b = Inr t \<longrightarrow>
     same_value a b \<longrightarrow> wf_json a \<longrightarrow> wf_json b \<longrightarrow> s = t)"

lemma text_of_valueD:
  "text_of_value a \<Longrightarrow> canonical_json a = Inr s \<Longrightarrow> canonical_json b = Inr t \<Longrightarrow>
   same_value a b \<Longrightarrow> wf_json a \<Longrightarrow> wf_json b \<Longrightarrow> s = t"
  unfolding text_of_value_def by blast

lemma text_of_value_number:
  assumes "kind a = 2"
  shows "text_of_value a"
  unfolding text_of_value_def
proof (intro allI impI)
  fix b s t
  assume a: "canonical_json a = Inr s" and b: "canonical_json b = Inr t" and same: "same_value a b"
    and wf: "wf_json a" "wf_json b"
  have dec: "dec_number a \<noteq> None" "dec_number a = dec_number b"
    using same[unfolded same_value_number[OF assms]] by blast+
  then have "canonical_json a = encode_number a" "canonical_json b = encode_number b"
    by (cases a; cases b; simp)+
  with a b dec wf encode_number_equal show "s = t" by metis
qed

lemma text_of_value_list:
  assumes "\<And>a. a \<in> set xs \<Longrightarrow> text_of_value a"
  shows "text_of_value (JList xs)"
  unfolding text_of_value_def
proof (intro allI impI)
  fix b s t
  assume a: "canonical_json (JList xs) = Inr s" and b: "canonical_json b = Inr t"
    and same: "same_value (JList xs) b" and wf: "wf_json (JList xs)" "wf_json b"
  from same obtain ys where ys: "b = JList ys" "length xs = length ys"
      "\<And>x y. (x, y) \<in> set (zip xs ys) \<Longrightarrow> same_value x y"
    by (cases b) (auto simp: list_all_iff)
  from a b ys obtain us vs where uv: "mapE canonical_json xs = Inr us" "mapE canonical_json ys = Inr vs"
      "s = S ''['' @ join (S '','') us @ S '']''" "t = S ''['' @ join (S '','') vs @ S '']''"
    by (auto simp: bindE_eq_Inr)
  have "us = vs" using uv(1,2) ys(2)
  proof (rule mapE_pointwise)
    fix i u v
    assume i: "i < length xs" and "canonical_json (xs ! i) = Inr u" "canonical_json (ys ! i) = Inr v"
    moreover have "same_value (xs ! i) (ys ! i)" using i ys by (auto simp: set_zip)
    moreover have "wf_json (xs ! i)" "wf_json (ys ! i)"
      using wf ys i by (simp_all add: list_all_iff)
    ultimately show "u = v" using text_of_valueD[OF assms[OF nth_mem[OF i]]] by blast
  qed
  with uv show "s = t" by simp
qed

lemma text_of_value_dict:
  assumes "\<And>k v. (k, v) \<in> set d \<Longrightarrow> text_of_value v"
  shows "text_of_value (JDict d)"
  unfolding text_of_value_def
proof (intro allI impI)
  fix b s t
  assume a: "canonical_json (JDict d) = Inr s" and b: "canonical_json b = Inr t"
    and same: "same_value (JDict d) b" and wf: "wf_json (JDict d)" "wf_json b"
  from same obtain e where e: "b = JDict e" "length d = length e"
      and all: "list_all (\<lambda>(k, v). case map_of e k of None \<Rightarrow> False | Some w \<Rightarrow> same_value v w) d"
    by (cases b) auto
  have e3: "\<exists>w. map_of e k = Some w \<and> same_value v w" if "(k, v) \<in> set d" for k v
    using all that by (auto simp: list_all_iff split: option.splits)
  have wfd: "wf_dict d" "wf_dict e" using wf e(1) by simp_all
  from a[unfolded canonical_JDict] b[unfolded e(1) canonical_JDict] obtain us vs
    where uv: "mapE entry_text (sorted_items d) = Inr us" "mapE entry_text (sorted_items e) = Inr vs"
      "s = S ''{'' @ join (S '','') us @ S ''}''" "t = S ''{'' @ join (S '','') vs @ S ''}''"
      and enc: "keys_encodable d"
    by (auto simp: bindE_eq_Inr split: if_splits)
  have "set (keys d) \<subseteq> set (keys e)"
  proof
    fix k assume "k \<in> set (keys d)"
    then obtain v where "(k, v) \<in> set d" by auto
    with e3 obtain w where "map_of e k = Some w" by blast
    then show "k \<in> set (keys e)" by (rule map_of_Some_keys)
  qed
  then have "set (keys d) = set (keys e)" by (rule wf_dict_same_keys[OF wfd e(2)])
  with wf e(1) enc have ks: "keys (sorted_items d) = keys (sorted_items e)"
    by (intro sorted_keys_eq) simp_all
  have "us = vs" using uv(1,2)
  proof (rule mapE_pointwise)
    show len: "length (sorted_items d) = length (sorted_items e)" using ks by (metis length_map)
    fix i u v
    assume i: "i < length (sorted_items d)"
      and u: "entry_text (sorted_items d ! i) = Inr u" and v: "entry_text (sorted_items e ! i) = Inr v"
    obtain k x where kx: "sorted_items d ! i = (k, x)" by force
    obtain l y where ly: "sorted_items e ! i = (l, y)" by force
    have "k = l" using arg_cong[OF ks, of "\<lambda>zs. zs ! i"] i len kx ly by simp
    have mem: "(k, x) \<in> set d" "(k, y) \<in> set e"
      using nth_mem[OF i] nth_mem[of i "sorted_items e"] i len kx ly \<open>k = l\<close> by simp_all
    have "map_of e k = Some y" using mem(2) wfd by (simp add: wf_dict_map_of_in)
    with e3[OF mem(1)] have "same_value x y" by auto
    moreover have "wf_json x" "wf_json y" using wf e(1) mem by (auto simp: list_all_iff)
    moreover obtain ku wu wv where "encode_string k = Inr ku" "canonical_json x = Inr wu"
        "canonical_json y = Inr wv" "u = ku @ S '':'' @ wu" "v = ku @ S '':'' @ wv"
      using u v kx ly \<open>k = l\<close> by (auto simp: entry_text_def bindE_eq_Inr)
    ultimately show "u = v" using text_of_valueD[OF assms[OF mem(1)]] by blast
  qed
  with uv show "s = t" by simp
qed

lemma value_text: "text_of_value a"
proof (induction a)
  case (JList xs)
  then show ?case by (rule text_of_value_list)
next
  case (JDict d)
  show ?case by (rule text_of_value_dict) (use JDict in force)
next
  case (JInt n)
  show ?case by (rule text_of_value_number) simp
next
  case (JFloat x)
  show ?case by (rule text_of_value_number) simp
qed (auto simp: text_of_value_def)

section \<open>Texts are strings of code points\<close>

lemma wf_str_simps [simp]:
  "wf_str []" "wf_str (c # s) \<longleftrightarrow> c < 0x110000 \<and> wf_str s"
  "wf_str (s @ t) \<longleftrightarrow> wf_str s \<and> wf_str t"
  by (simp_all add: wf_str_def)

lemma wf_str_join: "wf_str sep \<Longrightarrow> list_all wf_str ss \<Longrightarrow> wf_str (join sep ss)"
  by (induction sep ss rule: join.induct) simp_all

lemma wf_str_esc: "c < 0x110000 \<Longrightarrow> wf_str (esc c)"
proof (cases c rule: esc_cases)
  case (short l)
  then have "l < 128" by (auto simp: escapes_def split: if_splits)
  with short show ?thesis by simp
next
  case hex
  have "wf_str (hex_pad w n)" for w n
    by (induction w n rule: hex_pad.induct) (auto simp: hex_digit_def)
  with hex show ?thesis by simp
qed simp

lemma wf_str_encode: "encode_string k = Inr s \<Longrightarrow> wf_str k \<Longrightarrow> wf_str s"
proof -
  assume "encode_string k = Inr s" and wf: "wf_str k"
  then have "s = 34 # concat (map esc k) @ [34]" by (simp add: encode_string_eq split: if_splits)
  moreover have "wf_str (concat (map esc k))" using wf by (induction k) (simp_all add: wf_str_esc)
  ultimately show ?thesis by simp
qed

lemma wf_str_digits: "\<forall>c \<in> set s. is_digit c \<or> c = 43 \<or> c = 45 \<or> c = 46 \<or> c = 101 \<Longrightarrow> wf_str s"
  by (force simp: wf_str_def list_all_iff is_digit_def)

lemma wf_text_number: "encode_number a = Inr s \<Longrightarrow> wf_str s"
proof (cases a rule: encode_number.cases)
  case (1 n)
  assume "encode_number a = Inr s"
  with 1 show ?thesis using str_nat_digits[of "nat \<bar>n\<bar>"] wf_str_digits[of "str_nat (nat \<bar>n\<bar>)"]
    by (auto simp: str_int_def split: if_splits)
next
  case (2 g d e)
  assume "encode_number a = Inr s"
  with 2 show ?thesis using wf_str_digits[OF encode_decimal_chars[of d e]] by (auto split: if_splits)
qed simp_all

lemma wf_text: "canonical_json a = Inr s \<Longrightarrow> wf_json a \<Longrightarrow> wf_str s"
proof (induction a arbitrary: s)
  case (JStr t)
  then show ?case using wf_str_encode by simp
next
  case (JList xs)
  then obtain us where us: "mapE canonical_json xs = Inr us" "s = S ''['' @ join (S '','') us @ S '']''"
    by (auto simp: bindE_eq_Inr)
  have "list_all wf_str us"
    using mapE_mem[OF us(1)] JList by (fastforce simp: list_all_iff)
  then show ?case by (simp add: us(2) wf_str_join)
next
  case (JDict d)
  from JDict.prems(1)[unfolded canonical_JDict] obtain us
    where us: "mapE entry_text (sorted_items d) = Inr us" "s = S ''{'' @ join (S '','') us @ S ''}''"
    by (auto simp: bindE_eq_Inr split: if_splits)
  have "wf_str u" if u: "u \<in> set us" for u
  proof -
    from mapE_mem[OF us(1) u] obtain k v where kv: "(k, v) \<in> set d" "entry_text (k, v) = Inr u" by auto
    then obtain ks vs where "encode_string k = Inr ks" "canonical_json v = Inr vs" "u = ks @ S '':'' @ vs"
      by (auto simp: entry_text_def bindE_eq_Inr)
    moreover have "wf_str k" "wf_json v" using JDict.prems(2) kv(1) by (auto simp: list_all_iff)
    ultimately show ?thesis using wf_str_encode JDict.IH[OF kv(1), of v vs] by simp
  qed
  then have "list_all wf_str us" by (simp add: list_all_iff)
  then show ?case by (simp add: us(2) wf_str_join)
next
  case (JInt n)
  then show ?case using wf_text_number[of "JInt n" s] by simp
next
  case (JFloat x)
  then show ?case using wf_text_number[of "JFloat x" s] by simp
qed auto

section \<open>Which values have a text\<close>

fun portable :: "json \<Rightarrow> bool" where
  "portable (JInt n) \<longleftrightarrow> \<bar>n\<bar> \<le> 2 ^ 53"
| "portable (JFloat (Dec s d e)) \<longleftrightarrow> True"
| "portable (JFloat _) \<longleftrightarrow> False"
| "portable (JStr s) \<longleftrightarrow> \<not> list_ex is_surrogate s"
| "portable (JList xs) \<longleftrightarrow> list_all portable xs"
| "portable (JDict d) \<longleftrightarrow> keys_encodable d \<and> list_all (\<lambda>(k, v). portable v) d"
| "portable _ \<longleftrightarrow> True"

lemma mapE_ValueError:
  assumes "\<And>x. x \<in> set xs \<Longrightarrow> if P x then \<exists>y. f x = Inr y else f x = Inl ValueError"
  shows "if list_all P xs then \<exists>ys. mapE f xs = Inr ys else mapE f xs = Inl ValueError"
  using assms
proof (induction xs)
  case (Cons x xs)
  then have "if list_all P xs then \<exists>ys. mapE f xs = Inr ys else mapE f xs = Inl ValueError" by simp
  with Cons.prems[of x] show ?case by (auto split: if_splits)
qed simp

lemma canonical_portable:
  "if portable a then \<exists>s. canonical_json a = Inr s else canonical_json a = Inl ValueError"
proof (induction a)
  case (JFloat x)
  then show ?case by (cases x) auto
next
  case (JStr s)
  then show ?case by (auto simp: encode_string_eq)
next
  case (JList xs)
  have "if list_all portable xs then \<exists>ys. mapE canonical_json xs = Inr ys
        else mapE canonical_json xs = Inl ValueError"
    by (rule mapE_ValueError) (rule JList)
  then show ?case by (auto split: if_splits)
next
  case (JDict d)
  show ?case
  proof (cases "keys_encodable d")
    case True
    let ?P = "\<lambda>(k, v). portable v"
    have "if list_all ?P (sorted_items d) then \<exists>ys. mapE entry_text (sorted_items d) = Inr ys
          else mapE entry_text (sorted_items d) = Inl ValueError"
    proof (rule mapE_ValueError)
      fix p assume "p \<in> set (sorted_items d)"
      moreover obtain k v where p: "p = (k, v)" by force
      ultimately have kv: "(k, v) \<in> set d" by simp
      then have "\<not> list_ex is_surrogate k" using True by (auto simp: keys_encodable_def list_all_iff)
      moreover have "if portable v then \<exists>s. canonical_json v = Inr s else canonical_json v = Inl ValueError"
        using JDict[OF kv, of v] by simp
      ultimately show "if ?P p then \<exists>y. entry_text p = Inr y else entry_text p = Inl ValueError"
        by (auto simp: p entry_text_def encode_string_eq split: if_splits)
    qed
    moreover have "list_all ?P (sorted_items d) = list_all ?P d" by (simp add: list_all_iff)
    ultimately show ?thesis using True
      by (auto simp: canonical_JDict simp del: canonical_json.simps split: if_splits)
  qed simp
qed auto

section \<open>Normalisation\<close>

text \<open>Edits that are not a change of contract: a \<open>$comment\<close> added or dropped, the list
  \<open>required\<close> reordered or with repetitions, anywhere inside a schema.\<close>

inductive same_contract :: "json \<Rightarrow> json \<Rightarrow> bool" where
  same: "same_contract a a"
| comment: "same_contract (JDict (d @ (S ''$comment'', v) # e)) (JDict (d @ e))"
| required: "set r = set r' \<Longrightarrow> list_all (\<lambda>x. is_str x \<and> wf_str (str_of x)) r \<Longrightarrow>
    S ''required'' \<notin> set (keys d) \<Longrightarrow>
    same_contract (JDict (d @ (S ''required'', JList r) # e)) (JDict (d @ (S ''required'', JList r') # e))"
| field: "same_contract v w \<Longrightarrow> same_contract (JDict (d @ (k, v) # e)) (JDict (d @ (k, w) # e))"
| element: "same_contract v w \<Longrightarrow> same_contract (JList (xs @ v # ys)) (JList (xs @ w # ys))"
| sym: "same_contract a b \<Longrightarrow> same_contract b a"
| trans: "same_contract a b \<Longrightarrow> same_contract b c \<Longrightarrow> same_contract a c"

lemma wf_str_of: "wf_json a \<Longrightarrow> wf_str (str_of a)"
  by (cases a) (auto simp: wf_str_def)

lemma sort_required_cong:
  assumes "set r = set r'" "list_all (\<lambda>x. wf_str (str_of x)) r"
  shows "sort_required r = sort_required r'"
proof -
  have ex: "list_ex P r \<longleftrightarrow> list_ex P r'" for P using assms(1) by (simp add: list_ex_iff)
  have "sort_key str_key (remdups (map str_of r)) = sort_key str_key (remdups (map str_of r'))"
    if ok: "\<not> list_ex (\<lambda>x. list_ex is_surrogate (str_of x)) r"
  proof (rule sort_key_inj_key_eq)
    show "mset (remdups (map str_of r)) = mset (sort_key str_key (remdups (map str_of r')))"
      using assms(1) set_eq_iff_mset_eq_distinct[of "remdups (map str_of r)" "remdups (map str_of r')"]
      by simp
    show "inj_on str_key (set (remdups (map str_of r)))"
    proof (rule inj_onI)
      have wf: "wf_str k \<and> \<not> list_ex is_surrogate k" if "k \<in> set (remdups (map str_of r))" for k
        using that ok assms(2) by (auto simp: list_all_iff list_ex_iff)
      fix k l assume "k \<in> set (remdups (map str_of r))" "l \<in> set (remdups (map str_of r))"
        "str_key k = str_key l"
      with wf[of k] wf[of l] show "k = l" by (blast intro: str_key_inj)
    qed
  qed (simp add: sorted_sort_key)
  with ex show ?thesis by (simp add: sort_required_def str_key_def[abs_def])
qed

text \<open>What normalisation does to one entry, and to \<open>required\<close> once the entries are done.\<close>

definition norm_entry :: "pystr \<times> json \<Rightarrow> pyexc + pystr \<times> json" where
  "norm_entry kv = bindE (normalize_schema (snd kv)) (\<lambda>w. Inr (fst kv, w))"

definition norm_required :: "(pystr \<times> json) list \<Rightarrow> pyexc + json" where
  "norm_required out = (case map_of out (S ''required'') of
          Some (JList req) \<Rightarrow>
            if list_all is_str req
            then bindE (sort_required req) (\<lambda>r. Inr (JDict (AList.update (S ''required'') r out)))
            else Inr (JDict out)
        | _ \<Rightarrow> Inr (JDict out))"

lemma normalize_JDict:
  "normalize_schema (JDict d) =
     bindE (mapE norm_entry (filter (\<lambda>(k, v). k \<noteq> S ''$comment'') d)) norm_required"
  by (simp add: norm_entry_def[abs_def] norm_required_def[abs_def] case_prod_unfold)

declare normalize_schema.simps(1) [simp del]

lemma normalize_strs: "list_all is_str r \<Longrightarrow> mapE normalize_schema r = Inr r"
proof (induction r)
  case (Cons x r)
  then show ?case by (cases x) auto
qed simp

lemma keys_norm_entries: "mapE norm_entry d = Inr out \<Longrightarrow> keys out = keys d"
proof (induction d arbitrary: out)
  case (Cons p d)
  then show ?case by (cases p) (auto simp: bindE_eq_Inr norm_entry_def)
qed simp

lemma norm_required_cong:
  assumes "set r = set r'" "list_all (\<lambda>x. is_str x \<and> wf_str (str_of x)) r"
    and fresh: "S ''required'' \<notin> set (keys d)"
  shows "bindE (mapE norm_entry (d @ (S ''required'', JList r) # e)) norm_required
       = bindE (mapE norm_entry (d @ (S ''required'', JList r') # e)) norm_required"
proof -
  have strs: "list_all is_str r" "list_all is_str r'" using assms by (auto simp: list_all_iff)
  then have entries: "norm_entry (S ''required'', JList r) = Inr (S ''required'', JList r)"
      "norm_entry (S ''required'', JList r') = Inr (S ''required'', JList r')"
    by (simp_all add: norm_entry_def normalize_strs)
  have sort: "sort_required r = sort_required r'"
    using assms by (intro sort_required_cong) (simp_all add: list_all_iff)
  have req: "norm_required (us @ (S ''required'', JList q) # vs) =
      bindE (sort_required q) (\<lambda>s. Inr (JDict (us @ (S ''required'', s) # vs)))"
    if "S ''required'' \<notin> set (keys us)" "list_all is_str q" for us vs q
  proof -
    have "map_of us (S ''required'') = None" using that(1) by (simp add: map_of_eq_None_keys)
    moreover have "AList.update (S ''required'') x (us @ (S ''required'', y) # vs) =
        us @ (S ''required'', x) # vs" for x y :: json
      using that(1) by (induction us) auto
    ultimately show ?thesis using that(2) by (simp add: norm_required_def map_add_def)
  qed
  show ?thesis
  proof (cases "mapE norm_entry d")
    case (Inr us)
    then have "S ''required'' \<notin> set (keys us)" using fresh keys_norm_entries by simp
    then show ?thesis
      using Inr entries req strs sort by (cases "mapE norm_entry e") (simp_all add: mapE_append)
  qed (simp add: mapE_append)
qed

lemma normalize_same_contract: "same_contract a b \<Longrightarrow> normalize_schema a = normalize_schema b"
proof (induction rule: same_contract.induct)
  case (comment d v e)
  show ?case by (simp add: normalize_JDict)
next
  case (required r r' d e)
  have "S ''required'' \<notin> set (keys (filter (\<lambda>(k, v). k \<noteq> S ''$comment'') d))"
    using required(3) by auto
  from norm_required_cong[OF required(1,2) this] show ?case by (simp add: normalize_JDict)
next
  case (field v w d k e)
  have "norm_entry (k, v) = norm_entry (k, w)" using field.IH by (simp add: norm_entry_def)
  then show ?case by (simp add: normalize_JDict mapE_append)
next
  case (element v w xs ys)
  then show ?case by (simp add: mapE_append)
qed simp_all

lemma wf_sort_required:
  "sort_required r = Inr v \<Longrightarrow> list_all (\<lambda>x. is_str x \<longrightarrow> wf_json x) r \<Longrightarrow> list_all is_str r \<Longrightarrow> wf_json v"
  by (auto simp: sort_required_def list_all_iff wf_str_of split: if_splits)

lemma wf_normalize: "normalize_schema a = Inr b \<Longrightarrow> wf_json a \<Longrightarrow> wf_json b"
proof (induction a arbitrary: b)
  case (JList xs)
  then obtain ys where ys: "mapE normalize_schema xs = Inr ys" "b = JList ys" by (auto simp: bindE_eq_Inr)
  have "wf_json y" if "y \<in> set ys" for y
    using mapE_mem[OF ys(1) that] JList by (auto simp: list_all_iff)
  then show ?case by (simp add: ys list_all_iff)
next
  case (JDict d)
  define d' where "d' = filter (\<lambda>(k, v). k \<noteq> S ''$comment'') d"
  from JDict.prems(1) obtain out where out: "mapE norm_entry d' = Inr out" "norm_required out = Inr b"
    by (auto simp: normalize_JDict bindE_eq_Inr d'_def)
  have mem: "wf_str k \<and> wf_json w" if kw: "(k, w) \<in> set out" for k w
  proof -
    from mapE_mem[OF out(1) kw] obtain kv where kv: "kv \<in> set d'" "norm_entry kv = Inr (k, w)"
      by blast
    then have "kv \<in> set d" by (simp add: d'_def)
    with kv(2) obtain v where "(k, v) \<in> set d" "normalize_schema v = Inr w"
      by (cases kv) (auto simp: norm_entry_def bindE_eq_Inr)
    with JDict.IH[of "(k, v)" v w] JDict.prems(2) show ?thesis by (auto simp: list_all_iff)
  qed
  have "wf_dict d'" using JDict.prems(2)
    by (auto simp: d'_def wf_dict_def distinct_map inj_on_def filter_empty_conv)
  then have dict: "wf_dict out" using keys_norm_entries[OF out(1)] by (simp add: wf_dict_def)
  show ?case
  proof (cases "b = JDict out")
    case True
    with dict mem show ?thesis by (auto simp: list_all_iff)
  next
    case False
    then obtain req r where r: "map_of out (S ''required'') = Some (JList req)" "list_all is_str req"
        "sort_required req = Inr r" "b = JDict (AList.update (S ''required'') r out)"
      using out(2) by (auto simp: norm_required_def bindE_eq_Inr split: option.splits json.splits if_splits)
    have "wf_json (JList req)" using mem map_of_SomeD[OF r(1)] by blast
    then have "wf_json r" using wf_sort_required[OF r(3)] r(2) by (simp add: list_all_iff)
    with dict mem show ?thesis unfolding r(4)
      by (auto simp: list_all_iff set_update_wf)
  qed
qed simp_all

section \<open>Properties\<close>

lemma canonical_text_iff:
  assumes "canonical_json a = Inr s" and "canonical_json b = Inr t" and "wf_json a" and "wf_json b"
  shows "s = t \<longleftrightarrow> same_value a b"
proof
  assume "s = t"
  with reads_backD[OF text_reads_back assms(1,2), of "[]" "[]"] assms(3,4)
  show "same_value a b" by (simp add: tail_ok_def)
next
  assume "same_value a b"
  with text_of_valueD[OF value_text assms(1,2)] assms(3,4) show "s = t" by blast
qed

text \<open>C3 Two values have the same canonical text exactly when they are the same JSON value: numbers
  of equal value (\<open>1\<close> and \<open>1.0\<close>), equal strings and booleans, equal elements in order,
  equal entries in any order. So equal hashes mean equal contracts, and formatting or key
  order never changes a hash.\<close>

theorem canonical_text_iff_same_value:
  assumes "canonical_json a = Inr s" and "canonical_json b = Inr t" and "wf_json a" and "wf_json b"
  shows "s = t \<longleftrightarrow> same_value a b"
  using assms by (rule canonical_text_iff)

theorem canonical_text_iff_same_value_witness:
  "\<exists>s t. canonical_json (JDict [(S ''b'', JInt 1), (S ''a'', JList [JBool True, JNull])]) = Inr s
       \<and> canonical_json (JDict [(S ''a'', JList [JBool True, JNull]), (S ''b'', JFloat (Dec False 1 0))]) = Inr t
       \<and> s = t"
proof -
  let ?a = "JDict [(S ''b'', JInt 1), (S ''a'', JList [JBool True, JNull])]"
  let ?b = "JDict [(S ''a'', JList [JBool True, JNull]), (S ''b'', JFloat (Dec False 1 0))]"
  have wf: "wf_json ?a" "wf_json ?b" by simp_all
  have p: "portable ?a" "portable ?b" by (simp_all add: keys_encodable_def S_def is_surrogate_def)
  obtain s where s: "canonical_json ?a = Inr s" using canonical_portable[of ?a] p by (auto split: if_splits)
  obtain t where t: "canonical_json ?b = Inr t" using canonical_portable[of ?b] p by (auto split: if_splits)
  have "same_value ?a ?b" by (simp add: dec_value_def)
  with canonical_text_iff_same_value[OF s t wf] s t show ?thesis by blast
qed

text \<open>C19 Canonical JSON is defined on exactly the portable values: integers within 2^53, finite
  floats, no lone surrogate in a string or key. On every other value it raises
  \<open>ValueError\<close>; nothing is ever silently dropped or approximated.\<close>

theorem canonical_json_total:
  "if portable a then \<exists>s. canonical_json a = Inr s else canonical_json a = Inl ValueError"
  by (rule canonical_portable)

text \<open>C9 A tool's hash does not change under edits that are not a change of contract: a
  \<open>$comment\<close> added or dropped, or a \<open>required\<close> list of strings reordered or repeated, at any
  depth of its input schema.\<close>

theorem tool_hash_stable:
  assumes "same_contract s s'"
  shows "tool_hash sha (AList.update (S ''inputSchema'') s tool)
       = tool_hash sha (AList.update (S ''inputSchema'') s' tool)"
proof -
  define t where "t x = AList.update (S ''inputSchema'') x tool" for x
  have keys: "set (keys (t x)) = insert (S ''inputSchema'') (set (keys tool))" for x
    by (simp add: t_def set_keys_update del: set_map)
  have get: "dict_get (t x) k y = (if k = S ''inputSchema'' then x else dict_get tool k y)" for x k y
    by (simp add: t_def update_conv')
  have name: "map_of (t x) (S ''name'') = map_of tool (S ''name'')" for x
    by (simp add: t_def update_conv')
  have "normalize_schema (dict_get (t s) k y) = normalize_schema (dict_get (t s') k y)" for k y
    using normalize_same_contract[OF assms(1)] unfolding get by simp
  moreover have "dict_get (t s) (S ''description'') y = dict_get (t s') (S ''description'') y" for y
    unfolding get by simp
  ultimately have "normalize_tool (t s) = normalize_tool (t s')"
    unfolding normalize_tool_def name keys by presburger
  then show ?thesis by (simp only: tool_hash_def t_def)
qed

theorem tool_hash_stable_witness:
  "tool_hash id (AList.update (S ''inputSchema'')
       (JDict [(S ''required'', JList [JStr (S ''b''), JStr (S ''a''), JStr (S ''b'')])])
       [(S ''name'', JStr (S ''t'')), (S ''inputSchema'', JNull)])
   = tool_hash id (AList.update (S ''inputSchema'')
       (JDict [(S ''required'', JList [JStr (S ''a''), JStr (S ''b'')])])
       [(S ''name'', JStr (S ''t'')), (S ''inputSchema'', JNull)])"
proof (rule tool_hash_stable)
  show "same_contract (JDict [(S ''required'', JList [JStr (S ''b''), JStr (S ''a''), JStr (S ''b'')])])
          (JDict [(S ''required'', JList [JStr (S ''a''), JStr (S ''b'')])])"
    using same_contract.required[of "[JStr (S ''b''), JStr (S ''a''), JStr (S ''b'')]"
        "[JStr (S ''a''), JStr (S ''b'')]" "[]" "[]"] by auto
qed

lemma wf_normalize_tool:
  assumes "normalize_tool tool = Inr n" and "wf_json (JDict tool)"
  shows "wf_json n"
proof -
  have val: "wf_json v" if "map_of tool k = Some v" for k v
    using map_of_SomeD[OF that] assms(2) by (auto simp: list_all_iff)
  have dflt: "wf_json (dict_get tool k x)" if "wf_json x" for k x
    using val that by (auto split: option.splits)
  from assms(1) obtain name schema opt where n: "map_of tool (S ''name'') = Some name"
      "normalize_schema (dict_get tool (S ''inputSchema'') (JDict [])) = Inr schema"
      "mapE (\<lambda>k. bindE (normalize_schema (dict_get tool k JNull)) (\<lambda>v. Inr (k, v)))
         (filter (\<lambda>k. k \<in> set (keys tool)) [S ''outputSchema'', S ''annotations'']) = Inr opt"
      "n = JDict ([(S ''name'', name), (S ''description'', dict_get tool (S ''description'') (JStr [])),
             (S ''inputSchema'', schema)] @ opt)"
    unfolding normalize_tool_def by (auto simp: bindE_eq_Inr simp del: dict_get.simps split: option.splits)
  have schema: "wf_json schema" using wf_normalize[OF n(2)] dflt[of "JDict []"] by simp
  have opt: "wf_json v" if kv: "(k, v) \<in> set opt" for k v
  proof -
    from mapE_mem[OF n(3) kv] obtain w where "normalize_schema (dict_get tool w JNull) = Inr v"
      by (auto simp: bindE_eq_Inr simp del: dict_get.simps)
    then show ?thesis using wf_normalize dflt[of JNull] by simp
  qed
  have keys: "keys opt = filter (\<lambda>k. k \<in> set (keys tool)) [S ''outputSchema'', S ''annotations'']"
  proof -
    have "keys ys = xs" if "mapE (\<lambda>k. bindE (f k) (\<lambda>v. Inr (k, v))) xs = Inr ys"
      for f :: "pystr \<Rightarrow> pyexc + json" and xs ys
      using that by (induction xs arbitrary: ys) (auto simp: bindE_eq_Inr)
    from this[of "\<lambda>k. normalize_schema (dict_get tool k JNull)", OF n(3)] show ?thesis .
  qed
  have dict: "wf_dict opt" unfolding wf_dict_def keys by simp
  have opt_keys: "set (keys opt) \<subseteq> {S ''outputSchema'', S ''annotations''}"
    unfolding keys by auto
  have opt_wf: "list_all (\<lambda>(k, v). wf_str k \<and> wf_json v) opt"
    unfolding list_all_iff
  proof (intro ballI, clarify)
    fix k v assume kv: "(k, v) \<in> set opt"
    then have "k \<in> set (keys opt)" by force
    with opt_keys have "k = S ''outputSchema'' \<or> k = S ''annotations''" by blast
    with opt[OF kv] show "wf_str k \<and> wf_json v" by auto
  qed
  have "wf_json (dict_get tool (S ''description'') (JStr []))" by (rule dflt) (simp add: wf_str_def)
  moreover have "k \<notin> set (keys opt)"
    if "k = S ''name'' \<or> k = S ''description'' \<or> k = S ''inputSchema''" for k
    using opt_keys that by auto
  ultimately show ?thesis
    using schema val[OF n(1)] dict opt_wf by (simp add: n(4) del: dict_get.simps set_map)
qed

text \<open>C8 As long as SHA-256 does not collide on the two texts at hand, two tools have the same hash
  exactly when their normalised definitions are the same JSON value: no change of name,
  description, schema or annotations goes unnoticed.\<close>

theorem tool_hash_identifies:
  assumes "normalize_tool a = Inr m" and "normalize_tool b = Inr n"
    and "wf_json (JDict a)" and "wf_json (JDict b)"
    and "canonical_json m = Inr s" and "canonical_json n = Inr t"
    and no_collision: "inj_on sha {utf8 s, utf8 t}"
  shows "tool_hash sha a = tool_hash sha b \<longleftrightarrow> same_value m n"
proof -
  have wf: "wf_json m" "wf_json n" using assms(1-4) wf_normalize_tool by blast+
  have "tool_hash sha a = Inr (hash_prefix @ sha (utf8 s))" "tool_hash sha b = Inr (hash_prefix @ sha (utf8 t))"
    using assms(1,2,5,6) by (simp_all add: tool_hash_def sha256_hex_def)
  then have "tool_hash sha a = tool_hash sha b \<longleftrightarrow> sha (utf8 s) = sha (utf8 t)" by simp
  also have "\<dots> \<longleftrightarrow> utf8 s = utf8 t" using no_collision by (rule inj_on_eq_iff) simp_all
  also have "\<dots> \<longleftrightarrow> s = t"
    using utf8_inj[OF wf_text[OF assms(5) wf(1)] wf_text[OF assms(6) wf(2)]] by blast
  also have "\<dots> \<longleftrightarrow> same_value m n"
    by (rule canonical_text_iff[OF assms(5,6) wf])
  finally show ?thesis .
qed

theorem tool_hash_identifies_witness:
  "tool_hash (\<lambda>bytes. bytes) [(S ''name'', JStr (S ''a''))]
     \<noteq> tool_hash (\<lambda>bytes. bytes) [(S ''name'', JStr (S ''a'')), (S ''description'', JStr (S ''!''))]"
proof -
  let ?a = "[(S ''name'', JStr (S ''a''))]"
  let ?b = "[(S ''name'', JStr (S ''a'')), (S ''description'', JStr (S ''!''))]"
  let ?m = "JDict [(S ''name'', JStr (S ''a'')), (S ''description'', JStr []), (S ''inputSchema'', JDict [])]"
  let ?n = "JDict [(S ''name'', JStr (S ''a'')), (S ''description'', JStr (S ''!'')), (S ''inputSchema'', JDict [])]"
  have n: "normalize_tool ?a = Inr ?m" "normalize_tool ?b = Inr ?n"
    by (simp_all add: normalize_tool_def normalize_JDict norm_required_def)
  have p: "portable ?m" "portable ?n"
    by (simp_all add: keys_encodable_def S_def is_surrogate_def)
  obtain s where s: "canonical_json ?m = Inr s" using canonical_portable[of ?m] p by (auto split: if_splits)
  obtain t where t: "canonical_json ?n = Inr t" using canonical_portable[of ?n] p by (auto split: if_splits)
  have "\<not> same_value ?m ?n" by (simp add: S_def)
  with tool_hash_identifies[OF n _ _ s t, of "\<lambda>bytes. bytes"] show ?thesis by simp
qed

end
