(* ===== verification/Control_Safety.thy ===== *)
theory Control_Safety
  imports Control_Threads Canonical_Values
begin

text \<open>
  What the control plane guarantees under any interleaving: verdicts come from a differ run on
  the reported hashes and from the policy, one differ run per cached change, an approval is
  never undone by a late diff, every request gets an answer, the cache stays within its size.
\<close>

section \<open>Runs\<close>

lemma ctl_run_one: "ctl_step sha diff s l t \<Longrightarrow> ctl_run sha diff s [l] t"
  using ctl_run.snoc[OF ctl_run.empty] by fastforce

lemma ctl_run_append:
  assumes "ctl_run sha diff t ls' u" and "ctl_run sha diff s ls t"
  shows "ctl_run sha diff s (ls @ ls') u"
  using assms(1,2)
proof (induction rule: ctl_run.induct)
  case (snoc t ls' v l u)
  then have "ctl_run sha diff s ((ls @ ls') @ [l]) u" by (intro ctl_run.snoc) simp_all
  then show ?case by simp
qed simp

section \<open>Every request is answered\<close>

text \<open>How far a thread is from its answer.\<close>

fun distance :: "pc \<Rightarrow> nat" where
  "distance (Hashed j) = 6" | "distance (Unapproved j) = 5"
| "distance (Running j fid) = 4" | "distance (Waiting j fid) = 4"
| "distance (Failing j fid e) = 3" | "distance (Raising j fid e) = 2"
| "distance (Analysed j a hit) = 1" | "distance _ = 0"

lemma advance_distance:
  assumes "advance diff c p = Some (q, c')"
  shows "distance q < distance p \<and> q \<noteq> Idle \<and> (\<forall>e. q \<noteq> Refused e)"
  using assms
  by (cases "(diff, c, p)" rule: advance.cases)
    (auto split: prod.splits bool.splits sum.splits future.splits)

lemma advance_stuck:
  assumes "advance diff c p = None"
  shows "(\<exists>j fid. p = Waiting j fid \<and> futures c ! fid = Pending) \<or> active_job p = None"
  using assms
  by (cases "(diff, c, p)" rule: advance.cases)
    (auto split: prod.splits bool.splits sum.splits future.splits)

lemma active_or_done: "p \<noteq> Idle \<Longrightarrow> (\<forall>e. p \<noteq> Refused e) \<Longrightarrow> active_job p = None \<Longrightarrow> \<exists>j r. p = Finished j r"
  by (cases p) auto

text \<open>The owner of a future resolves it on its own, in at most three steps.\<close>

lemma owner_resolves:
  assumes "sys_ok sha diff K s" and "owned (pcs s k) = Some fid"
  shows "\<exists>ls t K'. ctl_run sha diff s ls t \<and> sys_ok sha diff K' t \<and> futures (ctl t) ! fid \<noteq> Pending
       \<and> (\<forall>i. i \<noteq> k \<longrightarrow> pcs t i = pcs s i)"
  using assms
proof (induction "distance (pcs s k)" arbitrary: s K rule: less_induct)
  case less
  from less.prems(2) have act: "active_job (pcs s k) \<noteq> None" and nw: "\<And>j f. pcs s k \<noteq> Waiting j f"
    by (cases "pcs s k"; simp)+
  then obtain p c where adv: "advance diff (ctl s) (pcs s k) = Some (p, c)"
    using advance_stuck[of diff "ctl s" "pcs s k"] by (cases "advance diff (ctl s) (pcs s k)") auto
  define t where "t = goto k p c s"
  have step: "ctl_step sha diff s (Run k) t" unfolding t_def by (rule ctl_step.run[OF adv])
  from sys_ok_step[OF step less.prems(1)] obtain K' where okt: "sys_ok sha diff K' t" by blast
  have frame: "\<forall>i. i \<noteq> k \<longrightarrow> pcs t i = pcs s i" and pk: "pcs t k = p" "ctl t = c"
    by (simp_all add: t_def goto_def)
  have fid: "fid < length (futures (ctl s))"
    using sys_okD(1)[OF less.prems(1), of k] less.prems(2) by (cases "pcs s k") (auto simp: pc_ok_def)
  consider "owned p = Some fid" | "futures c ! fid \<noteq> Pending"
    using less.prems(2) adv fid
    by (cases "pcs s k") (auto simp: set_future_def split: sum.splits)
  then show ?case
  proof cases
    case 1
    have "distance (pcs t k) < distance (pcs s k)" using advance_distance[OF adv] pk(1) by simp
    from less.hyps[OF this okt] 1 pk(1) obtain ls u K'' where
      u: "ctl_run sha diff t ls u" "sys_ok sha diff K'' u" "futures (ctl u) ! fid \<noteq> Pending"
      "\<forall>i. i \<noteq> k \<longrightarrow> pcs u i = pcs t i" by blast
    from ctl_run_append[OF u(1) ctl_run_one[OF step]] u(2-4) frame show ?thesis
      by (intro exI[of _ "[Run k] @ ls"] exI[of _ u] exI[of _ K'']) simp
  next
    case 2
    from ctl_run_one[OF step] okt 2 pk(2) frame show ?thesis by blast
  qed
qed

lemma thread_finishes:
  assumes "sys_ok sha diff K s" and "pcs s i \<noteq> Idle" and "\<forall>e. pcs s i \<noteq> Refused e"
  shows "\<exists>ls t j r. ctl_run sha diff s ls t \<and> pcs t i = Finished j r"
  using assms
proof (induction "distance (pcs s i)" arbitrary: s K rule: less_induct)
  case less
  have go: ?case if ok: "sys_ok sha diff K1 s1" and run: "ctl_run sha diff s ls1 s1"
    and same: "pcs s1 i = pcs s i" and adv: "advance diff (ctl s1) (pcs s1 i) = Some (p, c)" for K1 s1 ls1 p c
  proof -
    define t where "t = goto i p c s1"
    have step: "ctl_step sha diff s1 (Run i) t" unfolding t_def by (rule ctl_step.run[OF adv])
    from sys_ok_step[OF step ok] obtain K' where okt: "sys_ok sha diff K' t" by blast
    have pt: "pcs t i = p" by (simp add: t_def goto_def)
    have "distance (pcs t i) < distance (pcs s i)" "pcs t i \<noteq> Idle" "\<forall>e. pcs t i \<noteq> Refused e"
      using advance_distance[OF adv] pt same by simp_all
    from less.hyps[OF this(1) okt this(2,3)] obtain ls u j r where
      "ctl_run sha diff t ls u" "pcs u i = Finished j r" by blast
    moreover have "ctl_run sha diff s (ls1 @ [Run i]) t" by (rule ctl_run.snoc[OF run step])
    ultimately show ?thesis using ctl_run_append by blast
  qed
  show ?case
  proof (cases "advance diff (ctl s) (pcs s i)")
    case (Some pc)
    with go[OF less.prems(1) ctl_run.empty] show ?thesis by (cases pc) blast
  next
    case None
    from advance_stuck[OF None] show ?thesis
    proof
      assume "\<exists>j fid. pcs s i = Waiting j fid \<and> futures (ctl s) ! fid = Pending"
      then obtain j fid where w: "pcs s i = Waiting j fid" "futures (ctl s) ! fid = Pending" by blast
      have "fid < length (futures (ctl s))"
        using sys_okD(1)[OF less.prems(1), of i] w(1) by (simp add: pc_ok_def)
      from sys_okD(3)[OF less.prems(1) this w(2)] obtain k where k: "owned (pcs s k) = Some fid" by blast
      with w(1) have "k \<noteq> i" by auto
      from owner_resolves[OF less.prems(1) k] obtain ls t K' where t: "ctl_run sha diff s ls t"
        "sys_ok sha diff K' t" "futures (ctl t) ! fid \<noteq> Pending" "\<forall>i. i \<noteq> k \<longrightarrow> pcs t i = pcs s i"
        by blast
      have same: "pcs t i = pcs s i" using t(4) \<open>k \<noteq> i\<close> by simp
      have "advance diff (ctl t) (pcs t i) \<noteq> None"
        using t(3) same w(1) by (auto split: future.splits)
      then obtain p c where "advance diff (ctl t) (pcs t i) = Some (p, c)" by force
      from go[OF t(2,1) same this] show ?thesis .
    next
      assume "active_job (pcs s i) = None"
      with active_or_done[OF less.prems(2,3)] ctl_run.empty show ?thesis by blast
    qed
  qed
qed

section \<open>An approval wins over a late diff\<close>

definition approved_hash :: "sys \<Rightarrow> pystr \<times> pystr \<Rightarrow> pystr option" where
  "approved_hash s key = map_option ap_hash (map_of (approved (ctl s)) key)"

definition job_subject :: "job \<Rightarrow> pystr \<times> pystr" where
  "job_subject j = subject (jb_req j)"

text \<open>The hash \<open>h\<close> is approved for the tool \<open>key\<close>, the tool is not quarantined, and every
  request about it that is under way reports \<open>h\<close> as the new definition.\<close>

definition cleared :: "pystr \<times> pystr \<Rightarrow> pystr \<Rightarrow> sys \<Rightarrow> bool" where
  "cleared key h s \<longleftrightarrow> approved_hash s key = Some h \<and> key \<notin> quarantine (ctl s)
     \<and> (\<forall>i j. active_job (pcs s i) = Some j \<longrightarrow> job_subject j = key \<longrightarrow> jb_new j = h)"

text \<open>Nothing in the run reports or approves another hash for the tool.\<close>

definition keeps :: "(nat list \<Rightarrow> pystr) \<Rightarrow> pystr \<times> pystr \<Rightarrow> pystr \<Rightarrow> label \<Rightarrow> bool" where
  "keeps sha key h l = (case l of
     Approve k h' \<Rightarrow> k = key \<longrightarrow> h' = h
   | Arrive i req \<Rightarrow> subject req = key \<longrightarrow>
       (case compute_hashes sha req of Inr (oh, nh) \<Rightarrow> nh = h | Inl e \<Rightarrow> True)
   | Run i \<Rightarrow> True)"

lemma approved_job:
  "approved_hash s key = Some h \<Longrightarrow> job_subject j = key \<Longrightarrow> jb_new j = h \<Longrightarrow>
   is_approved (ctl s) (jb_req j) (jb_new j)"
  by (auto simp: approved_hash_def job_subject_def is_approved_def)

lemma lookup_future_keeps:
  "lookup_future c key = (r, c1) \<Longrightarrow> quarantine c1 = quarantine c \<and> approved c1 = approved c"
  by (auto simp: lookup_future_def Let_def split: option.splits sum.splits)

lemma advance_approved:
  assumes "advance diff c p = Some (q, c')" and "active_job p = Some j"
    and "is_approved c (jb_req j) (jb_new j)"
  shows "quarantine c' = quarantine c \<and> (\<forall>a v risk hit. q \<noteq> Finished j (Inr (Judged a v risk hit)))"
  using assms
  by (cases "(diff, c, p)" rule: advance.cases)
    (auto simp: set_future_def forget_key_def conclude_def dest!: lookup_future_keeps enter_change_same
      split: prod.splits bool.splits sum.splits future.splits)

lemma advance_frame:
  assumes "advance diff c p = Some (q, c')" and "active_job p = Some j"
  shows "approved c' = approved c" and "quarantine c' \<subseteq> insert (job_subject j) (quarantine c)"
    and "active_job q = None \<or> active_job q = Some j"
    and "q = Finished j' r \<Longrightarrow> j' = j"
  using assms
  by (cases "(diff, c, p)" rule: advance.cases;
      auto simp: set_future_def forget_key_def conclude_def job_subject_def
        dest!: lookup_future_keeps enter_change_same
        split: prod.splits bool.splits sum.splits future.splits if_splits)+

lemma advance_active: "advance diff c p = Some (q, c') \<Longrightarrow> \<exists>j. active_job p = Some j"
  by (cases "(diff, c, p)" rule: advance.cases) auto

lemma cleared_step:
  assumes step: "ctl_step sha diff s l t" and clear: "cleared key h s" and keep: "keeps sha key h l"
  shows "cleared key h t"
    and "pcs t i = Finished j (Inr (Judged a v risk hit)) \<Longrightarrow> job_subject j = key \<Longrightarrow> pcs s i = pcs t i"
proof -
  have app: "approved_hash s key = Some h" and notq: "key \<notin> quarantine (ctl s)"
    and jobs: "\<And>i j. active_job (pcs s i) = Some j \<Longrightarrow> job_subject j = key \<Longrightarrow> jb_new j = h"
    using clear by (auto simp: cleared_def)
  have both: "cleared key h t \<and> (\<forall>i j a v risk hit. pcs t i = Finished j (Inr (Judged a v risk hit)) \<longrightarrow>
      job_subject j = key \<longrightarrow> pcs s i = pcs t i)"
    using step
  proof cases
    case (arrive i req hh)
    have "jb_new (job_of_hashes req hh) = h" if "subject req = key"
      using keep that arrive by (cases hh) (auto simp: keeps_def job_of_hashes_def)
    then show ?thesis
      using app notq jobs arrive
      by (auto simp: cleared_def approved_hash_def goto_def job_subject_def job_of_hashes_def split: if_splits)
  next
    case (refuse i req e)
    then show ?thesis
      using app notq jobs by (auto simp: cleared_def approved_hash_def goto_def)
  next
    case (run i p c)
    from advance_active[OF run(3)] obtain j where j: "active_job (pcs s i) = Some j" by blast
    note fr = advance_frame[OF run(3) j]
    have q: "key \<notin> quarantine c \<and> (job_subject j = key \<longrightarrow> (\<forall>a v risk hit. p \<noteq> Finished j (Inr (Judged a v risk hit))))"
    proof (cases "job_subject j = key")
      case True
      with advance_approved[OF run(3) j approved_job[OF app True jobs[OF j True]]] notq show ?thesis by simp
    next
      case False
      with fr(2) notq show ?thesis by auto
    qed
    have "active_job p = Some j' \<Longrightarrow> job_subject j' = key \<Longrightarrow> jb_new j' = h" for j'
      using fr(3) jobs[OF j] by auto
    then have "cleared key h t"
      using app q jobs fr(1) run(2) by (auto simp: cleared_def approved_hash_def goto_def)
    moreover have "pcs s k = pcs t k"
      if "pcs t k = Finished j' (Inr (Judged a v risk hit))" "job_subject j' = key" for k j' a v risk hit
    proof (cases "k = i")
      case True
      with that run(2) have "p = Finished j' (Inr (Judged a v risk hit))" by (simp add: goto_def)
      with fr(4) q that(2) show ?thesis by auto
    next
      case False
      with run(2) show ?thesis by (simp add: goto_def)
    qed
    ultimately show ?thesis by blast
  next
    case (approve k hh now who why)
    have "approved_hash t key = Some h"
      using keep app unfolding approve(2) by (auto simp: approve(1) keeps_def approved_hash_def set_approved_def update_conv')
    then show ?thesis
      using notq jobs unfolding approve(2) by (auto simp: cleared_def set_approved_def)
  qed
  from both show "cleared key h t" by blast
  from both show "pcs t i = Finished j (Inr (Judged a v risk hit)) \<Longrightarrow> job_subject j = key \<Longrightarrow> pcs s i = pcs t i"
    by blast
qed

lemma cleared_run:
  assumes "ctl_run sha diff s ls t" and "cleared key h s" and "\<forall>l \<in> set ls. keeps sha key h l"
  shows "cleared key h t \<and> (\<forall>i j a v risk hit. pcs t i = Finished j (Inr (Judged a v risk hit)) \<longrightarrow>
      job_subject j = key \<longrightarrow> pcs s i = pcs t i)"
  using assms
proof (induction rule: ctl_run.induct)
  case (snoc s ls t l u)
  then have IH: "cleared key h t" "\<And>i j a v risk hit. pcs t i = Finished j (Inr (Judged a v risk hit)) \<Longrightarrow>
      job_subject j = key \<Longrightarrow> pcs s i = pcs t i" by auto
  have keep: "keeps sha key h l" using snoc.prems by simp
  note st = cleared_step[OF snoc.hyps(2) IH(1) keep]
  have "pcs s i = pcs u i"
    if "pcs u i = Finished j (Inr (Judged a v risk hit))" "job_subject j = key" for i j a v risk hit
    using st(2)[OF that] IH(2)[of i j a v risk hit] that by simp
  with st(1) show ?case by blast
qed simp

section \<open>The cache stays within its size\<close>

lemma advance_policy:
  "advance diff c p = Some (q, c') \<Longrightarrow> policy c' = policy c \<and> cache_size c' = cache_size c"
  by (cases "(diff, c, p)" rule: advance.cases)
    (auto simp: set_future_def forget_key_def conclude_def enter_change_def lookup_future_def Let_def
      split: prod.splits bool.splits sum.splits future.splits option.splits if_splits)

lemma advance_cache_bound:
  assumes "advance diff c p = Some (q, c')" and "wf_dict (cache c)" and "0 \<le> cache_size c"
    and "int (length (cache c)) \<le> cache_size c"
  shows "int (length (cache c')) \<le> cache_size c"
proof (cases "\<exists>j. p = Unapproved j")
  case True
  then obtain j where j: "p = Unapproved j" by blast
  obtain r c1 where look: "lookup_future c (jb_key j) = (r, c1)" by force
  have "c' = c1" using assms(1) j look by (auto split: sum.splits prod.splits bool.splits)
  moreover have "int (length (cache c1)) \<le> cache_size c"
  proof (cases "map_of (cache c) (jb_key j)")
    case None
    from lookup_miss(7)[OF None assms(3) look] assms(3) show ?thesis by simp
  next
    case (Some fid)
    from lookup_hit(7)[OF Some look assms(2)] assms(4) show ?thesis by simp
  qed
  ultimately show ?thesis by simp
next
  case False
  have "length (cache c') \<le> length (cache c)"
    using assms(1) False
    by (cases "(diff, c, p)" rule: advance.cases)
      (auto simp: set_future_def forget_key_def conclude_def length_delete_le
        dest!: enter_change_same split: prod.splits bool.splits sum.splits future.splits if_splits)
  with assms(4) show ?thesis by simp
qed

lemma ctl_run_cache_bound:
  assumes "ctl_run sha diff (sys_init p n) ls s" and "0 \<le> n"
  shows "int (length (cache (ctl s))) \<le> n \<and> policy (ctl s) = p \<and> cache_size (ctl s) = n"
  using assms(1)
proof (induction "sys_init p n" ls s rule: ctl_run.induct)
  case empty
  show ?case using assms(2) by (simp add: sys_init_def control_init_def)
next
  case (snoc ls t l u)
  obtain K where ok: "sys_ok sha diff K t" using ctl_reachable_ok[OF snoc(1) assms(2)] by blast
  have IH: "int (length (cache (ctl t))) \<le> n" "policy (ctl t) = p" "cache_size (ctl t) = n"
    using snoc(2) by simp_all
  from snoc(3) show ?case
  proof cases
    case (run i q c)
    from advance_cache_bound[OF run(3) sys_okD(6,7)[OF ok]] advance_policy[OF run(3)] IH
    show ?thesis by (simp add: run(2) goto_def)
  qed (use IH in \<open>auto simp: goto_def set_approved_def\<close>)
qed

section \<open>A caller that is alone\<close>

lemma run_alone:
  assumes "ctl_run sha diff s0 ls (goto i p c s)" and "advance diff c p = Some (q, c1)"
  shows "ctl_run sha diff s0 (ls @ [Run i]) (goto i q c1 s)"
proof (rule ctl_run.snoc[OF assms(1)])
  have "goto i q c1 s = goto i q c1 (goto i p c s)" by (simp add: goto_def)
  moreover have "ctl_step sha diff (goto i p c s) (Run i) (goto i q c1 (goto i p c s))"
    by (rule ctl_step.run) (simp add: goto_def assms(2))
  ultimately show "ctl_step sha diff (goto i p c s) (Run i) (goto i q c1 s)" by simp
qed

definition judged_body :: "(nat \<Rightarrow> bool) \<Rightarrow> job \<Rightarrow> outcome \<Rightarrow> (pystr \<times> json) list" where
  "judged_body pr j out = (case out of
     Resumed \<Rightarrow> approved_body pr (jb_mismatches j)
   | Judged a v risk hit \<Rightarrow> verdict_body pr a v risk hit (jb_mismatches j))"

text \<open>The response of a thread that has finished.\<close>

fun pc_response :: "(nat \<Rightarrow> bool) \<Rightarrow> pc \<Rightarrow> (control_error + (pystr \<times> json) list) option" where
  "pc_response pr (Refused e) = Some (Inl e)"
| "pc_response pr (Finished j (Inl e)) = Some (Inl e)"
| "pc_response pr (Finished j (Inr out)) = Some (Inr (judged_body pr j out))"
| "pc_response pr _ = None"

lemma conclude_alone:
  assumes run: "ctl_run sha diff s0 ls (goto i (Analysed j a hit) c s)"
    and ev: "(case verdict_of (policy c) (jb_req j) a of
        Inl e \<Rightarrow> (Some (Inl (Raised e)), c)
      | Inr (v, risk) \<Rightarrow> let (app, c1) = conclude c (jb_req j) (jb_new j) v
          in if app then (Some (Inr (approved_body pr (jb_mismatches j))), c1)
             else (Some (Inr (verdict_body pr a v risk hit (jb_mismatches j))), c1)) = (r, c')"
  shows "\<exists>ls q. ctl_run sha diff s0 ls (goto i q c' s) \<and> pc_response pr q = r"
proof (cases "verdict_of (policy c) (jb_req j) a")
  case (Inl e)
  then have "advance diff c (Analysed j a hit) = Some (Finished j (Inl (Raised e)), c)" by simp
  from run_alone[OF run this] Inl ev show ?thesis by force
next
  case (Inr vr)
  obtain v risk where vr: "vr = (v, risk)" by force
  obtain app c1 where con: "conclude c (jb_req j) (jb_new j) v = (app, c1)" by force
  have "advance diff c (Analysed j a hit) = Some (Finished j (Inr (if app then Resumed else Judged a v risk hit)), c1)"
    using Inr vr con by (cases app) simp_all
  from run_alone[OF run this] Inr vr con ev show ?thesis
    by (cases app) (force simp: judged_body_def)+
qed

text \<open>Where a caller that is alone stands after \<open>_cached_analysis\<close>.\<close>

definition analysed_pc :: "job \<Rightarrow> pyexc + analysis \<times> bool \<Rightarrow> pc" where
  "analysed_pc j x = (case x of Inl e \<Rightarrow> Finished j (Inl (Raised e)) | Inr (a, hit) \<Rightarrow> Analysed j a hit)"

lemma cached_analysis_alone:
  assumes run: "ctl_run sha diff s0 ls (goto i (Unapproved j) c s)"
    and ca: "cached_analysis diff c (jb_key j) (jb_req j) = (Some x, c2)"
  shows "\<exists>ls. ctl_run sha diff s0 ls (goto i (analysed_pc j x) c2 s)"
proof -
  obtain fo cl where look: "lookup_future c (jb_key j) = (fo, cl)" by force
  show ?thesis
  proof (cases fo)
    case (Inl e)
    then have "advance diff c (Unapproved j) = Some (analysed_pc j x, c2)"
      using look ca by (auto simp: cached_analysis_def analysed_pc_def)
    from run_alone[OF run this] show ?thesis by blast
  next
    case (Inr fo')
    obtain fid owner where fo: "fo = Inr (fid, owner)" using Inr by (cases fo') simp
    show ?thesis
    proof (cases owner)
      case False
      then have "advance diff c (Unapproved j) = Some (Waiting j fid, cl)" using look fo by simp
      note r = run_alone[OF run this]
      have "advance diff cl (Waiting j fid) = Some (analysed_pc j x, c2)"
        using look ca fo False by (cases "futures cl ! fid") (auto simp: cached_analysis_def analysed_pc_def)
      from run_alone[OF r this] show ?thesis by blast
    next
      case True
      then have "advance diff c (Unapproved j) = Some (Running j fid, cl)" using look fo by simp
      note r = run_alone[OF run this]
      show ?thesis
      proof (cases "analyse diff (cr_tool (jb_req j)) (cr_old_def (jb_req j)) (cr_new_def (jb_req j))")
        case (Inr a)
        then have "advance diff cl (Running j fid) = Some (analysed_pc j x, c2)"
          using look ca fo True by (auto simp: cached_analysis_def analysed_pc_def)
        from run_alone[OF r this] show ?thesis by blast
      next
        case (Inl e)
        then have "advance diff cl (Running j fid) = Some (Failing j fid e, cl)" by simp
        note r1 = run_alone[OF r this]
        have "advance diff cl (Failing j fid e) = Some (Raising j fid e, forget_key (jb_key j) cl)" by simp
        note r2 = run_alone[OF r1 this]
        have "advance diff (forget_key (jb_key j) cl) (Raising j fid e) = Some (analysed_pc j x, c2)"
          using look ca fo True Inl by (auto simp: cached_analysis_def analysed_pc_def)
        from run_alone[OF r2 this] show ?thesis by blast
      qed
    qed
  qed
qed

lemma evaluate_change_alone:
  assumes idle: "pcs s i = Idle" and ev: "evaluate_change pr sha diff (ctl s) req = (Some r, c')"
  shows "\<exists>ls q. ctl_run sha diff s ls (goto i q c' s) \<and> pc_response pr q = Some r"
proof (cases "compute_hashes sha req")
  case (Inl e)
  then have "r = Inl e" "c' = ctl s" using ev by (simp_all add: evaluate_change_def)
  with ctl_run_one[OF ctl_step.refuse[OF idle Inl]] show ?thesis
    by (intro exI[of _ "[Arrive i req]"] exI[of _ "Refused e"]) simp
next
  case (Inr h)
  obtain oh nh where h: "h = (oh, nh)" by force
  define j where "j = job_of_hashes req h"
  have j: "jb_req j = req" "jb_new j = nh" "jb_key j = (oh, nh)" "jb_mismatches j = check_hashes req oh nh"
    by (simp_all add: j_def h job_of_hashes_def jb_key_def jb_mismatches_def)
  obtain app c1 where e1: "enter_change (ctl s) req nh (jb_mismatches j \<noteq> []) = (app, c1)" by force
  have r0: "ctl_run sha diff s [Arrive i req] (goto i (Hashed j) (ctl s) s)"
    unfolding j_def by (rule ctl_run_one[OF ctl_step.arrive[OF idle Inr]])
  have "advance diff (ctl s) (Hashed j) = Some (if app then Finished j (Inr Resumed) else Unapproved j, c1)"
    using e1 j by (cases app) simp_all
  note r1 = run_alone[OF r0 this]
  show ?thesis
  proof (cases app)
    case True
    have "r = Inr (approved_body pr (jb_mismatches j))" "c' = c1"
      using ev Inr h e1 True j(4) by (simp_all add: evaluate_change_def Let_def)
    with r1 True show ?thesis by (force simp: judged_body_def)
  next
    case False
    obtain res c2 where ca: "cached_analysis diff c1 (oh, nh) req = (res, c2)" by force
    obtain x where x: "res = Some x"
      using ev Inr h e1 False j(4) ca by (cases res) (simp_all add: evaluate_change_def Let_def)
    have r1': "ctl_run sha diff s ([Arrive i req] @ [Run i]) (goto i (Unapproved j) c1 s)"
      using r1 False by simp
    obtain ls where r2: "ctl_run sha diff s ls (goto i (analysed_pc j x) c2 s)"
      using cached_analysis_alone[OF r1'] ca j x by auto
    show ?thesis
    proof (cases x)
      case (Inl e)
      then have "r = Inl (Raised e)" "c' = c2"
        using ev \<open>compute_hashes sha req = _\<close> h e1 False j(4) ca x by (simp_all add: evaluate_change_def Let_def)
      with r2 Inl show ?thesis by (force simp: analysed_pc_def)
    next
      case (Inr ah)
      obtain a hit where ah: "ah = (a, hit)" by force
      show ?thesis
        by (rule conclude_alone[where j = j and a = a and hit = hit and c = c2], use r2 Inr ah in \<open>simp add: analysed_pc_def\<close>)
          (use ev \<open>compute_hashes sha req = _\<close> h e1 False ca x Inr ah in
            \<open>unfold j(1,2,4), simp add: evaluate_change_def Let_def j(4)\<close>)
    qed
  qed
qed

section \<open>An example run\<close>

definition ex_diff :: diff_fn where "ex_diff t a b = Inr []"

definition ex_req :: change_request where
  "ex_req = \<lparr>cr_server = S ''srv'', cr_tool = S ''t'', cr_session = [], cr_old_hash = S ''x'',
     cr_new_hash = S ''y'', cr_old_def = [(S ''name'', JStr (S ''a''))],
     cr_new_def = [(S ''name'', JStr (S ''b''))]\<rparr>"

lemma ex_hashes: "\<exists>h. compute_hashes sha ex_req = Inr h"
proof -
  have "\<exists>h. tool_hash sha [(S ''name'', JStr (S [c]))] = Inr h" if "c = CHR ''a'' \<or> c = CHR ''b''" for c
  proof -
    let ?m = "JDict [(S ''name'', JStr (S [c])), (S ''description'', JStr []), (S ''inputSchema'', JDict [])]"
    have "portable ?m" using that by (auto simp: keys_encodable_def S_def is_surrogate_def)
    then obtain s where "canonical_json ?m = Inr s" using canonical_portable[of ?m] by (auto split: if_splits)
    moreover have "normalize_tool [(S ''name'', JStr (S [c]))] = Inr ?m"
      by (simp add: normalize_tool_def normalize_JDict norm_required_def)
    ultimately show ?thesis by (simp add: tool_hash_def sha256_hex_def)
  qed
  from this[of "CHR ''a''"] this[of "CHR ''b''"]
  obtain h h' where "tool_hash sha [(S ''name'', JStr (S ''a''))] = Inr h"
      "tool_hash sha [(S ''name'', JStr (S ''b''))] = Inr h'" by auto
  then show ?thesis by (simp add: compute_hashes_def ex_req_def)
qed

lemma ex_run:
  assumes p: "default_policy = Inr p"
  shows "\<exists>ls s j a. ctl_run sha ex_diff (sys_init p 1) ls s
     \<and> pcs s 0 = Finished j (Inr (Judged a (S ''resume'') (S ''side_effecting'') False))
     \<and> cache (ctl s) = [(jb_key j, 0)]"
proof -
  obtain h where h: "compute_hashes sha ex_req = Inr h" using ex_hashes by blast
  let ?s = "sys_init p 1" let ?j = "job_of_hashes ex_req h" let ?c = "control_init p 1"
  have ctl: "ctl ?s = ?c" "pcs ?s 0 = Idle" by (simp_all add: sys_init_def)
  have r0: "ctl_run sha ex_diff ?s [Arrive 0 ex_req] (goto 0 (Hashed ?j) ?c ?s)"
    using ctl_run_one[OF ctl_step.arrive[OF ctl(2) h]] ctl(1) by simp
  obtain app c1 where e: "enter_change ?c (jb_req ?j) (jb_new ?j) (jb_mismatches ?j \<noteq> []) = (app, c1)" by force
  then have c1: "app = False" "cache c1 = []" "futures c1 = []" "policy c1 = p" "cache_size c1 = 1" "approved c1 = []"
    using enter_change_same[OF e] by (simp_all add: control_init_def is_approved_def)
  have "advance ex_diff ?c (Hashed ?j) = Some (Unapproved ?j, c1)" using e c1(1) by simp
  note r1 = run_alone[OF r0 this]
  obtain c2 where c2: "lookup_future c1 (jb_key ?j) = (Inr (0, True), c2)" "futures c2 = [Pending]"
      "policy c2 = p" "approved c2 = []" "cache c2 = [(jb_key ?j, 0)]"
    using c1 by (simp add: lookup_future_def)
  have "advance ex_diff c1 (Unapproved ?j) = Some (Running ?j 0, c2)" using c2(1) by simp
  note r2 = run_alone[OF r1 this]
  let ?a = "\<lparr>an_findings = [], an_severity = None\<rparr>" let ?c3 = "set_future 0 (Result ?a) c2"
  have "advance ex_diff c2 (Running ?j 0) = Some (Analysed ?j ?a False, ?c3)"
    using highest_severity_None[of "[]"] by (simp add: analyse_def ex_diff_def sort_findings_def Let_def)
  note r3 = run_alone[OF r2 this]
  have risk: "risk_class p (cr_server ex_req) (cr_tool ex_req) (cr_new_def ex_req) = S ''side_effecting''"
    using default_policy_examples(1)[OF p] by (simp add: risk_class_def derive_risk_class_def ex_req_def)
  have "advance ex_diff ?c3 (Analysed ?j ?a False)
      = Some (Finished ?j (Inr (Judged ?a (S ''resume'') (S ''side_effecting'') False)), ?c3)"
    using c2 risk default_policy_examples(2)[OF p] by (simp add: verdict_of_def severity_text_def Let_def job_of_hashes_def set_future_def
        conclude_def is_approved_def)
  note r4 = run_alone[OF r3 this]
  show ?thesis by (intro exI conjI, rule r4) (simp_all add: goto_def set_future_def c2(5))
qed

section \<open>Properties\<close>

text \<open>C4 Under any interleaving, a verdict is the policy's decision on an analysis that the differ
  made from definitions with the very hashes of the request: neither the cache, nor another
  request, nor the session can give a change a verdict it did not earn.\<close>

theorem control_verdict_sound:
  assumes "ctl_run sha diff (sys_init p n) ls s" and "0 \<le> n"
    and "pcs s i = Finished j (Inr (Judged a v risk hit))"
  shows "\<exists>req. compute_hashes sha req = compute_hashes sha (jb_req j)
           \<and> analyse diff (cr_tool req) (cr_old_def req) (cr_new_def req) = Inr a
           \<and> verdict_of p (jb_req j) a = Inr (v, risk)"
proof -
  obtain K where ok: "sys_ok sha diff K s" using ctl_reachable_ok[OF assms(1,2)] by blast
  have "answers sha diff (jb_key j) a" "verdict_of (policy (ctl s)) (jb_req j) a = Inr (v, risk)" "job_ok sha j"
    using sys_okD(1)[OF ok, of i] assms(3) by (simp_all add: pc_ok_def)
  moreover have "policy (ctl s) = p" using ctl_run_cache_bound[OF assms(1,2)] by simp
  ultimately show ?thesis by (auto simp: answers_def job_ok_def)
qed

theorem control_verdict_sound_witness:
  "\<exists>p (j :: job) a req. default_policy = Inr p \<and> compute_hashes id req = compute_hashes id (jb_req j)
     \<and> analyse ex_diff (cr_tool req) (cr_old_def req) (cr_new_def req) = Inr a
     \<and> verdict_of p (jb_req j) a = Inr (S ''resume'', S ''side_effecting'')"
proof -
  obtain p where p: "default_policy = Inr p" using default_policy_loads by blast
  from ex_run[OF p, of id] obtain ls s j a where r: "ctl_run id ex_diff (sys_init p 1) ls s"
    "pcs s 0 = Finished j (Inr (Judged a (S ''resume'') (S ''side_effecting'') False))" by blast
  from control_verdict_sound[OF r(1) _ r(2)] p show ?thesis by fastforce
qed

text \<open>C5 Single flight: of the threads that hold a cached change in their hands, at most one runs
  the differ; what the cache holds is either being computed by such a thread or a finished
  analysis, never a failure; and the cache stays within its size.\<close>

theorem control_single_flight:
  assumes "ctl_run sha diff (sys_init p n) ls s" and "0 \<le> n"
  shows "int (length (cache (ctl s))) \<le> n
    \<and> (\<forall>(key, fid) \<in> set (cache (ctl s)).
          (\<exists>a. futures (ctl s) ! fid = Result a) \<or> (\<exists>!i. owned (pcs s i) = Some fid))
    \<and> (\<forall>i i' j j' fid fid'. pcs s i = Running j fid \<longrightarrow> pcs s i' = Running j' fid' \<longrightarrow>
          jb_key j = jb_key j' \<longrightarrow> (jb_key j, fid) \<in> set (cache (ctl s)) \<longrightarrow>
          (jb_key j', fid') \<in> set (cache (ctl s)) \<longrightarrow> i = i')"
proof -
  obtain K where ok: "sys_ok sha diff K s" using ctl_reachable_ok[OF assms] by blast
  have "int (length (cache (ctl s))) \<le> n" using ctl_run_cache_bound[OF assms] by simp
  moreover have "(\<exists>a. futures (ctl s) ! fid = Result a) \<or> (\<exists>!i. owned (pcs s i) = Some fid)"
    if "(key, fid) \<in> set (cache (ctl s))" for key fid
  proof (cases "futures (ctl s) ! fid")
    case Pending
    with sys_okD(5)[OF ok that] sys_okD(3)[OF ok] sys_okD(2)[OF ok] show ?thesis by blast
  next
    case (Exception e)
    with sys_okD(5)[OF ok that] show ?thesis by simp
  qed simp
  moreover have "i = i'" if "(jb_key j, fid) \<in> set (cache (ctl s))" "(jb_key j', fid') \<in> set (cache (ctl s))"
      "pcs s i = Running j fid" "pcs s i' = Running j' fid'" "jb_key j = jb_key j'" for i i' j j' fid fid'
  proof -
    have "fid = fid'" using that(1,2,5) sys_okD(6)[OF ok] by (metis map_of_is_SomeI option.inject wf_dict_def)
    with sys_okD(2)[OF ok, of i fid i'] that(3,4) show ?thesis by simp
  qed
  ultimately show ?thesis by blast
qed

theorem control_single_flight_witness:
  "\<exists>p (s :: sys) key. default_policy = Inr p \<and> (key, 0) \<in> set (cache (ctl s)) \<and> int (length (cache (ctl s))) \<le> 1
     \<and> ((\<exists>a. futures (ctl s) ! 0 = Result a) \<or> (\<exists>!i. owned (pcs s i) = Some 0))"
proof -
  obtain p where p: "default_policy = Inr p" using default_policy_loads by blast
  from ex_run[OF p, of id] obtain ls s j where r: "ctl_run id ex_diff (sys_init p 1) ls s"
    "cache (ctl s) = [(jb_key j, 0)]" by blast
  have mem: "(jb_key j, 0) \<in> set (cache (ctl s))" by (simp add: r(2))
  have "int (length (cache (ctl s))) \<le> 1
      \<and> ((\<exists>a. futures (ctl s) ! 0 = Result a) \<or> (\<exists>!i. owned (pcs s i) = Some 0))"
    using control_single_flight[OF r(1)] mem by auto
  with p mem show ?thesis by blast
qed



text \<open>C6 No request hangs: from every reachable state, every request under way can be brought to
  its response by steps of its own and of the thread whose differ run it waits for.\<close>

theorem control_every_request_answered:
  assumes "ctl_run sha diff (sys_init p n) ls s" and "0 \<le> n" and "active_job (pcs s i) = Some j"
  shows "\<exists>ls' t j r. ctl_run sha diff s ls' t \<and> pcs t i = Finished j r"
proof -
  obtain K where "sys_ok sha diff K s" using ctl_reachable_ok[OF assms(1,2)] by blast
  from thread_finishes[OF this] assms(3) show ?thesis by (metis active_job.simps(8,9) option.distinct(1))
qed

theorem control_every_request_answered_witness:
  "\<exists>p (s :: sys) ls (t :: sys) j r. default_policy = Inr p \<and> pcs s 0 \<noteq> Idle \<and> pcs s 0 \<noteq> Finished j r
     \<and> ctl_run id ex_diff s ls t \<and> pcs t 0 = Finished j r"
proof -
  obtain p where p: "default_policy = Inr p" using default_policy_loads by blast
  obtain h where h: "compute_hashes id ex_req = Inr h" using ex_hashes by blast
  let ?j = "job_of_hashes ex_req h" let ?s = "goto 0 (Hashed ?j) (ctl (sys_init p 1)) (sys_init p 1)"
  have "ctl_run id ex_diff (sys_init p 1) [Arrive 0 ex_req] ?s"
    by (rule ctl_run_one[OF ctl_step.arrive[OF _ h]]) (simp add: sys_init_def)
  from control_every_request_answered[OF this, of 0 ?j] obtain ls t j r where
    "ctl_run id ex_diff ?s ls t" "pcs t 0 = Finished j r" by (auto simp: goto_def)
  moreover have "pcs ?s 0 = Hashed ?j" by (simp add: goto_def)
  ultimately show ?thesis using p
    by (intro exI[of _ p] exI[of _ ?s] exI[of _ ls] exI[of _ t] exI[of _ j] exI[of _ r]) simp
qed

text \<open>C17 The sections that the threads interleave are those of the operation: the response and the
  state of \<open>evaluate_change\<close> run alone are those of a run of the thread system in which one
  thread takes all the steps.\<close>

theorem control_sections_refine:
  assumes "pcs s i = Idle" and "evaluate_change pr sha diff (ctl s) req = (Some r, c')"
  shows "\<exists>ls q. ctl_run sha diff s ls (goto i q c' s) \<and> pc_response pr q = Some r"
  using evaluate_change_alone[OF assms] .

theorem control_sections_refine_witness:
  "\<exists>p ls q. default_policy = Inr p \<and> pc_response (\<lambda>_. True) q = Some (Inl (Bad (CannotHash KeyError)))
     \<and> ctl_run id ex_diff (sys_init p 1) ls (goto 0 q (control_init p 1) (sys_init p 1))"
proof -
  obtain p where p: "default_policy = Inr p" using default_policy_loads by blast
  have init: "ctl (sys_init p 1) = control_init p 1" "pcs (sys_init p 1) 0 = Idle" by (simp_all add: sys_init_def)
  have "evaluate_change (\<lambda>_. True) id ex_diff (control_init p 1) (ex_req\<lparr>cr_new_def := []\<rparr>)
      = (Some (Inl (Bad (CannotHash KeyError))), control_init p 1)"
  proof -
    obtain h where "tool_hash id (cr_old_def ex_req) = Inr h"
      using ex_hashes[of id] by (auto simp: compute_hashes_def bindE_def split: sum.splits if_splits)
    then have "compute_hashes id (ex_req\<lparr>cr_new_def := []\<rparr>) = Inl (Bad (CannotHash KeyError))"
      by (simp add: compute_hashes_def tool_hash_def normalize_tool_def)
    then show ?thesis by (simp add: evaluate_change_def)
  qed
  from control_sections_refine[OF init(2), unfolded init(1), OF this] p show ?thesis by blast
qed

end
