(* ===== verification/Control_Http.thy ===== *)
theory Control_Http
  imports Control_Safety
begin

text \<open>
  The HTTP transport (\<open>control/http_api.py\<close>) and the start-up (\<open>control/__main__.py\<close>). The server
  library is outside: a request is its method, path, content length and what \<open>json.loads\<close>
  makes of the bytes read; a response is a status and a body. \<open>now\<close> is the time stamp an
  approval gets.
\<close>

section \<open>Requests and responses\<close>

datatype http_method = GET | POST | PUT | DELETE | PATCH

text \<open>\<open>hr_length\<close> is \<open>int(Content-Length)\<close>, \<open>None\<close> if that raises; a missing header is 0.\<close>

record http_request =
  hr_method :: http_method
  hr_path :: pystr
  hr_length :: "int option"
  hr_json :: "nat \<Rightarrow> pyexc + json"

datatype http_body = Answer json | NoRoute pystr | Malformed bad_request | Internal | NotAllowed

definition max_body_bytes :: int where "max_body_bytes = 8 * 1024 * 1024"

text \<open>Of what \<open>json.loads\<close> raises only \<open>JSONDecodeError\<close> and \<open>UnicodeDecodeError\<close> are caught: an integer of
  too many digits is a plain \<open>ValueError\<close>, deep nesting a \<open>RecursionError\<close>.\<close>

definition read_json :: "http_request \<Rightarrow> control_error + json" where
  "read_json req =
     (case hr_length req of
        None \<Rightarrow> Inl (Bad BadLength)
      | Some n \<Rightarrow>
          if n > max_body_bytes then Inl (Bad BodyTooLarge)
          else (case hr_json req (nat n) of
                  Inl e \<Rightarrow> if e \<in> {JSONDecodeError, UnicodeDecodeError} then Inl (Bad InvalidJson) else Inl (Raised e)
                | Inr v \<Rightarrow> Inr v))"

type_synonym handler = "control \<Rightarrow> (control_error + json) option \<times> control"

text \<open>\<open>_dispatch\<close>; \<open>None\<close>: the handler does not return.\<close>

definition route_path :: "pystr \<Rightarrow> pystr" where
  "route_path p = takeWhile (\<lambda>c. c \<noteq> 63) p"

definition dispatch ::
  "(pystr \<times> handler) list \<Rightarrow> http_request \<Rightarrow> control \<Rightarrow> (nat \<times> http_body) option \<times> control" where
  "dispatch routes req c =
     (case map_of routes (route_path (hr_path req)) of
        None \<Rightarrow> (Some (404, NoRoute (hr_path req)), c)
      | Some handler \<Rightarrow>
          (case handler c of
             (None, c1) \<Rightarrow> (None, c1)
           | (Some (Inl (Bad b)), c1) \<Rightarrow> (Some (400, Malformed b), c1)
           | (Some (Inl (Raised e)), c1) \<Rightarrow> (Some (500, Internal), c1)
           | (Some (Inr body), c1) \<Rightarrow> (Some (200, Answer body), c1)))"

definition get_routes :: "(pystr \<times> handler) list" where
  "get_routes =
     [(S ''/quarantine'', \<lambda>c. (Some (Inr (JDict [(S ''quarantine'', quarantine_list c)])), c)),
      (S ''/healthz'', \<lambda>c. (Some (Inr (JDict [(S ''ok'', JBool True)])), c)),
      (S ''/stats'', \<lambda>c. (Some (Inr (JDict (stats_body c))), c))]"

definition changes_handler ::
  "(nat \<Rightarrow> bool) \<Rightarrow> (nat list \<Rightarrow> pystr) \<Rightarrow> diff_fn \<Rightarrow> http_request \<Rightarrow> handler" where
  "changes_handler pr sha diff req c =
     (case bindE (read_json req) parse_change_request of
        Inl e \<Rightarrow> (Some (Inl e), c)
      | Inr ch \<Rightarrow> map_prod (map_option (map_sum id JDict)) id (evaluate_change pr sha diff c ch))"

definition approve_handler :: "pystr \<Rightarrow> http_request \<Rightarrow> handler" where
  "approve_handler now req c =
     (case read_json req of
        Inl e \<Rightarrow> (Some (Inl e), c)
      | Inr body \<Rightarrow> map_prod (\<lambda>r. Some (map_sum id JDict r)) id (approve now c body))"

definition post_routes ::
  "(nat \<Rightarrow> bool) \<Rightarrow> (nat list \<Rightarrow> pystr) \<Rightarrow> diff_fn \<Rightarrow> pystr \<Rightarrow> http_request \<Rightarrow> (pystr \<times> handler) list" where
  "post_routes pr sha diff now req =
     [(S ''/changes'', changes_handler pr sha diff req),
      (S ''/baselines/approve'', approve_handler now req)]"

definition serve ::
  "(nat \<Rightarrow> bool) \<Rightarrow> (nat list \<Rightarrow> pystr) \<Rightarrow> diff_fn \<Rightarrow> pystr \<Rightarrow> control \<Rightarrow> http_request \<Rightarrow>
   (nat \<times> http_body) option \<times> control" where
  "serve pr sha diff now c req =
     (case hr_method req of
        GET \<Rightarrow> dispatch get_routes req c
      | POST \<Rightarrow> dispatch (post_routes pr sha diff now req) req c
      | _ \<Rightarrow> (Some (405, NotAllowed), c))"

text \<open>Start-up: exit status 2 for a bad policy file, otherwise the service; any other exception
  escapes. \<open>file\<close> is the parsed policy file when one is named.\<close>

definition control_main :: "(pyexc + json) option \<Rightarrow> pyexc + (int + control)" where
  "control_main file =
     (case (case file of Some parsed \<Rightarrow> policy_from_file parsed | None \<Rightarrow> default_policy) of
        Inl e \<Rightarrow> if e = PolicyError \<or> e = OSError then Inr (Inl 2) else Inl e
      | Inr p \<Rightarrow> Inr (Inr (control_init p 4096)))"

section \<open>A server alone: no pending future, no failure in the cache\<close>

definition seq_ok :: "control \<Rightarrow> bool" where
  "seq_ok c \<longleftrightarrow> policy_ok (policy c) \<and> 0 \<le> cache_size c \<and> wf_dict (cache c) \<and> finite (quarantine c)
     \<and> (\<forall>(key, fid) \<in> set (cache c). fid < length (futures c) \<and> (\<exists>a. futures c ! fid = Result a))"

lemma seq_ok_init: "policy_ok p \<Longrightarrow> 0 \<le> n \<Longrightarrow> seq_ok (control_init p n)"
  by (simp add: seq_ok_def control_init_def)

lemma enter_change_seq_ok: "seq_ok c \<Longrightarrow> enter_change c req nh m = (app, c1) \<Longrightarrow> seq_ok c1"
  by (drule enter_change_same) (simp add: seq_ok_def)

lemma conclude_seq_ok: "seq_ok c \<Longrightarrow> conclude c req nh v = (app, c1) \<Longrightarrow> seq_ok c1"
  by (auto simp: seq_ok_def conclude_def split: if_splits)

lemma canonical_json_error: "canonical_json a = Inl e \<Longrightarrow> e = ValueError"
  using canonical_portable[of a] by (auto split: if_splits)

lemma normalize_schema_error: "normalize_schema a = Inl e \<Longrightarrow> e = ValueError"
proof (induction a arbitrary: e)
  case (JList xs)
  have "mapE normalize_schema xs = Inl x \<Longrightarrow> x = ValueError" for x
    using JList.IH by (induction xs) (auto simp: bindE_eq_Inl)
  with JList.prems show ?case by (auto simp: bindE_eq_Inl)
next
  case (JDict d)
  define d' where "d' = filter (\<lambda>(k, v). k \<noteq> S ''$comment'') d"
  have sub: "set d' \<subseteq> set d" by (auto simp: d'_def)
  have ent: "mapE norm_entry d' = Inl x \<Longrightarrow> x = ValueError" for x
    using sub
  proof (induction d')
    case (Cons p d')
    obtain k v where p: "p = (k, v)" by force
    have "norm_entry p = Inl x \<Longrightarrow> x = ValueError"
      using JDict.IH[of p v x] Cons.prems(2) p by (auto simp: norm_entry_def bindE_eq_Inl)
    with Cons show ?case by (auto simp: bindE_eq_Inl)
  qed simp
  have req: "norm_required out = Inl x \<Longrightarrow> x = ValueError" for out x
    by (auto simp: norm_required_def sort_required_def bindE_eq_Inl split: option.splits json.splits if_splits)
  from JDict.prems show ?case unfolding normalize_JDict d'_def[symmetric]
    using ent req by (auto simp: bindE_eq_Inl)
qed simp_all

lemma tool_hash_error:
  assumes "tool_hash sha tool = Inl e"
  shows "e = KeyError \<or> e = ValueError"
proof -
  have opt: "mapE (\<lambda>k. bindE (normalize_schema (f k)) (\<lambda>v. Inr (k, v))) ks = Inl x \<Longrightarrow> x = ValueError"
    for f :: "pystr \<Rightarrow> json" and ks x
    using normalize_schema_error by (induction ks) (auto simp: bindE_eq_Inl)
  have "normalize_tool tool = Inl x \<Longrightarrow> x = KeyError \<or> x = ValueError" for x
    using normalize_schema_error opt
    by (auto simp: normalize_tool_def bindE_eq_Inl Let_def simp del: dict_get.simps split: option.splits)
  with assms canonical_json_error show ?thesis
    by (auto simp: tool_hash_def sha256_hex_def bindE_eq_Inl)
qed

lemma compute_hashes_not_raised: "compute_hashes sha req \<noteq> Inl (Raised x)"
proof (cases "bindE (tool_hash sha (cr_old_def req)) (\<lambda>oh.
           bindE (tool_hash sha (cr_new_def req)) (\<lambda>nh. Inr (oh, nh)))")
  case (Inl e)
  then have "e = KeyError \<or> e = ValueError" using tool_hash_error by (auto simp: bindE_eq_Inl)
  with Inl show ?thesis by (auto simp: compute_hashes_def)
qed (simp add: compute_hashes_def)

lemma cached_analysis_seq_ok:
  assumes ok: "seq_ok c" and ca: "cached_analysis diff c key req = (r, c')"
  shows "seq_ok c' \<and> quarantine c' = quarantine c \<and> approved c' = approved c \<and> policy c' = policy c
    \<and> ((\<exists>a hit. r = Some (Inr (a, hit)))
      \<or> (\<exists>e. r = Some (Inl e) \<and> analyse diff (cr_tool req) (cr_old_def req) (cr_new_def req) = Inl e))"
proof -
  have wf: "wf_dict (cache c)" and size: "0 \<le> cache_size c" using ok by (simp_all add: seq_ok_def)
  have old: "fid < length (futures c) \<and> (\<exists>a. futures c ! fid = Result a)" if "(k, fid) \<in> set (cache c)" for k fid
    using ok that by (auto simp: seq_ok_def)
  obtain fo c1 where look: "lookup_future c key = (fo, c1)" by force
  note keep = lookup_future_keeps[OF look]
  show ?thesis
  proof (cases "map_of (cache c) key")
    case None
    note m = lookup_miss[OF None size look]
    show ?thesis
    proof (cases "analyse diff (cr_tool req) (cr_old_def req) (cr_new_def req)")
      case (Inr a)
      have eq: "r = Some (Inr (a, False))" "c' = set_future (length (futures c)) (Result a) c1"
        using ca look m(1) Inr by (simp_all add: cached_analysis_def)
      have "fid < Suc (length (futures c)) \<and> (\<exists>a'. (futures c @ [Result a]) ! fid = Result a')"
        if "(k, fid) \<in> set (cache c1)" for k fid
        using m(5) that old by (fastforce simp: nth_append)
      then have "seq_ok c'" using ok m(2,3,4) m(6)[OF wf] keep unfolding eq
        by (auto simp: seq_ok_def set_future_def)
      moreover have "quarantine c' = quarantine c \<and> approved c' = approved c \<and> policy c' = policy c"
        using eq(2) keep m(3) by (simp add: set_future_def)
      moreover have "\<exists>a hit. r = Some (Inr (a, hit))" using eq(1) by blast
      ultimately show ?thesis by blast
    next
      case (Inl e)
      have eq: "r = Some (Inl e)" "c' = set_future (length (futures c)) (Exception e) (forget_key key c1)"
        using ca look m(1) Inl by (simp_all add: cached_analysis_def)
      have "fid < Suc (length (futures c)) \<and> (\<exists>a'. (futures c @ [Exception e]) ! fid = Result a')"
        if "(k, fid) \<in> set (AList.delete key (cache c1))" for k fid
        using m(5) that old by (fastforce simp: set_delete nth_append)
      then have "seq_ok c'" using ok m(2,3,4) m(6)[OF wf] keep unfolding eq
        by (auto simp: seq_ok_def set_future_def forget_key_def)
      then show ?thesis using eq keep m(3) Inl by (simp add: set_future_def forget_key_def)
    qed
  next
    case (Some fid)
    note h = lookup_hit[OF Some look]
    obtain b where b: "futures c ! fid = Result b"
      using old map_of_SomeD[OF Some] by blast
    then have eq: "r = Some (Inr (b, True))" "c' = c1"
      using ca look h(1,2) by (simp_all add: cached_analysis_def)
    from ok h(2-4) h(5,6)[OF wf] keep have "seq_ok c' \<and> quarantine c' = quarantine c \<and> approved c' = approved c \<and> policy c' = policy c"
      unfolding eq by (simp add: seq_ok_def)
    moreover have "\<exists>a hit. r = Some (Inr (a, hit))" using eq(1) by blast
    ultimately show ?thesis by blast
  qed
qed

text \<open>The outcome of a change for a server alone. Only a differ that raises makes it raise, and then
  neither the approvals nor the quarantine have changed.\<close>

lemma evaluate_change_seq:
  assumes ok: "seq_ok c" and ev: "evaluate_change pr sha diff c req = (r, c')"
  shows "seq_ok c' \<and> approved c' = approved c \<and> r \<noteq> None \<and> (\<forall>b. r = Some (Inl (Bad b)) \<longrightarrow> c' = c)
       \<and> (\<forall>e. r = Some (Inl (Raised e)) \<longrightarrow> quarantine c' = quarantine c \<and> diff (cr_tool req) (cr_old_def req) (cr_new_def req) = Inl e)
       \<and> (\<forall>body. r = Some (Inr body) \<longrightarrow> map_of body (S ''verdict'') = Some (JStr (S ''quarantine'')) \<longrightarrow>
            subject req \<in> quarantine c')"
proof (cases "compute_hashes sha req")
  case (Inl e)
  then have "r = Some (Inl e)" "c' = c" using ev by (simp_all add: evaluate_change_def)
  with ok Inl compute_hashes_not_raised[of sha req] show ?thesis by auto
next
  case (Inr h)
  obtain oh nh where h: "h = (oh, nh)" by force
  define mm where "mm = check_hashes req oh nh"
  obtain app c1 where e1: "enter_change c req nh (mm \<noteq> []) = (app, c1)" by force
  note s1 = enter_change_same[OF e1] and ok1 = enter_change_seq_ok[OF ok e1]
  have resume: "map_of (approved_body pr mm) (S ''verdict'') = Some (JStr (S ''resume''))"
    by (simp add: approved_body_def response_body_def Let_def update_conv')
  show ?thesis
  proof (cases app)
    case True
    then have "r = Some (Inr (approved_body pr mm))" "c' = c1"
      using ev Inr h e1 by (simp_all add: evaluate_change_def Let_def mm_def)
    with ok1 s1 resume show ?thesis by simp
  next
    case False
    obtain x c2 where ca: "cached_analysis diff c1 (oh, nh) req = (x, c2)" by force
    from cached_analysis_seq_ok[OF ok1 ca] have c2: "seq_ok c2" "quarantine c2 = quarantine c1"
        "approved c2 = approved c1" "policy c2 = policy c1"
      and x: "(\<exists>a hit. x = Some (Inr (a, hit)))
        \<or> (\<exists>e. x = Some (Inl e) \<and> analyse diff (cr_tool req) (cr_old_def req) (cr_new_def req) = Inl e)"
      by blast+
    from x show ?thesis
    proof (elim disjE exE conjE)
      fix e
      assume e: "x = Some (Inl e)" "analyse diff (cr_tool req) (cr_old_def req) (cr_new_def req) = Inl e"
      then have "r = Some (Inl (Raised e))" "c' = c2"
        using ev Inr h e1 False ca by (simp_all add: evaluate_change_def Let_def mm_def)
      with e(2) c2 s1 show ?thesis by (auto simp: analyse_def bindE_eq_Inl Let_def)
    next
      fix a hit
      assume x: "x = Some (Inr (a, hit))"
      define risk where "risk = risk_class (policy c2) (cr_server req) (cr_tool req) (cr_new_def req)"
      have "severity_text (an_severity a) \<in> set severities"
        by (auto simp: severity_text_def severity_name_def severities_def split: option.splits severity.splits)
      then obtain v where v: "decide (policy c2) (severity_text (an_severity a)) risk = Inr v"
        using c2(1) risk_class_ok unfolding seq_ok_def policy_ok_def risk_def by blast
      obtain app2 c3 where con: "conclude c2 req nh v = (app2, c3)" by force
      have verdict: "map_of (verdict_body pr a v risk hit mm) (S ''verdict'') = Some (JStr v)"
        by (simp add: verdict_body_def response_body_def Let_def update_conv')
      have eq: "r = Some (Inr (if app2 then approved_body pr mm else verdict_body pr a v risk hit mm))" "c' = c3"
        using ev Inr h e1 False ca x v con
        by (auto simp: evaluate_change_def Let_def mm_def verdict_of_def risk_def split: if_splits)
      have "v = S ''quarantine'' \<Longrightarrow> \<not> app2 \<Longrightarrow> subject req \<in> quarantine c3"
        using con by (auto simp: conclude_def split: if_splits)
      with eq conclude_seq_ok[OF c2(1) con] conclude_same[OF con] c2(3) s1 resume verdict
      show ?thesis by auto
    qed
  qed
qed

section \<open>Sessions of requests\<close>

text \<open>The two ways to an internal error: an exception of \<open>json.loads\<close> that \<open>_read_json\<close> does not catch, and
  an exception of the differ on the change that was reported.\<close>

definition json_escapes :: "http_request \<Rightarrow> bool" where
  "json_escapes req \<longleftrightarrow> hr_method req = POST \<and> route_path (hr_path req) \<in> {S ''/changes'', S ''/baselines/approve''}
     \<and> (\<exists>n e. hr_length req = Some n \<and> n \<le> max_body_bytes \<and> hr_json req (nat n) = Inl e
          \<and> e \<noteq> JSONDecodeError \<and> e \<noteq> UnicodeDecodeError)"

definition differ_raises :: "diff_fn \<Rightarrow> http_request \<Rightarrow> bool" where
  "differ_raises diff req \<longleftrightarrow> hr_method req = POST \<and> route_path (hr_path req) = S ''/changes''
     \<and> (\<exists>ch e. bindE (read_json req) parse_change_request = Inr ch
          \<and> diff (cr_tool ch) (cr_old_def ch) (cr_new_def ch) = Inl e)"

lemma read_json_raised:
  "read_json req = Inl (Raised e) \<longleftrightarrow> (\<exists>n. hr_length req = Some n \<and> n \<le> max_body_bytes \<and> hr_json req (nat n) = Inl e
     \<and> e \<noteq> JSONDecodeError \<and> e \<noteq> UnicodeDecodeError)"
  by (auto simp: read_json_def split: option.splits sum.splits)

lemma approve_facts:
  assumes "approve now c payload = (r, c')"
  shows "seq_ok c \<Longrightarrow> seq_ok c'" and "\<exists>x. r = Inr x \<or> (\<exists>b. r = Inl (Bad b) \<and> c' = c)"
proof -
  have req: "require_str p k e \<noteq> Inl (Raised x)" for p k e x
    by (auto simp: require_str_def split: option.splits json.splits if_splits)
  have opt: "optional_str p k \<noteq> Inl (Raised x)" for p k x
    by (auto simp: optional_str_def split: json.splits)
  have "parse_approval payload \<noteq> Inl (Raised x)" for x
    using req opt by (auto simp: parse_approval_def bindE_eq_Inl split: json.splits if_splits)
  then have "r = Inl e \<Longrightarrow> c' = c \<and> (\<exists>b. e = Bad b)" for e
    using assms by (cases e) (auto simp: approve_def split: sum.splits prod.splits)
  then show "\<exists>x. r = Inr x \<or> (\<exists>b. r = Inl (Bad b) \<and> c' = c)" by (cases r) auto
  show "seq_ok c \<Longrightarrow> seq_ok c'"
    using assms by (auto simp: approve_def set_approved_def seq_ok_def split: sum.splits prod.splits)
qed

lemma parse_change_not_raised: "parse_change_request body \<noteq> Inl (Raised x)"
proof -
  have req: "require_str p k e \<noteq> Inl (Raised x)" for p k e x
    by (auto simp: require_str_def split: option.splits json.splits if_splits)
  then show ?thesis
    by (auto simp: parse_change_request_def bindE_eq_Inl split: json.splits option.splits if_splits)
qed

text \<open>What one handler and one request may do.\<close>

lemma changes_facts:
  assumes ok: "seq_ok c" and h: "changes_handler pr sha diff req c = (x, c1)"
  shows "seq_ok c1 \<and> ((\<exists>b. x = Some (Inl (Bad b)) \<and> c1 = c) \<or> (\<exists>v. x = Some (Inr v))
    \<or> (\<exists>e. x = Some (Inl (Raised e)) \<and> read_json req = Inl (Raised e) \<and> c1 = c)
    \<or> (\<exists>e ch. x = Some (Inl (Raised e)) \<and> bindE (read_json req) parse_change_request = Inr ch
        \<and> diff (cr_tool ch) (cr_old_def ch) (cr_new_def ch) = Inl e \<and> approved c1 = approved c \<and> quarantine c1 = quarantine c))"
proof (cases "bindE (read_json req) parse_change_request")
  case (Inl e)
  then have "(\<exists>b. e = Bad b) \<or> (\<exists>x. e = Raised x \<and> read_json req = Inl (Raised x))"
    using parse_change_not_raised by (cases e) (auto simp: bindE_eq_Inl)
  with h Inl ok show ?thesis by (auto simp: changes_handler_def)
next
  case (Inr ch)
  obtain y c2 where ev: "evaluate_change pr sha diff c ch = (y, c2)" by force
  note f = evaluate_change_seq[OF ok ev]
  have eq: "x = map_option (map_sum id JDict) y" "c1 = c2"
    using h Inr ev by (simp_all add: changes_handler_def)
  from f obtain z where y: "y = Some z" by blast
  show ?thesis
  proof (cases z)
    case (Inl e)
    with f y eq Inr show ?thesis by (cases e) auto
  next
    case (Inr v)
    with f y eq show ?thesis by auto
  qed
qed

lemma approve_handler_facts:
  assumes ok: "seq_ok c" and h: "approve_handler now req c = (x, c1)"
  shows "seq_ok c1 \<and> ((\<exists>b. x = Some (Inl (Bad b)) \<and> c1 = c) \<or> (\<exists>v. x = Some (Inr v))
    \<or> (\<exists>e. x = Some (Inl (Raised e)) \<and> read_json req = Inl (Raised e) \<and> c1 = c))"
proof (cases "read_json req")
  case (Inl e)
  with h ok show ?thesis by (cases e) (auto simp: approve_handler_def)
next
  case (Inr body)
  obtain y c2 where ap: "approve now c body = (y, c2)" by force
  with approve_facts[OF ap] h Inr ok show ?thesis by (auto simp: approve_handler_def)
qed

lemma serve_facts:
  assumes ok: "seq_ok c" and sv: "serve pr sha diff now c req = (r, c')"
  shows "seq_ok c' \<and> (\<exists>st body. r = Some (st, body) \<and> st \<in> {200, 400, 404, 405, 500}
      \<and> (st \<notin> {200, 500} \<longrightarrow> c' = c)
      \<and> (st = 500 \<longrightarrow> (json_escapes req \<and> c' = c)
          \<or> (differ_raises diff req \<and> approved c' = approved c \<and> quarantine c' = quarantine c))
      \<and> (json_escapes req \<longrightarrow> st = 500))"
proof (cases "hr_method req")
  case POST
  consider (changes) "route_path (hr_path req) = S ''/changes''"
    | (approve) "route_path (hr_path req) = S ''/baselines/approve''" "route_path (hr_path req) \<noteq> S ''/changes''"
    | (other) "map_of (post_routes pr sha diff now req) (route_path (hr_path req)) = None"
      "route_path (hr_path req) \<notin> {S ''/changes'', S ''/baselines/approve''}"
    by (auto simp: post_routes_def)
  then show ?thesis
  proof cases
    case changes
    obtain x c1 where h: "changes_handler pr sha diff req c = (x, c1)" by force
    have esc: "json_escapes req \<longleftrightarrow> (\<exists>e. read_json req = Inl (Raised e))"
      using POST changes unfolding json_escapes_def read_json_raised by blast
    have raised: "x = Some (Inl (Raised e))" if "read_json req = Inl (Raised e)" for e
      using h that by (simp add: changes_handler_def)
    have sv': "(r, c') = (case (x, c1) of (None, c1) \<Rightarrow> (None, c1)
           | (Some (Inl (Bad b)), c1) \<Rightarrow> (Some (400, Malformed b), c1)
           | (Some (Inl (Raised e)), c1) \<Rightarrow> (Some (500, Internal), c1)
           | (Some (Inr body), c1) \<Rightarrow> (Some (200, Answer body), c1))"
      using sv POST changes h by (simp add: serve_def dispatch_def post_routes_def)
    from changes_facts[OF ok h] sv' raised show ?thesis
      unfolding esc differ_raises_def using POST changes by (elim conjE disjE exE) auto
  next
    case approve
    obtain x c1 where h: "approve_handler now req c = (x, c1)" by force
    have esc: "json_escapes req \<longleftrightarrow> (\<exists>e. read_json req = Inl (Raised e))"
      using POST approve unfolding json_escapes_def read_json_raised by blast
    have raised: "x = Some (Inl (Raised e))" if "read_json req = Inl (Raised e)" for e
      using h that by (simp add: approve_handler_def)
    have sv': "(r, c') = (case (x, c1) of (None, c1) \<Rightarrow> (None, c1)
           | (Some (Inl (Bad b)), c1) \<Rightarrow> (Some (400, Malformed b), c1)
           | (Some (Inl (Raised e)), c1) \<Rightarrow> (Some (500, Internal), c1)
           | (Some (Inr body), c1) \<Rightarrow> (Some (200, Answer body), c1))"
      using sv POST approve h by (simp add: serve_def dispatch_def post_routes_def)
    from approve_handler_facts[OF ok h] sv' raised show ?thesis
      unfolding esc by (elim conjE disjE exE) auto
  next
    case other
    have "\<not> json_escapes req" using other(2) by (simp add: json_escapes_def)
    then show ?thesis using sv POST ok other(1) by (auto simp: serve_def dispatch_def)
  qed
qed (use sv ok in \<open>auto simp: serve_def dispatch_def get_routes_def json_escapes_def split: if_splits\<close>)

definition serve_all ::
  "(nat \<Rightarrow> bool) \<Rightarrow> (nat list \<Rightarrow> pystr) \<Rightarrow> diff_fn \<Rightarrow> control \<Rightarrow> (http_request \<times> pystr) list \<Rightarrow>
   (nat \<times> http_body) option list \<times> control" where
  "serve_all pr sha diff = run_ops (\<lambda>c (req, now). serve pr sha diff now c req)"

lemma quarantine_listed:
  assumes "finite (quarantine c)" and "(s, t) \<in> quarantine c"
  shows "\<exists>xs. quarantine_list c = JList xs \<and> JDict [(S ''server'', JStr s), (S ''tool'', JStr t)] \<in> set xs"
proof -
  have "(s, t) \<in> set (sorted_list_of_set (quarantine c))" using assms by simp
  then have "JDict [(S ''server'', JStr s), (S ''tool'', JStr t)] \<in>
      set (map (\<lambda>(s, t). JDict [(S ''server'', JStr s), (S ''tool'', JStr t)]) (sorted_list_of_set (quarantine c)))"
    by (force simp: image_iff)
  then show ?thesis by (simp add: quarantine_list_def)
qed

section \<open>Properties\<close>

text \<open>Every session leaves the server in order.\<close>

lemma serve_all_ok:
  "seq_ok c \<Longrightarrow> serve_all pr sha diff c reqs = (rs, c') \<Longrightarrow> seq_ok c'"
proof (induction reqs arbitrary: c rs)
  case (Cons rq reqs)
  obtain req now where rq: "rq = (req, now)" by force
  obtain r c1 where sv: "serve pr sha diff now c req = (r, c1)" by force
  obtain rs' c2 where rest: "serve_all pr sha diff c1 reqs = (rs', c2)" by force
  have "c' = c2" using Cons.prems(2) sv rest rq by (simp add: serve_all_def)
  with Cons.IH[of c1 rs'] rest serve_facts[OF Cons.prems(1) sv] show ?case by simp
qed (simp add: serve_all_def)

lemma loaded_ok: "policy_from_file parsed = Inr p \<Longrightarrow> 0 \<le> n \<Longrightarrow> seq_ok (control_init p n)"
  by (rule seq_ok_init) (auto simp: policy_from_file_def policy_from_dict_ok split: sum.splits json.splits if_splits)

text \<open>C15 A server whose policy file has loaded answers every request of every session: 200, or 400 for a malformed
  request, 404 for an unknown path, 405 for a wrong method, and 500. An internal error has one of two causes:
  \<open>json.loads\<close> raised something else than the two decode errors on a body of admissible length (an integer of
  too many digits), which always gives 500, or the differ raised on the two definitions that were reported.\<close>

theorem http_internal_errors:
  assumes "policy_from_file parsed = Inr p" and "0 \<le> n"
    and "serve_all pr sha diff (control_init p n) reqs = (rs, c)"
  shows "list_all2 (\<lambda>(req, now) r. \<exists>st body. r = Some (st, body) \<and> st \<in> {200, 400, 404, 405, 500}
      \<and> (json_escapes req \<longrightarrow> st = 500) \<and> (st = 500 \<longrightarrow> json_escapes req \<or> differ_raises diff req)) reqs rs"
proof -
  have "list_all2 (\<lambda>(req, now) r. \<exists>st body. r = Some (st, body) \<and> st \<in> {200, 400, 404, 405, 500}
      \<and> (json_escapes req \<longrightarrow> st = 500) \<and> (st = 500 \<longrightarrow> json_escapes req \<or> differ_raises diff req)) reqs rs"
    if "seq_ok c0" "serve_all pr sha diff c0 reqs = (rs, c)" for c0
    using that
  proof (induction reqs arbitrary: c0 rs)
    case (Cons rq reqs)
    obtain req now where rq: "rq = (req, now)" by force
    obtain r c1 where sv: "serve pr sha diff now c0 req = (r, c1)" by force
    obtain rs' c2 where rest: "serve_all pr sha diff c1 reqs = (rs', c2)" by force
    have eq: "rs = r # rs'" "c = c2"
      using Cons.prems(2) sv rest rq by (simp_all add: serve_all_def)
    from serve_facts[OF Cons.prems(1) sv] have r: "seq_ok c1"
      "\<exists>st body. r = Some (st, body) \<and> st \<in> {200, 400, 404, 405, 500}
        \<and> (json_escapes req \<longrightarrow> st = 500) \<and> (st = 500 \<longrightarrow> json_escapes req \<or> differ_raises diff req)" by blast+
    from Cons.IH[OF r(1)] rest eq r(2) rq show ?case by simp
  qed (simp add: serve_all_def)
  then show ?thesis using loaded_ok[OF assms(1,2)] assms(3) by blast
qed

definition ex_http :: "http_method \<Rightarrow> string \<Rightarrow> pyexc + json \<Rightarrow> http_request" where
  "ex_http m path v = \<lparr>hr_method = m, hr_path = S path, hr_length = Some 0, hr_json = (\<lambda>_. v)\<rparr>"

lemma sample_policy: "\<exists>p. default_policy = Inr p \<and> policy_from_file (Inr (JDict default_policy_json)) = Inr p"
  using default_policy_loads by (auto simp: policy_from_file_def default_policy_def)

text \<open>No body, an integer of too many digits, an unknown path.\<close>

theorem http_internal_errors_witness:
  "\<exists>p c r1 r2 r3. default_policy = Inr p
     \<and> serve_all (\<lambda>_. True) id ex_diff (control_init p 1)
         [(ex_http POST ''/changes'' (Inl JSONDecodeError), []), (ex_http POST ''/changes'' (Inl ValueError), []),
          (ex_http GET ''/x'' (Inl JSONDecodeError), [])] = ([r1, r2, r3], c)
     \<and> (\<exists>st b. r1 = Some (st, b) \<and> st \<noteq> 500) \<and> (\<exists>b. r2 = Some (500, b)) \<and> (\<exists>st b. r3 = Some (st, b) \<and> st \<noteq> 500)"
proof -
  obtain p where p: "default_policy = Inr p" "policy_from_file (Inr (JDict default_policy_json)) = Inr p"
    using sample_policy by blast
  let ?reqs = "[(ex_http POST ''/changes'' (Inl JSONDecodeError), []), (ex_http POST ''/changes'' (Inl ValueError), []),
          (ex_http GET ''/x'' (Inl JSONDecodeError), [])]"
  obtain rs c where sv: "serve_all (\<lambda>_. True) id ex_diff (control_init p 1) ?reqs = (rs, c)" by force
  have path: "route_path (S ''/changes'') = S ''/changes''" by (simp add: route_path_def S_def)
  have esc: "json_escapes (ex_http POST ''/changes'' (Inl ValueError))" "\<not> json_escapes (ex_http POST ''/changes'' (Inl JSONDecodeError))"
      "\<not> json_escapes (ex_http GET ''/x'' (Inl JSONDecodeError))"
    by (simp_all add: json_escapes_def ex_http_def max_body_bytes_def path)
  have "\<not> differ_raises ex_diff r" for r by (simp add: differ_raises_def ex_diff_def)
  with http_internal_errors[OF p(2) _ sv] esc obtain r1 r2 r3 where "rs = [r1, r2, r3]"
      "\<exists>st b. r1 = Some (st, b) \<and> st \<noteq> 500" "\<exists>b. r2 = Some (500, b)" "\<exists>st b. r3 = Some (st, b) \<and> st \<noteq> 500"
    by (auto simp: list_all2_Cons1)
  with p(1) sv show ?thesis by blast
qed

text \<open>C16 At any point of a session: a request answered with 400, 404 or 405 has changed nothing at all, one
  answered with 500 has changed neither an approval nor the quarantine (if the differ raised, the counters have
  moved; otherwise nothing has), and a change answered with the verdict \<open>quarantine\<close> stands in the quarantine
  list afterwards.\<close>

theorem http_response_is_effective:
  assumes "policy_from_file parsed = Inr p" and "0 \<le> n"
    and "serve_all pr sha diff (control_init p n) reqs = (rs, c)"
    and "serve pr sha diff now c req = (Some (st, body), c')"
  shows "(st \<notin> {200, 500} \<longrightarrow> c' = c)
    \<and> (st = 500 \<longrightarrow> approved c' = approved c \<and> quarantine c' = quarantine c \<and> (\<not> differ_raises diff req \<longrightarrow> c' = c))
    \<and> (\<forall>ch d. hr_method req = POST \<longrightarrow> route_path (hr_path req) = S ''/changes'' \<longrightarrow>
         bindE (read_json req) parse_change_request = Inr ch \<longrightarrow> body = Answer (JDict d) \<longrightarrow>
         map_of d (S ''verdict'') = Some (JStr (S ''quarantine'')) \<longrightarrow>
         (\<exists>xs. quarantine_list c' = JList xs \<and>
            JDict [(S ''server'', JStr (cr_server ch)), (S ''tool'', JStr (cr_tool ch))] \<in> set xs))"
proof -
  have ok: "seq_ok c" by (rule serve_all_ok[OF loaded_ok[OF assms(1,2)] assms(3)])
  note f = serve_facts[OF ok assms(4)]
  have "subject ch \<in> quarantine c'"
    if "hr_method req = POST" "route_path (hr_path req) = S ''/changes''"
      "bindE (read_json req) parse_change_request = Inr ch" "body = Answer (JDict d)"
      "map_of d (S ''verdict'') = Some (JStr (S ''quarantine''))" for ch d
  proof -
    obtain y c1 where ev: "evaluate_change pr sha diff c ch = (y, c1)" by force
    have inr: "map_sum id JDict x = Inr (JDict d) \<Longrightarrow> x = Inr d"
      for x :: "control_error + (pystr \<times> json) list" by (cases x) simp_all
    have "y = Some (Inr d) \<and> c' = c1"
      using assms(4) that(1-4) ev
      by (auto simp: serve_def dispatch_def post_routes_def changes_handler_def dest!: inr
          split: option.splits sum.splits control_error.splits)
    with evaluate_change_seq[OF ok ev] that(5) show ?thesis by blast
  qed
  moreover have "finite (quarantine c')" using f by (simp add: seq_ok_def)
  ultimately have "\<exists>xs. quarantine_list c' = JList xs \<and>
      JDict [(S ''server'', JStr (cr_server ch)), (S ''tool'', JStr (cr_tool ch))] \<in> set xs"
    if "hr_method req = POST" "route_path (hr_path req) = S ''/changes''"
      "bindE (read_json req) parse_change_request = Inr ch" "body = Answer (JDict d)"
      "map_of d (S ''verdict'') = Some (JStr (S ''quarantine''))" for ch d
    using that quarantine_listed by (simp add: subject_def)
  with f show ?thesis by blast
qed

text \<open>A report of a change on which the differ raises the alarm.\<close>

definition alarm :: diff_fn where
  "alarm t a b = Inr [\<lparr>f_severity = SECURITY, f_rule = ''ALARM'', f_path = [], f_message = [], f_tool = None,
     f_before = JNull, f_after = JNull\<rparr>]"

definition ex_tool :: "(pystr \<times> json) list" where
  "ex_tool = [(S ''name'', JStr (S ''t''))]"

definition ex_report :: json where
  "ex_report = JDict [(S ''server'', JStr (S ''s'')), (S ''tool'', JStr (S ''t'')), (S ''old_hash'', JStr (S ''x'')),
     (S ''new_hash'', JStr (S ''y'')), (S ''old_def'', JDict ex_tool), (S ''new_def'', JDict ex_tool)]"

definition ex_change :: change_request where
  "ex_change = \<lparr>cr_server = S ''s'', cr_tool = S ''t'', cr_session = [], cr_old_hash = S ''x'', cr_new_hash = S ''y'',
     cr_old_def = ex_tool, cr_new_def = ex_tool\<rparr>"

lemma ex_report_parses: "parse_change_request ex_report = Inr ex_change"
  by (simp add: parse_change_request_def ex_report_def ex_change_def require_str_def S_def)

lemma ex_tool_hash: "\<exists>h. tool_hash (\<lambda>_. []) ex_tool = Inr h"
proof -
  let ?m = "JDict [(S ''name'', JStr (S ''t'')), (S ''description'', JStr []), (S ''inputSchema'', JDict [])]"
  have "normalize_tool ex_tool = Inr ?m"
    by (simp add: ex_tool_def normalize_tool_def normalize_JDict norm_required_def)
  moreover have "portable ?m" by (simp add: keys_encodable_def S_def is_surrogate_def)
  then obtain s where "canonical_json ?m = Inr s" using canonical_portable[of ?m] by (simp only: if_True) blast
  ultimately show ?thesis by (simp add: tool_hash_def sha256_hex_def del: canonical_json.simps)
qed

lemma ex_quarantined:
  assumes p: "default_policy = Inr p"
  shows "\<exists>body c. evaluate_change (\<lambda>_. True) (\<lambda>_. []) alarm (control_init p 1) ex_change = (Some (Inr body), c)
    \<and> map_of body (S ''verdict'') = Some (JStr (S ''quarantine''))"
proof -
  obtain h where h: "tool_hash (\<lambda>_. []) ex_tool = Inr h" using ex_tool_hash by blast
  obtain a where a: "analyse alarm (cr_tool ex_change) (cr_old_def ex_change) (cr_new_def ex_change) = Inr a"
      "an_severity a = Some SECURITY"
    by (simp add: analyse_def alarm_def Let_def highest_severity_def sort_findings_def severity_order_def)
  have v: "verdict_of p ex_change a = Inr (S ''quarantine'', S ''side_effecting'')"
    using default_policy_examples[OF p]
    by (simp add: verdict_of_def risk_class_def derive_risk_class_def ex_change_def ex_tool_def a(2) severity_text_def
        severity_name_def S_def)
  show ?thesis
    using h a(1) v by (simp add: evaluate_change_def compute_hashes_def ex_change_def Let_def enter_change_def is_approved_def
        control_init_def cached_analysis_def lookup_future_def set_future_def conclude_def verdict_body_def response_body_def
        update_conv')
qed

theorem http_response_is_effective_witness:
  "\<exists>p d c. default_policy = Inr p
     \<and> serve (\<lambda>_. True) (\<lambda>_. []) alarm [] (control_init p 1) (ex_http POST ''/changes'' (Inr ex_report))
         = (Some (200, Answer (JDict d)), c)
     \<and> (\<exists>xs. quarantine_list c = JList xs \<and> JDict [(S ''server'', JStr (S ''s'')), (S ''tool'', JStr (S ''t''))] \<in> set xs)"
proof -
  obtain p where p: "default_policy = Inr p" "policy_from_file (Inr (JDict default_policy_json)) = Inr p"
    using sample_policy by blast
  let ?req = "ex_http POST ''/changes'' (Inr ex_report)"
  obtain d c where ev: "evaluate_change (\<lambda>_. True) (\<lambda>_. []) alarm (control_init p 1) ex_change = (Some (Inr d), c)"
    and d: "map_of d (S ''verdict'') = Some (JStr (S ''quarantine''))" using ex_quarantined[OF p(1)] by blast
  have req: "hr_method ?req = POST" "route_path (hr_path ?req) = S ''/changes''"
      "bindE (read_json ?req) parse_change_request = Inr ex_change"
    by (simp_all add: ex_http_def route_path_def S_def read_json_def max_body_bytes_def ex_report_parses)
  then have sv: "serve (\<lambda>_. True) (\<lambda>_. []) alarm [] (control_init p 1) ?req = (Some (200, Answer (JDict d)), c)"
    using ev by (simp add: serve_def dispatch_def post_routes_def changes_handler_def)
  have start: "serve_all (\<lambda>_. True) (\<lambda>_. []) alarm (control_init p 1) [] = ([], control_init p 1)"
    by (simp add: serve_all_def)
  have "\<exists>xs. quarantine_list c = JList xs \<and>
      JDict [(S ''server'', JStr (cr_server ex_change)), (S ''tool'', JStr (cr_tool ex_change))] \<in> set xs"
    using http_response_is_effective[OF p(2) _ start sv] req d by simp
  with p(1) sv show ?thesis by (simp add: ex_change_def) blast
qed

text \<open>\<open>approve\<close> takes a hash followed by a newline for well formed (the \<open>$\<close> of its pattern
  matches before a final newline): the quarantine is cleared, but the recorded hash is not
  the tool's hash, so the approved definition is not recognised.\<close>

theorem approve_accepts_newline:
  assumes "length ds = 64" and "list_all is_hex ds" and "server \<noteq> []" and "tool \<noteq> []"
  shows "\<exists>body c'. approve now c (JDict [(S ''server'', JStr server), (S ''tool'', JStr tool),
             (S ''def_hash'', JStr (hash_prefix @ ds @ [10]))]) = (Inr body, c')
           \<and> (server, tool) \<notin> quarantine c'
           \<and> (\<forall>req. subject req = (server, tool) \<longrightarrow> \<not> is_approved c' req (hash_prefix @ ds))"
proof -
  let ?h = "hash_prefix @ ds @ [10]"
  have len: "length hash_prefix = 7" by (simp add: hash_prefix_def)
  then have "hash_re_match ?h" using assms(1,2) by (simp add: hash_re_match_def)
  moreover have "?h \<noteq> []" by (simp add: hash_prefix_def)
  ultimately show ?thesis using assms(3,4)
    by (auto simp: approve_def parse_approval_def require_str_def optional_str_def set_approved_def
        is_approved_def update_conv')
qed

theorem approve_accepts_newline_witness:
  "\<exists>body c'. approve [] (control_init \<lparr>matrix = [], risk_overrides = []\<rparr> 1) (JDict [(S ''server'', JStr (S ''s'')), (S ''tool'', JStr (S ''t'')),
      (S ''def_hash'', JStr (hash_prefix @ replicate 64 48 @ [10]))]) = (Inr body, c')
     \<and> (S ''s'', S ''t'') \<notin> quarantine c'
     \<and> (\<forall>req. subject req = (S ''s'', S ''t'') \<longrightarrow> \<not> is_approved c' req (hash_prefix @ replicate 64 48))"
  by (rule approve_accepts_newline) (simp_all add: is_hex_def list_all_iff)

text \<open>A policy file whose \<open>risk_overrides\<close> is \<open>null\<close> is not rejected as a bad policy file (exit
  status 2): \<open>TypeError\<close> escapes from the start-up.\<close>

theorem null_overrides_escape:
  assumes "policy_from_dict raw = Inr p"
  shows "control_main (Some (Inr (JDict (AList.update (S ''risk_overrides'') JNull raw)))) = Inl TypeError"
  using assms
  by (auto simp: control_main_def policy_from_file_def policy_from_dict_def update_conv' bindE_eq_Inr
      split: option.splits json.splits if_splits)

theorem null_overrides_escape_witness:
  "control_main (Some (Inr (JDict (AList.update (S ''risk_overrides'') JNull default_policy_json)))) = Inl TypeError"
proof -
  obtain p where "policy_from_dict default_policy_json = Inr p"
    using default_policy_loads by (auto simp: default_policy_def)
  then show ?thesis by (rule null_overrides_escape)
qed

end
