(* ===== verification/Schema_Refs.thy ===== *)
theory Schema_Refs
  imports Canonical
begin

text \<open>
  Local \<open>$ref\<close>s of a JSON schema (\<open>harness/diff/schema_diff.py\<close>): JSON pointers and their
  resolution. A pointer is percent-decoded and looked up in the root; a reference that is
  already being expanded becomes \<open>{}\<close>, so the expansion ends on every schema.
\<close>

section \<open>Percent-decoding\<close>

definition unhex :: "nat \<Rightarrow> nat option" where
  "unhex c = (if 48 \<le> c \<and> c \<le> 57 then Some (c - 48)
     else if 65 \<le> c \<and> c \<le> 70 then Some (c - 55)
     else if 97 \<le> c \<and> c \<le> 102 then Some (c - 87) else None)"

fun pct_bytes :: "pystr \<Rightarrow> nat list" where
  "pct_bytes (c # h # l # s) =
     (if c = 37 then
        case (unhex h, unhex l) of
          (Some x, Some y) \<Rightarrow> (16 * x + y) # pct_bytes s
        | _ \<Rightarrow> c # pct_bytes (h # l # s)
      else c # pct_bytes (h # l # s))"
| "pct_bytes s = s"

text \<open>\<open>bytes.decode("utf-8", "replace")\<close>: the lead byte says how many continuation bytes
  follow and which range the first of them has; a sequence that breaks off is one U+FFFD.\<close>

definition utf8_lead :: "nat \<Rightarrow> (nat \<times> nat \<times> nat \<times> nat) option" where
  "utf8_lead b =
     (if 0xC2 \<le> b \<and> b \<le> 0xDF then Some (1, 0x80, 0xBF, b - 0xC0)
      else if b = 0xE0 then Some (2, 0xA0, 0xBF, 0)
      else if b = 0xED then Some (2, 0x80, 0x9F, 0xD)
      else if 0xE1 \<le> b \<and> b \<le> 0xEF then Some (2, 0x80, 0xBF, b - 0xE0)
      else if b = 0xF0 then Some (3, 0x90, 0xBF, 0)
      else if 0xF1 \<le> b \<and> b \<le> 0xF3 then Some (3, 0x80, 0xBF, b - 0xF0)
      else if b = 0xF4 then Some (3, 0x80, 0x8F, 4)
      else None)"

fun utf8_cont :: "nat \<Rightarrow> nat \<Rightarrow> nat \<Rightarrow> nat \<Rightarrow> nat list \<Rightarrow> nat option \<times> nat list" where
  "utf8_cont 0 lo hi acc bs = (Some acc, bs)"
| "utf8_cont (Suc n) lo hi acc [] = (None, [])"
| "utf8_cont (Suc n) lo hi acc (b # bs) =
     (if lo \<le> b \<and> b \<le> hi then utf8_cont n 0x80 0xBF (acc * 64 + (b - 0x80)) bs else (None, b # bs))"

lemma utf8_cont_length: "length (snd (utf8_cont n lo hi acc bs)) \<le> length bs"
  by (induction n lo hi acc bs rule: utf8_cont.induct) auto

function utf8_decode :: "nat list \<Rightarrow> pystr" where
  "utf8_decode [] = []"
| "utf8_decode (b # bs) =
     (if b < 0x80 then b # utf8_decode bs
      else case utf8_lead b of
        None \<Rightarrow> 0xFFFD # utf8_decode bs
      | Some (n, lo, hi, acc) \<Rightarrow>
          let r = utf8_cont n lo hi acc bs in
          (case fst r of Some c \<Rightarrow> c | None \<Rightarrow> 0xFFFD) # utf8_decode (snd r))"
  by pat_completeness auto
termination
  by (relation "measure length") (auto simp: utf8_cont_length less_Suc_eq_le)

text \<open>\<open>urllib.parse.unquote\<close> decodes the maximal ASCII runs, and only if there is a \<open>%\<close>.\<close>

function unquote_runs :: "pystr \<Rightarrow> pystr" where
  "unquote_runs [] = []"
| "unquote_runs (c # s) =
     (if c < 128
      then utf8_decode (pct_bytes (takeWhile (\<lambda>x. x < 128) (c # s))) @ unquote_runs (dropWhile (\<lambda>x. x < 128) (c # s))
      else c # unquote_runs s)"
  by pat_completeness auto
termination
  by (relation "measure length") (auto simp: length_dropWhile_le less_Suc_eq_le)

definition unquote :: "pystr \<Rightarrow> pystr" where
  "unquote s = (if 37 \<notin> set s then s else unquote_runs s)"

section \<open>JSON pointers\<close>

fun replace2 :: "nat \<Rightarrow> nat \<Rightarrow> nat \<Rightarrow> pystr \<Rightarrow> pystr" where
  "replace2 x y z (a # b # s) =
     (if a = x \<and> b = y then z # replace2 x y z s else a # replace2 x y z (b # s))"
| "replace2 x y z s = s"

fun split_on :: "nat \<Rightarrow> pystr \<Rightarrow> pystr list" where
  "split_on c [] = [[]]"
| "split_on c (a # s) =
     (if a = c then [] # split_on c s
      else case split_on c s of p # ps \<Rightarrow> (a # p) # ps | [] \<Rightarrow> [[a]])"

definition pointer_part :: "pystr \<Rightarrow> pystr" where
  "pointer_part raw = replace2 126 48 126 (replace2 126 49 47 (unquote raw))"

text \<open>\<open>part.lstrip("-").isdigit()\<close> and \<open>int(part)\<close>: \<open>int\<close> takes one sign, needs decimal digits
  and refuses more than 4300 of them.\<close>

definition looks_like_index :: "unidata \<Rightarrow> pystr \<Rightarrow> bool" where
  "looks_like_index u part =
     (let s = dropWhile (\<lambda>c. c = 45) part in s \<noteq> [] \<and> list_all (u_isdigit u) s)"

definition parse_nat :: "unidata \<Rightarrow> pystr \<Rightarrow> nat option" where
  "parse_nat u s =
     (if s = [] \<or> length s > 4300 then None
      else fold (\<lambda>c acc. case (acc, u_decimal u c) of
                    (Some n, Some d) \<Rightarrow> Some (10 * n + d) | _ \<Rightarrow> None) s (Some 0))"

definition py_int :: "unidata \<Rightarrow> pystr \<Rightarrow> pyexc + int" where
  "py_int u part =
     (case part of
        c # s \<Rightarrow>
          if c = 45 then (case parse_nat u s of Some n \<Rightarrow> Inr (- int n) | None \<Rightarrow> Inl ValueError)
          else (case parse_nat u part of Some n \<Rightarrow> Inr (int n) | None \<Rightarrow> Inl ValueError)
      | [] \<Rightarrow> Inl ValueError)"

text \<open>\<open>xs[i]\<close>: a negative index counts from the end.\<close>

definition py_index :: "'a list \<Rightarrow> int \<Rightarrow> pyexc + 'a" where
  "py_index xs i =
     (let j = (if i < 0 then i + int (length xs) else i) in
      if 0 \<le> j \<and> j < int (length xs) then Inr (xs ! nat j) else Inl IndexError)"

text \<open>One step of the walk; \<open>None\<close> is the early \<open>return None\<close>.\<close>

definition pointer_step :: "unidata \<Rightarrow> json \<Rightarrow> pystr \<Rightarrow> pyexc + json option" where
  "pointer_step u node part =
     (case node of
        JDict d \<Rightarrow> Inr (map_of d part)
      | JList xs \<Rightarrow>
          if looks_like_index u part
          then bindE (py_int u part) (\<lambda>i.
                 if i < int (length xs) then bindE (py_index xs i) (\<lambda>v. Inr (Some v)) else Inr None)
          else Inr None
      | _ \<Rightarrow> Inr None)"

fun pointer_walk :: "unidata \<Rightarrow> json \<Rightarrow> pystr list \<Rightarrow> pyexc + json" where
  "pointer_walk u node [] = Inr node"
| "pointer_walk u node (raw # parts) =
     bindE (pointer_step u node (pointer_part raw)) (\<lambda>r.
       case r of Some v \<Rightarrow> pointer_walk u v parts | None \<Rightarrow> Inr JNull)"

text \<open>The result \<open>None\<close> is \<open>JNull\<close>, as in the source, where a pointer to a null is no target either.\<close>

definition json_pointer_get :: "unidata \<Rightarrow> json \<Rightarrow> pystr \<Rightarrow> pyexc + json" where
  "json_pointer_get u doc pointer =
     (if pointer = S ''#'' \<or> pointer = S ''#/'' then Inr doc
      else if take 2 pointer \<noteq> S ''#/'' then Inr JNull
      else pointer_walk u doc (split_on 47 (drop 2 pointer)))"

section \<open>The references a value contains\<close>

definition local_ref :: "(pystr \<times> json) list \<Rightarrow> pystr option" where
  "local_ref d = (case map_of d (S ''$ref'') of
     Some (JStr r) \<Rightarrow> if take 1 r = S ''#'' then Some r else None
   | _ \<Rightarrow> None)"

fun refs_of :: "json \<Rightarrow> pystr set" where
  "refs_of (JDict d) = set_option (local_ref d) \<union> (\<Union>(k, v) \<in> set d. refs_of v)"
| "refs_of (JList xs) = (\<Union>x \<in> set xs. refs_of x)"
| "refs_of v = {}"

lemma finite_refs_of [simp]: "finite (refs_of v)"
  by (induction v rule: refs_of.induct) auto

lemma refs_of_dict: "(k, v) \<in> set d \<Longrightarrow> refs_of v \<subseteq> refs_of (JDict d)"
  by auto

lemma refs_of_local: "local_ref d = Some r \<Longrightarrow> r \<in> refs_of (JDict d)"
  by simp

lemma py_index_mem: "py_index xs i = Inr v \<Longrightarrow> v \<in> set xs"
  by (auto simp: py_index_def Let_def split: if_splits)

lemma pointer_step_refs:
  assumes "pointer_step u node part = Inr (Some v)"
  shows "refs_of v \<subseteq> refs_of node"
proof (cases node)
  case (JDict d)
  with assms have "(part, v) \<in> set d" by (simp add: pointer_step_def map_of_SomeD)
  with JDict refs_of_dict show ?thesis by blast
next
  case (JList xs)
  with assms have "v \<in> set xs"
    by (auto simp: pointer_step_def bindE_eq_Inr py_index_mem split: if_splits)
  with JList show ?thesis by auto
qed (use assms in \<open>simp_all add: pointer_step_def\<close>)

lemma pointer_walk_refs: "pointer_walk u node parts = Inr v \<Longrightarrow> refs_of v \<subseteq> refs_of node"
proof (induction parts arbitrary: node)
  case (Cons raw parts)
  then obtain r where st: "pointer_step u node (pointer_part raw) = Inr r"
    and rest: "(case r of Some w \<Rightarrow> pointer_walk u w parts | None \<Rightarrow> Inr JNull) = Inr v"
    by (auto simp: bindE_eq_Inr)
  show ?case
  proof (cases r)
    case (Some w)
    with rest Cons.IH[of w] st pointer_step_refs show ?thesis by (metis option.simps(5) order_trans)
  qed (use rest in auto)
qed simp

lemma json_pointer_refs: "json_pointer_get u doc p = Inr v \<Longrightarrow> refs_of v \<subseteq> refs_of doc"
  by (auto simp: json_pointer_get_def dest: pointer_walk_refs split: if_splits)

section \<open>Resolution\<close>

lemma resolve_measure:
  assumes "r \<in> refs_of n" "r \<notin> seen" "refs_of t \<subseteq> refs_of doc"
  shows "card (refs_of doc \<union> refs_of t - insert r seen) < card (refs_of doc \<union> refs_of n - seen)"
  by (rule psubset_card_mono) (use assms in auto)

lemma resolve_measure_le:
  assumes "refs_of v \<subseteq> refs_of n"
  shows "card (refs_of doc \<union> refs_of v - seen) \<le> card (refs_of doc \<union> refs_of n - seen)"
  by (rule card_mono) (use assms in auto)

function resolve_local_refs :: "unidata \<Rightarrow> json \<Rightarrow> json \<Rightarrow> pystr set \<Rightarrow> pyexc + json" where
  "resolve_local_refs u (JDict d) doc seen =
     (case local_ref d of
        Some r \<Rightarrow>
          if r \<in> seen then Inr (JDict [])
          else bindE (json_pointer_get u doc r) (\<lambda>target.
            if target = JNull then Inr (JDict d)
            else bindE (resolve_local_refs u target doc (insert r seen)) (\<lambda>resolved.
              Inr (JDict (dict_merge (dict_items resolved) (filter (\<lambda>(k, v). k \<noteq> S ''$ref'') d)))))
      | None \<Rightarrow>
          bindE (mapE (\<lambda>(k, v). bindE (resolve_local_refs u v doc seen) (\<lambda>w. Inr (k, w))) d)
            (\<lambda>out. Inr (JDict out)))"
| "resolve_local_refs u (JList xs) doc seen =
     bindE (mapE (\<lambda>v. resolve_local_refs u v doc seen) xs) (\<lambda>ys. Inr (JList ys))"
| "resolve_local_refs u JNull doc seen = Inr JNull"
| "resolve_local_refs u (JBool b) doc seen = Inr (JBool b)"
| "resolve_local_refs u (JInt i) doc seen = Inr (JInt i)"
| "resolve_local_refs u (JFloat x) doc seen = Inr (JFloat x)"
| "resolve_local_refs u (JStr s) doc seen = Inr (JStr s)"
  by pat_completeness auto
termination
proof (relation "(\<lambda>(u, n, doc, seen). card (refs_of doc \<union> refs_of n - seen)) <*mlex*>
    measure (\<lambda>(u, n, doc, seen). size n)", goal_cases)
  case 1
  show ?case by (intro wf_mlex wf_measure)
next
  case (3 u d doc seen r target)
  then have "card (refs_of doc \<union> refs_of target - insert r seen) < card (refs_of doc \<union> refs_of (JDict d) - seen)"
    using resolve_measure refs_of_local json_pointer_refs by metis
  then show ?case by (simp add: mlex_less)
next
  case (2 u d doc seen kv k v)
  then have mem: "(k, v) \<in> set d" by simp
  then have "card (refs_of doc \<union> refs_of v - seen) \<le> card (refs_of doc \<union> refs_of (JDict d) - seen)"
    "size v < size (JDict d)"
    using resolve_measure_le[OF refs_of_dict[OF mem]] size_JDict[OF mem] by simp_all
  then show ?case by (simp add: mlex_leq)
next
  case (4 u xs doc seen v)
  then have sub: "refs_of v \<subseteq> refs_of (JList xs)" and less: "size v < size (JList xs)"
    by (auto simp: less_Suc_eq_le size_list_estimation')
  from resolve_measure_le[OF sub, of doc seen] less show ?case by (simp add: mlex_leq)
qed

end
