(* ===== verification/Difflib.thy ===== *)
theory Difflib
  imports Json
begin

text \<open>
  The standard library's \<open>difflib.SequenceMatcher(None, a, b).ratio()\<close>, which the rename
  heuristic and the description differ rest on: the index of \<open>b\<close> without its popular elements
  (\<open>autojunk\<close>, from 200 elements on), the longest matching block, the blocks to its left and
  right. The junk function is \<open>None\<close>, so nothing is junk and the loops over junk do nothing.
\<close>

section \<open>The index of the second sequence\<close>

definition popular :: "'a list \<Rightarrow> 'a \<Rightarrow> bool" where
  "popular b x \<longleftrightarrow> 200 \<le> length b \<and> length b div 100 + 1 < count_list b x"

definition positions :: "'a list \<Rightarrow> 'a \<Rightarrow> nat list" where
  "positions b x = (if popular b x then [] else filter (\<lambda>j. b ! j = x) [0..<length b])"

section \<open>The longest matching block\<close>

text \<open>One row: \<open>j2len\<close> gives, for each \<open>j\<close>, the length of the match that ends at \<open>(i - 1, j)\<close>;
  the best block so far is \<open>(besti, bestj, bestsize)\<close>.\<close>

type_synonym block = "nat \<times> nat \<times> nat"

definition row_step ::
  "(nat \<rightharpoonup> nat) \<Rightarrow> nat \<Rightarrow> nat \<Rightarrow> (nat \<rightharpoonup> nat) \<times> block \<Rightarrow> (nat \<rightharpoonup> nat) \<times> block" where
  "row_step j2len i j acc =
     (case acc of (new, besti, bestj, bestsize) \<Rightarrow>
        let k = (if j = 0 then 0 else case j2len (j - 1) of Some n \<Rightarrow> n | None \<Rightarrow> 0) + 1 in
        (new(j \<mapsto> k), if k > bestsize then (i + 1 - k, j + 1 - k, k) else (besti, bestj, bestsize)))"

definition row ::
  "'a list \<Rightarrow> 'a list \<Rightarrow> nat \<Rightarrow> nat \<Rightarrow> nat \<Rightarrow> (nat \<rightharpoonup> nat) \<times> block \<Rightarrow> (nat \<rightharpoonup> nat) \<times> block" where
  "row a b blo bhi i acc =
     (case acc of (j2len, best) \<Rightarrow>
        fold (row_step j2len i) (filter (\<lambda>j. blo \<le> j \<and> j < bhi) (positions b (a ! i))) (Map.empty, best))"

definition longest_indexed :: "'a list \<Rightarrow> 'a list \<Rightarrow> nat \<Rightarrow> nat \<Rightarrow> nat \<Rightarrow> nat \<Rightarrow> block" where
  "longest_indexed a b alo ahi blo bhi =
     snd (fold (row a b blo bhi) [alo..<ahi] (Map.empty, alo, blo, 0))"

text \<open>The two loops that extend the block over elements the index does not list.\<close>

fun extend_left :: "'a list \<Rightarrow> 'a list \<Rightarrow> nat \<Rightarrow> nat \<Rightarrow> block \<Rightarrow> block" where
  "extend_left a b alo blo (i, j, k) =
     (if i > alo \<and> j > blo \<and> a ! (i - 1) = b ! (j - 1)
      then extend_left a b alo blo (i - 1, j - 1, k + 1) else (i, j, k))"

function extend_right :: "'a list \<Rightarrow> 'a list \<Rightarrow> nat \<Rightarrow> nat \<Rightarrow> block \<Rightarrow> block" where
  "extend_right a b ahi bhi (i, j, k) =
     (if i + k < ahi \<and> j + k < bhi \<and> a ! (i + k) = b ! (j + k)
      then extend_right a b ahi bhi (i, j, k + 1) else (i, j, k))"
  by pat_completeness auto
termination by (relation "measure (\<lambda>(a, b, ahi, bhi, i, j, k). ahi - (i + k))") auto

declare extend_left.simps [simp del] extend_right.simps [simp del]

definition find_longest_match :: "'a list \<Rightarrow> 'a list \<Rightarrow> nat \<Rightarrow> nat \<Rightarrow> nat \<Rightarrow> nat \<Rightarrow> block" where
  "find_longest_match a b alo ahi blo bhi =
     extend_right a b ahi bhi (extend_left a b alo blo (longest_indexed a b alo ahi blo bhi))"

section \<open>A block is a common substring inside its window\<close>

definition common :: "'a list \<Rightarrow> 'a list \<Rightarrow> block \<Rightarrow> bool" where
  "common a b blk \<longleftrightarrow> (case blk of (i, j, k) \<Rightarrow> \<forall>x < k. a ! (i + x) = b ! (j + x))"

definition inside :: "nat \<Rightarrow> nat \<Rightarrow> nat \<Rightarrow> nat \<Rightarrow> block \<Rightarrow> bool" where
  "inside alo ahi blo bhi blk \<longleftrightarrow> (case blk of (i, j, k) \<Rightarrow>
     alo \<le> i \<and> i + k \<le> max alo ahi \<and> blo \<le> j \<and> j + k \<le> max blo bhi)"

text \<open>What the rows keep: \<open>j2len\<close> holds lengths of matches that end where it says.\<close>

definition ends_at :: "'a list \<Rightarrow> 'a list \<Rightarrow> nat \<Rightarrow> nat \<Rightarrow> nat \<Rightarrow> nat \<Rightarrow> (nat \<rightharpoonup> nat) \<Rightarrow> bool" where
  "ends_at a b alo blo bhi i m \<longleftrightarrow> (\<forall>j k. m j = Some k \<longrightarrow>
     k \<le> i - alo \<and> blo + k \<le> j + 1 \<and> j < bhi \<and> (\<forall>x < k. a ! (i - k + x) = b ! (j + 1 - k + x)))"

lemma row_step_eq:
  "row_step m i j (n, bi, bj, bs) =
     (let p = (if j = 0 then 0 else case m (j - 1) of Some x \<Rightarrow> x | None \<Rightarrow> 0) in
      (n(j \<mapsto> p + 1), if p + 1 > bs then (i - p, j - p, p + 1) else (bi, bj, bs)))"
  by (simp add: row_step_def Let_def)

lemma row_step_ok:
  assumes m: "ends_at a b alo blo bhi i m" and i: "alo \<le> i" "i < ahi"
    and j: "blo \<le> j" "j < bhi" "b ! j = a ! i"
    and new: "ends_at a b alo blo bhi (Suc i) n" and best: "common a b blk" "inside alo ahi blo bhi blk"
    and res: "row_step m i j (n, blk) = (n', blk')"
  shows "ends_at a b alo blo bhi (Suc i) n' \<and> common a b blk' \<and> inside alo ahi blo bhi blk'"
proof -
  obtain bi bj bs where blk: "blk = (bi, bj, bs)" by (cases blk)
  define p where "p = (if j = 0 then 0 else case m (j - 1) of Some x \<Rightarrow> x | None \<Rightarrow> 0)"
  have res': "n' = n(j \<mapsto> p + 1)" "blk' = (if p + 1 > bs then (i - p, j - p, p + 1) else blk)"
    using res unfolding blk row_step_eq p_def[symmetric] Let_def prod.inject by (simp_all only: blk)
  have p': "p \<le> i - alo \<and> blo + p \<le> j \<and> (\<forall>x < p. a ! (i - p + x) = b ! (j - p + x))"
  proof -
    consider "p = 0" | "j \<noteq> 0" "m (j - 1) = Some p"
      by (cases "j = 0"; cases "m (j - 1)") (auto simp: p_def)
    then show "p \<le> i - alo \<and> blo + p \<le> j \<and> (\<forall>x < p. a ! (i - p + x) = b ! (j - p + x))"
    proof cases
      case 2
      then have "p \<le> i - alo \<and> blo + p \<le> j - 1 + 1 \<and> (\<forall>x < p. a ! (i - p + x) = b ! (j - 1 + 1 - p + x))"
        using m unfolding ends_at_def by blast
      moreover have "j - 1 + 1 = j" using 2(1) by simp
      ultimately show "p \<le> i - alo \<and> blo + p \<le> j \<and> (\<forall>x < p. a ! (i - p + x) = b ! (j - p + x))"
        by simp_all
    qed (use j(1) in simp_all)
  qed
  then have p: "p \<le> i - alo" "blo + p \<le> j" "\<forall>x < p. a ! (i - p + x) = b ! (j - p + x)" by blast+
  have run: "a ! (i - p + x) = b ! (j - p + x)" if "x < p + 1" for x
  proof (cases "x < p")
    case True
    with p(3) show ?thesis by blast
  next
    case False
    with that have "x = p" by simp
    with j(3) p(1,2) show ?thesis by simp
  qed
  have "ends_at a b alo blo bhi (Suc i) n'"
    unfolding ends_at_def
  proof (intro allI impI)
    fix y k
    assume y: "n' y = Some k"
    show "k \<le> Suc i - alo \<and> blo + k \<le> y + 1 \<and> y < bhi \<and>
        (\<forall>x < k. a ! (Suc i - k + x) = b ! (y + 1 - k + x))"
    proof (cases "y = j")
      case True
      with y res'(1) have "k = p + 1" by simp
      moreover have "Suc i - (p + 1) = i - p" "j + 1 - (p + 1) = j - p" by simp_all
      ultimately show ?thesis using True p(1,2) j(2) i(1) run by simp
    next
      case False
      with y res'(1) have "n y = Some k" by simp
      with new show ?thesis unfolding ends_at_def by blast
    qed
  qed
  moreover have "common a b blk' \<and> inside alo ahi blo bhi blk'"
  proof (cases "p + 1 > bs")
    case True
    moreover have "alo \<le> i - p" "blo \<le> j - p" "i - p + (p + 1) \<le> ahi" "j - p + (p + 1) \<le> bhi"
      using p(1,2) i j(1,2) by linarith+
    ultimately show ?thesis using run unfolding res'(2) common_def inside_def by auto
  qed (use best in \<open>simp add: res'(2)\<close>)
  ultimately show ?thesis by blast
qed

lemma row_ok:
  assumes m: "ends_at a b alo blo bhi i m" and i: "alo \<le> i" "i < ahi"
    and best: "common a b blk" "inside alo ahi blo bhi blk"
    and res: "row a b blo bhi i (m, blk) = (n, blk')"
  shows "ends_at a b alo blo bhi (Suc i) n \<and> common a b blk' \<and> inside alo ahi blo bhi blk'"
proof -
  have "ends_at a b alo blo bhi (Suc i) n' \<and> common a b blk'' \<and> inside alo ahi blo bhi blk''"
    if "fold (row_step m i) js (n0, blk0) = (n', blk'')" "\<forall>j \<in> set js. blo \<le> j \<and> j < bhi \<and> b ! j = a ! i"
      "ends_at a b alo blo bhi (Suc i) n0" "common a b blk0" "inside alo ahi blo bhi blk0"
    for js n0 blk0 n' blk''
    using that
  proof (induction js arbitrary: n0 blk0)
    case (Cons j js)
    obtain n1 blk1 where st: "row_step m i j (n0, blk0) = (n1, blk1)" by (metis surj_pair)
    have "ends_at a b alo blo bhi (Suc i) n1 \<and> common a b blk1 \<and> inside alo ahi blo bhi blk1"
      using Cons.prems by (intro row_step_ok[OF m i _ _ _ _ _ _ st]) auto
    with Cons.IH[of n1 blk1] Cons.prems st show ?case by simp
  qed simp
  moreover have "ends_at a b alo blo bhi (Suc i) Map.empty" by (simp add: ends_at_def)
  ultimately show ?thesis
    using res best by (auto simp: row_def positions_def split: if_splits)
qed

lemma longest_indexed_ok:
  "common a b (longest_indexed a b alo ahi blo bhi) \<and> inside alo ahi blo bhi (longest_indexed a b alo ahi blo bhi)"
proof -
  have "common a b blk' \<and> inside alo ahi blo bhi blk'"
    if "fold (row a b blo bhi) [i..<ahi] (m, blk) = (m', blk')" "alo \<le> i"
      "ends_at a b alo blo bhi i m" "common a b blk" "inside alo ahi blo bhi blk" for i m blk m' blk'
    using that
  proof (induction "ahi - i" arbitrary: i m blk)
    case (Suc d)
    then have i: "i < ahi" by simp
    then have up: "[i..<ahi] = i # [Suc i..<ahi]" by (rule upt_conv_Cons)
    obtain m1 blk1 where st: "row a b blo bhi i (m, blk) = (m1, blk1)" by (metis surj_pair)
    from row_ok[OF Suc.prems(3) Suc.prems(2) i Suc.prems(4,5) st]
    have "ends_at a b alo blo bhi (Suc i) m1" "common a b blk1" "inside alo ahi blo bhi blk1" by auto
    with Suc.hyps(1)[of "Suc i" m1 blk1] Suc.hyps(2) Suc.prems(1,2) up st show ?case by simp
  qed simp
  moreover obtain m' blk' where "fold (row a b blo bhi) [alo..<ahi] (Map.empty, alo, blo, 0) = (m', blk')"
    by (metis surj_pair)
  moreover have "ends_at a b alo blo bhi alo Map.empty" by (simp add: ends_at_def)
  moreover have "common a b (alo, blo, 0)" "inside alo ahi blo bhi (alo, blo, 0)"
    by (simp_all add: common_def inside_def)
  ultimately show ?thesis by (fastforce simp: longest_indexed_def)
qed

section \<open>Matching blocks and the ratio\<close>

lemma extend_left_ok:
  "common a b blk \<Longrightarrow> inside alo ahi blo bhi blk \<Longrightarrow>
   common a b (extend_left a b alo blo blk) \<and> inside alo ahi blo bhi (extend_left a b alo blo blk)"
proof (induction a b alo blo blk rule: extend_left.induct)
  case (1 a b alo blo i j k)
  show ?case
  proof (cases "i > alo \<and> j > blo \<and> a ! (i - 1) = b ! (j - 1)")
    case True
    have "a ! (i - 1 + x) = b ! (j - 1 + x)" if "x < k + 1" for x
    proof (cases x)
      case (Suc y)
      with True that have "i - 1 + x = i + y" "j - 1 + x = j + y" "y < k" by auto
      with "1.prems"(1) show ?thesis by (simp add: common_def)
    qed (use True in simp)
    then have c: "common a b (i - 1, j - 1, k + 1)" by (simp add: common_def)
    have "inside alo ahi blo bhi (i - 1, j - 1, k + 1)"
      using True "1.prems"(2) by (auto simp: inside_def)
    note ih = "1.IH"[OF True c this]
    from True have "extend_left a b alo blo (i, j, k) = extend_left a b alo blo (i - 1, j - 1, k + 1)"
      by (subst extend_left.simps) (rule if_P)
    with ih show ?thesis by (simp only:)
  next
    case False
    then have "extend_left a b alo blo (i, j, k) = (i, j, k)"
      by (subst extend_left.simps) (rule if_not_P)
    with "1.prems" show ?thesis by (simp only:)
  qed
qed

lemma extend_right_ok:
  "common a b blk \<Longrightarrow> inside alo ahi blo bhi blk \<Longrightarrow>
   common a b (extend_right a b ahi bhi blk) \<and> inside alo ahi blo bhi (extend_right a b ahi bhi blk)"
proof (induction a b ahi bhi blk rule: extend_right.induct)
  case (1 a b ahi bhi i j k)
  show ?case
  proof (cases "i + k < ahi \<and> j + k < bhi \<and> a ! (i + k) = b ! (j + k)")
    case True
    then have "common a b (i, j, k + 1)" "inside alo ahi blo bhi (i, j, k + 1)"
      using "1.prems" by (auto simp: common_def inside_def less_Suc_eq)
    note ih = "1.IH"[OF True this]
    from True have "extend_right a b ahi bhi (i, j, k) = extend_right a b ahi bhi (i, j, k + 1)"
      by (subst extend_right.simps) (rule if_P)
    with ih show ?thesis by (simp only:)
  next
    case False
    then have "extend_right a b ahi bhi (i, j, k) = (i, j, k)"
      by (subst extend_right.simps) (rule if_not_P)
    with "1.prems" show ?thesis by (simp only:)
  qed
qed

lemma find_longest_match_ok:
  "common a b (find_longest_match a b alo ahi blo bhi) \<and>
   inside alo ahi blo bhi (find_longest_match a b alo ahi blo bhi)"
  unfolding find_longest_match_def
  using longest_indexed_ok[of a b alo ahi blo bhi] extend_left_ok extend_right_ok by metis

text \<open>The total size of the matching blocks: the queue of windows is a recursion, because the
  sum does not depend on the order in which the windows are taken.\<close>

function matched :: "'a list \<Rightarrow> 'a list \<Rightarrow> nat \<Rightarrow> nat \<Rightarrow> nat \<Rightarrow> nat \<Rightarrow> nat" where
  "matched a b alo ahi blo bhi =
     (case find_longest_match a b alo ahi blo bhi of (i, j, k) \<Rightarrow>
        if k = 0 then 0
        else k + (if alo < i \<and> blo < j then matched a b alo i blo j else 0)
           + (if i + k < ahi \<and> j + k < bhi then matched a b (i + k) ahi (j + k) bhi else 0))"
  by pat_completeness auto
termination
proof (relation "measure (\<lambda>(a, b, alo, ahi, blo, bhi). ahi - alo)", goal_cases)
  case (2 a b alo ahi blo bhi i jk j k)
  with find_longest_match_ok[of a b alo ahi blo bhi] show ?case by (auto simp: inside_def)
next
  case (3 a b alo ahi blo bhi i jk j k)
  with find_longest_match_ok[of a b alo ahi blo bhi] show ?case by (auto simp: inside_def)
qed simp

declare matched.simps [simp del]

definition ratio :: "'a list \<Rightarrow> 'a list \<Rightarrow> rat" where
  "ratio a b = (if length a + length b = 0 then 1
     else fl_div (2 * of_nat (matched a b 0 (length a) 0 (length b))) (of_nat (length a + length b)))"

text \<open>The blocks never overlap: their total fits both windows.\<close>

lemma matched_le:
  "alo \<le> ahi \<Longrightarrow> blo \<le> bhi \<Longrightarrow> matched a b alo ahi blo bhi \<le> min (ahi - alo) (bhi - blo)"
proof (induction a b alo ahi blo bhi rule: matched.induct)
  case (1 a b alo ahi blo bhi)
  obtain i j k where f: "find_longest_match a b alo ahi blo bhi = (i, j, k)" by (metis surj_pair)
  with find_longest_match_ok[of a b alo ahi blo bhi] "1.prems"
  have w: "alo \<le> i" "i + k \<le> ahi" "blo \<le> j" "j + k \<le> bhi" by (auto simp: inside_def)
  show ?case
  proof (cases "k = 0")
    case False
    have l: "(if alo < i \<and> blo < j then matched a b alo i blo j else 0) \<le> min (i - alo) (j - blo)"
      using "1.IH"(1)[OF f[symmetric] refl False] w by simp
    have r: "(if i + k < ahi \<and> j + k < bhi then matched a b (i + k) ahi (j + k) bhi else 0)
        \<le> min (ahi - (i + k)) (bhi - (j + k))"
      using "1.IH"(2)[OF f[symmetric] refl False] w by simp
    have "matched a b alo ahi blo bhi = k + (if alo < i \<and> blo < j then matched a b alo i blo j else 0)
        + (if i + k < ahi \<and> j + k < bhi then matched a b (i + k) ahi (j + k) bhi else 0)"
      using False by (subst matched.simps) (simp only: f prod.case if_False)
    also have "\<dots> \<le> k + min (i - alo) (j - blo) + min (ahi - (i + k)) (bhi - (j + k))"
      using l r by linarith
    also have "\<dots> \<le> min (ahi - alo) (bhi - blo)" using w by linarith
    finally show ?thesis .
  qed (simp add: matched.simps f)
qed

end
