(* ===== verification/Schema_Diff.thy ===== *)
theory Schema_Diff
  imports Schema_Refs Difflib Findings
begin

text \<open>
  The structural differ of one tool definition (\<open>harness/diff/schema_diff.py\<close>): types, enums,
  constraints, defaults, properties with the rename heuristic, items, annotations. A value of
  the wrong shape raises where the source raises, so every rule returns \<open>pyexc + finding list\<close>.
  Sets of Python values are lists without two equal elements; a set of strings is its sorted
  list.
\<close>

definition fnd ::
  "severity \<Rightarrow> string \<Rightarrow> pystr \<Rightarrow> pystr \<Rightarrow> message \<Rightarrow> json \<Rightarrow> json \<Rightarrow> finding" where
  "fnd sev rule tool path msg b a =
     \<lparr>f_severity = sev, f_rule = rule, f_path = path, f_message = msg, f_tool = Some tool,
      f_before = b, f_after = a\<rparr>"

lemma fnd_simps [simp]:
  "f_severity (fnd sev rule tool path msg b a) = sev"
  "f_rule (fnd sev rule tool path msg b a) = rule"
  "f_path (fnd sev rule tool path msg b a) = path"
  "f_tool (fnd sev rule tool path msg b a) = Some tool"
  by (simp_all add: fnd_def)

section \<open>Helpers\<close>

abbreviation get :: "(pystr \<times> json) list \<Rightarrow> string \<Rightarrow> json" where
  "get d k \<equiv> dict_get d (S k) JNull"

definition has_key :: "(pystr \<times> json) list \<Rightarrow> string \<Rightarrow> bool" where
  "has_key d k \<longleftrightarrow> S k \<in> set (keys d)"

definition type_set :: "(pystr \<times> json) list \<Rightarrow> pystr list" where
  "type_set schema =
     (case get schema ''type'' of
        JStr t \<Rightarrow> [t]
      | JList ts \<Rightarrow> sort (remdups (map str_of (filter is_str ts)))
      | _ \<Rightarrow> if has_key schema ''properties'' then [S ''object'']
             else if has_key schema ''items'' then [S ''array''] else [])"

definition classify_type_change :: "pystr list \<Rightarrow> pystr list \<Rightarrow> (severity \<times> string) option" where
  "classify_type_change prior after =
     (if prior = after then None
      else if prior = [S ''integer''] \<and> after = [S ''number''] then
        Some (WARN, ''widened (integer accepts a subset of number)'')
      else if set prior \<subset> set after then Some (WARN, ''widened (type union gained options)'')
      else Some (BREAKING, ''narrowed or replaced''))"

definition hashable :: "unidata \<Rightarrow> json \<Rightarrow> json" where
  "hashable u v = (case v of
     JDict d \<Rightarrow> JStr (pyrepr (u_printable u) v)
   | JList xs \<Rightarrow> JStr (pyrepr (u_printable u) v)
   | _ \<Rightarrow> v)"

text \<open>Membership in a Python set and a set built from a sequence: the first of equal elements stays.\<close>

definition py_in :: "json \<Rightarrow> json list \<Rightarrow> bool" where
  "py_in v xs \<longleftrightarrow> list_ex (\<lambda>x. py_eq x v) xs"

definition py_set :: "json list \<Rightarrow> json list" where
  "py_set vs = fold (\<lambda>v xs. if py_in v xs then xs else xs @ [v]) vs []"

text \<open>\<open>x or []\<close> and \<open>x or {}\<close> followed by an iteration.\<close>

definition iter_or_empty :: "json \<Rightarrow> pyexc + json list" where
  "iter_or_empty v = (if truthy v then py_iter v else Inr [])"

section \<open>The rename heuristic\<close>

definition rename_confidence_threshold :: rat where "rename_confidence_threshold = dbl (5 / 10)"
definition rename_name_sim_floor :: rat where "rename_name_sim_floor = dbl (3 / 10)"
definition rename_desc_sim_floor :: rat where "rename_desc_sim_floor = dbl (5 / 10)"

definition desc_text :: "unidata \<Rightarrow> (pystr \<times> json) list \<Rightarrow> pystr" where
  "desc_text u schema = (let v = get schema ''description'' in
     if truthy v then pystring (u_printable u) v else [])"

definition rename_confidence ::
  "unidata \<Rightarrow> pystr \<Rightarrow> pystr \<Rightarrow> (pystr \<times> json) list \<Rightarrow> (pystr \<times> json) list \<Rightarrow> rat option" where
  "rename_confidence u old_name new_name old_schema new_schema =
     (let old_types = type_set old_schema; new_types = type_set new_schema in
      if old_types \<noteq> [] \<and> new_types \<noteq> [] \<and> old_types \<noteq> new_types then None
      else
        let name_sim = ratio (u_lower u old_name) (u_lower u new_name);
            old_desc = desc_text u old_schema;
            new_desc = desc_text u new_schema;
            desc_sim = (if old_desc \<noteq> [] \<or> new_desc \<noteq> []
                        then Some (ratio (u_lower u old_desc) (u_lower u new_desc)) else None);
            confidence = (case desc_sim of
                Some ds \<Rightarrow> fl_add (fl_mul (dbl (6 / 10)) name_sim) (fl_mul (dbl (4 / 10)) ds)
              | None \<Rightarrow> name_sim)
        in if name_sim < rename_name_sim_floor \<and>
              (case desc_sim of None \<Rightarrow> True | Some ds \<Rightarrow> ds < rename_desc_sim_floor)
           then None else Some confidence)"

type_synonym props = "(pystr \<times> (pystr \<times> json) list) list"

definition prop_of :: "props \<Rightarrow> pystr \<Rightarrow> (pystr \<times> json) list" where
  "prop_of ps n = (case map_of ps n of Some d \<Rightarrow> d | None \<Rightarrow> [])"

definition rename_candidates ::
  "unidata \<Rightarrow> pystr list \<Rightarrow> pystr list \<Rightarrow> props \<Rightarrow> props \<Rightarrow> (rat \<times> pystr \<times> pystr) list" where
  "rename_candidates u removed added before_props after_props =
     concat (map (\<lambda>old. List.map_filter (\<lambda>new.
       case rename_confidence u old new (prop_of before_props old) (prop_of after_props new) of
         Some conf \<Rightarrow> if conf \<ge> rename_confidence_threshold then Some (conf, old, new) else None
       | None \<Rightarrow> None) added) removed)"

text \<open>The loop over the candidates, best first: the pairs so far hold the used names.\<close>

definition take_pair ::
  "(rat \<times> pystr \<times> pystr) \<Rightarrow> (pystr \<times> pystr \<times> rat) list \<Rightarrow> (pystr \<times> pystr \<times> rat) list" where
  "take_pair c pairs =
     (case c of (conf, old, new) \<Rightarrow>
        if old \<in> set (map fst pairs) \<or> new \<in> set (map (\<lambda>q. fst (snd q)) pairs) then pairs
        else pairs @ [(old, new, conf)])"

definition match_renames ::
  "unidata \<Rightarrow> pystr list \<Rightarrow> pystr list \<Rightarrow> props \<Rightarrow> props \<Rightarrow>
   (pystr \<times> pystr \<times> rat) list \<times> pystr list \<times> pystr list" where
  "match_renames u removed added before_props after_props =
     (if removed = [] \<or> added = [] then ([], removed, added)
      else
        let candidates = sort_key (\<lambda>c. - fst c) (rename_candidates u removed added before_props after_props);
            pairs = fold take_pair candidates []
        in (pairs,
            filter (\<lambda>n. n \<notin> set (map fst pairs)) removed,
            filter (\<lambda>n. n \<notin> set (map (\<lambda>q. fst (snd q)) pairs)) added))"

section \<open>The rules on one node\<close>

definition types_shown :: "pystr list \<Rightarrow> json" where
  "types_shown ts = (if ts = [] then JStr (S ''any'') else JList (map JStr ts))"

definition diff_type ::
  "pystr \<Rightarrow> pystr \<Rightarrow> (pystr \<times> json) list \<Rightarrow> (pystr \<times> json) list \<Rightarrow> finding list" where
  "diff_type tool pointer prior after =
     (case classify_type_change (type_set prior) (type_set after) of
        None \<Rightarrow> []
      | Some (severity, kind) \<Rightarrow>
          [fnd severity ''TYPE_CHANGED'' tool (pointer @ S ''/type'')
            [Lit ''type '', Lit kind, Lit '': '', Shown (types_shown (type_set prior)),
             Lit '' -> '', Shown (types_shown (type_set after))]
            (JList (map JStr (type_set prior))) (JList (map JStr (type_set after)))])"

text \<open>\<open>sorted(removed, key=str)\<close>: elements with the same text stay in the order of the list.\<close>

definition diff_enum ::
  "unidata \<Rightarrow> pystr \<Rightarrow> pystr \<Rightarrow> (pystr \<times> json) list \<Rightarrow> (pystr \<times> json) list \<Rightarrow> pyexc + finding list" where
  "diff_enum u tool pointer prior after =
     (let b_enum = get prior ''enum''; a_enum = get after ''enum'';
          by_str = sort_key (pystring (u_printable u)) in
      if b_enum = JNull \<and> a_enum = JNull then Inr []
      else bindE (iter_or_empty b_enum) (\<lambda>bs. bindE (iter_or_empty a_enum) (\<lambda>as.
        let b_set = py_set (map (hashable u) bs); a_set = py_set (map (hashable u) as);
            removed = filter (\<lambda>v. \<not> py_in v a_set) b_set;
            added = filter (\<lambda>v. \<not> py_in v b_set) a_set in
        Inr ((if removed = [] then [] else
               [fnd BREAKING ''ENUM_VALUE_REMOVED'' tool (pointer @ S ''/enum'')
                 [Lit ''enum values removed, callers using them will now be rejected: '',
                  Shown (JList (by_str removed))] b_enum a_enum])
           @ (if added = [] then [] else
               [fnd INFO ''ENUM_VALUE_ADDED'' tool (pointer @ S ''/enum'')
                 [Lit ''enum values added: '', Shown (JList (by_str added))] b_enum a_enum])))))"

text \<open>An upper bound (\<open>lower = False\<close>) is tightened when it gets smaller, a lower bound when it
  gets larger; the comparison raises when the old bound is no number.\<close>

definition diff_bound ::
  "bool \<Rightarrow> pystr \<Rightarrow> pystr \<Rightarrow> (pystr \<times> json) list \<Rightarrow> (pystr \<times> json) list \<Rightarrow> string \<Rightarrow> pyexc + finding list" where
  "diff_bound lower tool pointer prior after key =
     (let b = get prior key; a = get after key;
          hit = [fnd WARN ''CONSTRAINT_TIGHTENED'' tool (pointer @ S ''/'' @ S key)
                  [Lit key, Lit '' tightened from '', Shown b, Lit '' to '', Shown a] b a] in
      case numval a of
        None \<Rightarrow> Inr []
      | Some x \<Rightarrow>
          if b = JNull then Inr hit
          else case numval b of
              None \<Rightarrow> Inl TypeError
            | Some y \<Rightarrow> Inr (if (if lower then num_less y x else num_less x y) then hit else []))"

definition diff_text_constraint ::
  "pystr \<Rightarrow> pystr \<Rightarrow> (pystr \<times> json) list \<Rightarrow> (pystr \<times> json) list \<Rightarrow> string \<Rightarrow> finding list" where
  "diff_text_constraint tool pointer prior after key =
     (let b = get prior key; a = get after key in
      if a \<noteq> JNull \<and> \<not> py_eq a b then
        [fnd WARN ''CONSTRAINT_TIGHTENED'' tool (pointer @ S ''/'' @ S key)
          [Lit key, Lit '' '', Lit (if b = JNull then ''added'' else ''changed''), Lit '': '', Rep b,
           Lit '' -> '', Rep a, Lit '' (treated as tightening; loosening isn't distinguished)''] b a]
      else [])"

definition diff_constraints ::
  "pystr \<Rightarrow> pystr \<Rightarrow> (pystr \<times> json) list \<Rightarrow> (pystr \<times> json) list \<Rightarrow> pyexc + finding list" where
  "diff_constraints tool pointer prior after =
     bindE (mapE (diff_bound False tool pointer prior after) [''maximum'', ''maxLength'', ''exclusiveMaximum'']) (\<lambda>ups.
     bindE (mapE (diff_bound True tool pointer prior after) [''minimum'', ''minLength'', ''exclusiveMinimum'']) (\<lambda>lows.
     Inr (concat ups @ concat lows
        @ concat (map (diff_text_constraint tool pointer prior after) [''pattern'', ''format'']))))"

text \<open>A default that is missing (\<open>_MISSING\<close>) is \<open>None\<close>; it equals no value, not even null.\<close>

definition diff_default ::
  "pystr \<Rightarrow> pystr \<Rightarrow> (pystr \<times> json) list \<Rightarrow> (pystr \<times> json) list \<Rightarrow> finding list" where
  "diff_default tool pointer prior after =
     (let b = map_of prior (S ''default''); a = map_of after (S ''default'');
          val = (\<lambda>x. case x of Some v \<Rightarrow> v | None \<Rightarrow> JNull);
          hit = [fnd WARN ''DEFAULT_CHANGED'' tool (pointer @ S ''/default'')
                  [Lit ''default changed from '', Rep (val b), Lit '' to '', Rep (val a)] (val b) (val a)] in
      case (a, b) of
        (None, None) \<Rightarrow> []
      | (Some x, Some y) \<Rightarrow> if py_eq x y then [] else hit
      | _ \<Rightarrow> hit)"

definition diff_additional_properties ::
  "pystr \<Rightarrow> pystr \<Rightarrow> (pystr \<times> json) list \<Rightarrow> (pystr \<times> json) list \<Rightarrow> finding list" where
  "diff_additional_properties tool pointer prior after =
     (let b = dict_get prior (S ''additionalProperties'') (JBool True);
          a = dict_get after (S ''additionalProperties'') (JBool True);
          b_allows = (b = JBool True \<or> is_dict b) in
      if b_allows \<and> a = JBool False then
        [fnd BREAKING ''ADDITIONAL_PROPERTIES_RESTRICTED'' tool (pointer @ S ''/additionalProperties'')
          [Lit ''additionalProperties changed from allowed to false; extra fields will now be rejected''] b a]
      else [])"

section \<open>Properties\<close>

text \<open>\<open>(schema.get("properties") or {}).items()\<close>, the entries that are dictionaries.\<close>

definition props_of :: "(pystr \<times> json) list \<Rightarrow> pyexc + props" where
  "props_of schema =
     (let v = get schema ''properties'' in
      if \<not> truthy v then Inr []
      else case v of
          JDict d \<Rightarrow> Inr (List.map_filter (\<lambda>(k, w). case w of JDict e \<Rightarrow> Some (k, e) | _ \<Rightarrow> None) d)
        | _ \<Rightarrow> Inl AttributeError)"

text \<open>\<open>set(schema.get("required") or [])\<close>: a list or dictionary inside is unhashable.\<close>

definition required_of :: "(pystr \<times> json) list \<Rightarrow> pyexc + json list" where
  "required_of schema =
     bindE (iter_or_empty (get schema ''required'')) (\<lambda>xs.
       if list_ex (\<lambda>v. is_dict v \<or> is_list v) xs then Inl TypeError else Inr xs)"

definition prop_path :: "pystr \<Rightarrow> pystr \<Rightarrow> pystr" where
  "prop_path pointer name = pointer @ S ''/properties/'' @ name"

definition renamed_finding ::
  "pystr \<Rightarrow> pystr \<Rightarrow> props \<Rightarrow> props \<Rightarrow> pystr \<times> pystr \<times> rat \<Rightarrow> finding" where
  "renamed_finding tool pointer b_props a_props p =
     (case p of (old, new, conf) \<Rightarrow>
        fnd BREAKING ''PARAM_RENAMED'' tool (prop_path pointer new)
          [Lit ''parameter '', Rep (JStr old), Lit '' looks renamed to '', Rep (JStr new),
           Lit '' (confidence='', Txt (fixed2 conf), Lit ''); callers still sending '', Rep (JStr old),
           Lit '' will break'']
          (JDict (dict_merge [(S ''name'', JStr old)] (prop_of b_props old)))
          (JDict (dict_merge [(S ''name'', JStr new)] (prop_of a_props new))))"

definition removed_finding :: "pystr \<Rightarrow> pystr \<Rightarrow> props \<Rightarrow> pystr \<Rightarrow> finding" where
  "removed_finding tool pointer b_props name =
     fnd BREAKING ''PARAM_REMOVED'' tool (prop_path pointer name)
       [Lit ''parameter '', Rep (JStr name), Lit '' was removed''] (JDict (prop_of b_props name)) JNull"

definition added_finding :: "pystr \<Rightarrow> pystr \<Rightarrow> props \<Rightarrow> json list \<Rightarrow> pystr \<Rightarrow> finding" where
  "added_finding tool pointer a_props a_required name =
     (let is_required = JStr name \<in> set a_required in
      fnd (if is_required then BREAKING else INFO)
        (if is_required then ''PARAM_ADDED_REQUIRED'' else ''PARAM_ADDED_OPTIONAL'')
        tool (prop_path pointer name)
        [Lit (if is_required then ''required'' else ''optional''), Lit '' parameter '', Rep (JStr name),
         Lit '' was added''] JNull (JDict (prop_of a_props name)))"

definition required_finding ::
  "pystr \<Rightarrow> pystr \<Rightarrow> json list \<Rightarrow> json list \<Rightarrow> pystr \<Rightarrow> finding list" where
  "required_finding tool pointer b_required a_required name =
     (let was_required = JStr name \<in> set b_required; is_required = JStr name \<in> set a_required in
      if is_required \<and> \<not> was_required then
        [fnd BREAKING ''REQUIRED_ADDED'' tool (prop_path pointer name)
          [Lit ''parameter '', Rep (JStr name), Lit '' became required''] (JBool False) (JBool True)]
      else if was_required \<and> \<not> is_required then
        [fnd INFO ''REQUIRED_REMOVED'' tool (prop_path pointer name)
          [Lit ''parameter '', Rep (JStr name), Lit '' is no longer required''] (JBool True) (JBool False)]
      else [])"

definition presence_findings ::
  "unidata \<Rightarrow> pystr \<Rightarrow> pystr \<Rightarrow> props \<Rightarrow> props \<Rightarrow> json list \<Rightarrow> finding list" where
  "presence_findings u tool pointer b_props a_props a_required =
     (let removed_names = filter (\<lambda>n. n \<notin> set (keys a_props)) (keys b_props);
          added_names = filter (\<lambda>n. n \<notin> set (keys b_props)) (keys a_props) in
      case match_renames u removed_names added_names b_props a_props of
        (renamed_pairs, leftover_removed, leftover_added) \<Rightarrow>
          map (renamed_finding tool pointer b_props a_props) renamed_pairs
          @ map (removed_finding tool pointer b_props) leftover_removed
          @ map (added_finding tool pointer a_props a_required) leftover_added)"

section \<open>The recursion over the schema\<close>

abbreviation dsize :: "(pystr \<times> json) list \<Rightarrow> nat" where
  "dsize \<equiv> size_list (size_prod (\<lambda>x. 0) size)"

lemma dsize_items: "dsize (dict_items v) \<le> size v"
  by (cases v) auto

lemma dsize_get: "size (dict_get d k JNull) \<le> dsize d" "is_dict (dict_get d k JNull) \<Longrightarrow> size (dict_get d k JNull) < dsize d"
proof -
  have "size v < dsize d" if "map_of d k = Some v" for v
    using map_of_SomeD[OF that] by (induction d) auto
  then show "size (dict_get d k JNull) \<le> dsize d"
    "is_dict (dict_get d k JNull) \<Longrightarrow> size (dict_get d k JNull) < dsize d"
    by (auto split: option.splits simp: less_imp_le)
qed

lemma props_size:
  assumes "props_of d = Inr ps" "n \<in> set (keys ps)"
  shows "size (JDict (prop_of ps n)) < dsize d"
proof -
  obtain e where e: "get d ''properties'' = JDict e"
    and ps: "ps = List.map_filter (\<lambda>(k, w). case w of JDict e \<Rightarrow> Some (k, e) | _ \<Rightarrow> None) e"
    using assms by (auto simp: props_of_def Let_def simp del: dict_get.simps split: if_splits json.splits)
  obtain x where "map_of ps n = Some x" using assms(2) by (metis map_of_eq_None_keys option.exhaust)
  then have x: "prop_of ps n = x" "(n, x) \<in> set ps" by (simp_all add: prop_of_def map_of_SomeD)
  then have "(n, JDict x) \<in> set e"
    unfolding ps by (auto simp: List.map_filter_def split: json.splits)
  then have "size (JDict x) < size (JDict e)" using size_JDict[of n "JDict x" e] by simp
  moreover have "size (JDict e) < dsize d" using dsize_get(2)[of d "S ''properties''"] by (simp add: e del: dict_get.simps)
  ultimately show ?thesis by (simp add: x)
qed

function (sequential) diff_node ::
    "unidata \<Rightarrow> pystr \<Rightarrow> pystr \<Rightarrow> json \<Rightarrow> json \<Rightarrow> pyexc + finding list"
  and diff_properties ::
    "unidata \<Rightarrow> pystr \<Rightarrow> pystr \<Rightarrow> (pystr \<times> json) list \<Rightarrow> (pystr \<times> json) list \<Rightarrow> pyexc + finding list"
where
  "diff_node u tool pointer before_any after_any =
     (let prior = dict_items before_any; after = dict_items after_any;
          before_types = type_set prior; after_types = type_set after;
          objectish = (S ''object'' \<in> set before_types \<or> S ''object'' \<in> set after_types
             \<or> has_key prior ''properties'' \<or> has_key after ''properties'');
          arrayish = (S ''array'' \<in> set before_types \<or> S ''array'' \<in> set after_types
             \<or> has_key prior ''items'' \<or> has_key after ''items'') in
      bindE (diff_enum u tool pointer prior after) (\<lambda>enum.
      bindE (diff_constraints tool pointer prior after) (\<lambda>constraints.
      bindE (if objectish
             then bindE (diff_properties u tool pointer prior after)
                    (\<lambda>fs. Inr (fs @ diff_additional_properties tool pointer prior after))
             else Inr []) (\<lambda>object.
      bindE (if arrayish \<and> (is_dict (get prior ''items'') \<or> is_dict (get after ''items''))
             then diff_node u tool (pointer @ S ''/items'') (get prior ''items'') (get after ''items'')
             else Inr []) (\<lambda>items.
      Inr (diff_type tool pointer prior after @ enum @ constraints
           @ diff_default tool pointer prior after @ object @ items))))))"
| "diff_properties u tool pointer prior after =
     bindE (props_of prior) (\<lambda>b_props.
     bindE (props_of after) (\<lambda>a_props.
     bindE (required_of prior) (\<lambda>b_required.
     bindE (required_of after) (\<lambda>a_required.
     bindE (mapE (\<lambda>name. bindE (diff_node u tool (prop_path pointer name)
                    (JDict (prop_of b_props name)) (JDict (prop_of a_props name)))
                  (\<lambda>fs. Inr (required_finding tool pointer b_required a_required name @ fs)))
              (filter (\<lambda>n. n \<in> set (keys a_props)) (keys b_props))) (\<lambda>common.
     Inr (presence_findings u tool pointer b_props a_props a_required @ concat common))))))"
  by pat_completeness auto
termination
proof (relation "measure (\<lambda>x. case x of
      Inl (u, tool, pointer, b, a) \<Rightarrow> Suc (2 * (size b + size a))
    | Inr (u, tool, pointer, b, a) \<Rightarrow> 2 * (dsize b + dsize a))", goal_cases)
  case (2 u tool pointer b a)
  with dsize_items[of b] dsize_items[of a] show ?case by simp
next
  case (3 u tool pointer b a)
  then have "is_dict (get (dict_items b) ''items'') \<or> is_dict (get (dict_items a) ''items'')" by blast
  then have "size (get (dict_items b) ''items'') + size (get (dict_items a) ''items'')
      < dsize (dict_items b) + dsize (dict_items a)"
    using dsize_get[of "dict_items b" "S ''items''"] dsize_get[of "dict_items a" "S ''items''"] by linarith
  with dsize_items[of b] dsize_items[of a] 3 show ?case by simp
next
  case (4 u tool pointer prior after b_props a_props b_required a_required name)
  then have "size (JDict (prop_of b_props name)) < dsize prior" "size (JDict (prop_of a_props name)) < dsize after"
    using props_size[of prior b_props name] props_size[of after a_props name] by simp_all
  then show ?case by simp
qed simp

definition diff_json_schema :: "unidata \<Rightarrow> pystr \<Rightarrow> pystr \<Rightarrow> json \<Rightarrow> json \<Rightarrow> pyexc + finding list" where
  "diff_json_schema u tool pointer before_schema after_schema =
     diff_node u tool pointer before_schema after_schema"

section \<open>Annotations and the whole tool\<close>

text \<open>The keys of both annotation objects, sorted. A value that is no object still iterates if it
  is a list or a string; then the set, the sort or the first \<open>.get\<close> raises.\<close>

definition ann_keys :: "json \<Rightarrow> json \<Rightarrow> pyexc + pystr list" where
  "ann_keys before_ann after_ann =
     bindE (iter_or_empty before_ann) (\<lambda>bs. if list_ex (\<lambda>v. is_dict v \<or> is_list v) bs then Inl TypeError else
     bindE (iter_or_empty after_ann) (\<lambda>as. if list_ex (\<lambda>v. is_dict v \<or> is_list v) as then Inl TypeError else
       let names = py_set (bs @ as) in
       if list_all is_str names then
         if list_all (\<lambda>v. truthy v \<longrightarrow> is_dict v) [before_ann, after_ann]
         then Inr (sort (map str_of names)) else Inl AttributeError
       else if length names \<le> 1 \<or> list_all (\<lambda>v. numval v \<noteq> None) names then Inl AttributeError
       else Inl TypeError))"

definition annotation_finding :: "pystr \<Rightarrow> json \<Rightarrow> json \<Rightarrow> pystr \<Rightarrow> finding list" where
  "annotation_finding tool before_ann after_ann key =
     (let b = dict_get (dict_items before_ann) key JNull; a = dict_get (dict_items after_ann) key JNull;
          path = S ''/annotations/'' @ key in
      if py_eq b a then []
      else if key = S ''readOnlyHint'' \<and> b = JBool True \<and> a = JBool False then
        [fnd SECURITY ''ANNOTATION_CHANGED'' tool path
          [Lit ''readOnlyHint flipped true -> false: a tool advertised as read-only can now mutate state''] b a]
      else if key = S ''destructiveHint'' \<and> b = JBool False \<and> a = JBool True then
        [fnd SECURITY ''ANNOTATION_CHANGED'' tool path
          [Lit ''destructiveHint flipped false -> true: a non-destructive tool can now do damage''] b a]
      else
        [fnd INFO ''ANNOTATION_CHANGED'' tool path
          [Lit ''annotation '', Rep (JStr key), Lit '' changed from '', Rep b, Lit '' to '', Rep a] b a])"

definition diff_annotations :: "pystr \<Rightarrow> json \<Rightarrow> json \<Rightarrow> pyexc + finding list" where
  "diff_annotations tool before_ann after_ann =
     bindE (ann_keys before_ann after_ann)
       (\<lambda>ks. Inr (concat (map (annotation_finding tool before_ann after_ann) ks)))"

text \<open>\<open>resolve_local_refs(tool.get(k) or {}, tool.get(k) or {})\<close>\<close>

definition resolved_schema :: "unidata \<Rightarrow> (pystr \<times> json) list \<Rightarrow> string \<Rightarrow> pyexc + json" where
  "resolved_schema u tool_def k =
     (let v = (if truthy (get tool_def k) then get tool_def k else JDict []) in resolve_local_refs u v v {})"

definition diff_tool ::
  "unidata \<Rightarrow> pystr \<Rightarrow> (pystr \<times> json) list \<Rightarrow> (pystr \<times> json) list \<Rightarrow> pyexc + finding list" where
  "diff_tool u tool_name before_tool after_tool =
     bindE (resolved_schema u before_tool ''inputSchema'') (\<lambda>before_input.
     bindE (resolved_schema u after_tool ''inputSchema'') (\<lambda>after_input.
     bindE (diff_json_schema u tool_name (S ''/inputSchema'') before_input after_input) (\<lambda>input_findings.
     bindE (if has_key before_tool ''outputSchema'' \<or> has_key after_tool ''outputSchema'' then
              bindE (resolved_schema u before_tool ''outputSchema'') (\<lambda>before_output.
              bindE (resolved_schema u after_tool ''outputSchema'') (\<lambda>after_output.
              diff_json_schema u tool_name (S ''/outputSchema'') before_output after_output))
            else Inr []) (\<lambda>output_findings.
     bindE (diff_annotations tool_name (get before_tool ''annotations'') (get after_tool ''annotations''))
       (\<lambda>ann_findings. Inr (input_findings @ output_findings @ ann_findings))))))"

end
