(* ===== verification/Schema_Facts.thy ===== *)
theory Schema_Facts
  imports Schema_Diff
begin

text \<open>
  What the structural differ guarantees: it returns on every pair of well-shaped schemas, it is
  silent on an unchanged tool, it never lets a lost or newly required parameter pass, and the
  rename heuristic is a matching.
\<close>

section \<open>Well-shaped schemas\<close>

definition bound_keys :: "string list" where
  "bound_keys = [''maximum'', ''maxLength'', ''exclusiveMaximum'', ''minimum'', ''minLength'', ''exclusiveMinimum'']"

definition shaped_here :: "(pystr \<times> json) list \<Rightarrow> bool" where
  "shaped_here d \<longleftrightarrow>
     (get d ''enum'' = JNull \<or> is_list (get d ''enum'')) \<and>
     list_all (\<lambda>k. get d k = JNull \<or> numval (get d k) \<noteq> None) bound_keys \<and>
     (get d ''properties'' = JNull \<or> is_dict (get d ''properties'')) \<and>
     (case get d ''required'' of JNull \<Rightarrow> True | JList xs \<Rightarrow> list_all is_str xs | _ \<Rightarrow> False)"

function shaped :: "json \<Rightarrow> bool" where
  "shaped (JDict d) \<longleftrightarrow> shaped_here d \<and> list_all (\<lambda>(k, w). shaped w) (dict_items (get d ''properties''))
     \<and> shaped (get d ''items'')"
| "shaped JNull \<longleftrightarrow> True"
| "shaped (JBool b) \<longleftrightarrow> True"
| "shaped (JInt i) \<longleftrightarrow> True"
| "shaped (JFloat x) \<longleftrightarrow> True"
| "shaped (JStr s) \<longleftrightarrow> True"
| "shaped (JList xs) \<longleftrightarrow> True"
  by pat_completeness auto
termination
proof (relation "measure size", goal_cases)
  case (2 d kv k w)
  then obtain e where e: "get d ''properties'' = JDict e" "(k, w) \<in> set e"
    by (cases "get d ''properties''") auto
  with size_JDict[OF e(2)] dsize_get(1)[of d "S ''properties''"] show ?case by (simp del: dict_get.simps)
next
  case (3 d)
  with dsize_get(1)[of d "S ''items''"] show ?case by (simp del: dict_get.simps)
qed simp

declare dict_get.simps [simp del] diff_node.simps [simp del] diff_properties.simps [simp del]

lemma shaped_items: "shaped v \<Longrightarrow> shaped (JDict (dict_items v))"
  by (cases v) (simp_all add: shaped_here_def dict_get.simps bound_keys_def)

section \<open>No exception on well-shaped schemas\<close>

lemma diff_enum_total:
  "shaped_here b \<Longrightarrow> shaped_here a \<Longrightarrow> \<exists>fs. diff_enum u t p b a = Inr fs"
proof -
  have ex: "\<exists>xs. iter_or_empty (get d ''enum'') = Inr xs" if "shaped_here d" for d
    using that by (cases "get d ''enum''") (simp_all add: shaped_here_def iter_or_empty_def)
  assume "shaped_here b" "shaped_here a"
  then obtain bs as where "iter_or_empty (get b ''enum'') = Inr bs" "iter_or_empty (get a ''enum'') = Inr as"
    using ex by blast
  then show ?thesis by (auto simp: diff_enum_def Let_def)
qed

lemma mapE_total: "(\<And>x. x \<in> set xs \<Longrightarrow> \<exists>y. f x = Inr y) \<Longrightarrow> \<exists>ys. mapE f xs = Inr ys"
  by (induction xs) (auto, metis bindE_simps(2) list.set_intros)

lemma bindE_total: "\<exists>x. m = Inr x \<Longrightarrow> (\<And>x. m = Inr x \<Longrightarrow> \<exists>y. f x = Inr y) \<Longrightarrow> \<exists>y. bindE m f = Inr y"
  by auto

lemma diff_bound_total:
  "shaped_here b \<Longrightarrow> k \<in> set bound_keys \<Longrightarrow> \<exists>fs. diff_bound lower t p b a k = Inr fs"
  by (auto simp: diff_bound_def shaped_here_def list_all_iff Let_def split: option.splits)

lemma diff_constraints_total: "shaped_here b \<Longrightarrow> \<exists>fs. diff_constraints t p b a = Inr fs"
proof -
  assume b: "shaped_here b"
  have "\<exists>us. mapE (diff_bound False t p b a) [''maximum'', ''maxLength'', ''exclusiveMaximum''] = Inr us"
    by (intro mapE_total diff_bound_total[OF b]) (auto simp: bound_keys_def)
  moreover have "\<exists>ls. mapE (diff_bound True t p b a) [''minimum'', ''minLength'', ''exclusiveMinimum''] = Inr ls"
    by (intro mapE_total diff_bound_total[OF b]) (auto simp: bound_keys_def)
  ultimately show ?thesis by (auto simp: diff_constraints_def simp del: mapE.simps)
qed

lemma props_of_total: "shaped_here d \<Longrightarrow> \<exists>ps. props_of d = Inr ps"
  by (cases "get d ''properties''") (auto simp: shaped_here_def props_of_def Let_def)

lemma required_of_total: "shaped_here d \<Longrightarrow> \<exists>rs. required_of d = Inr rs"
  by (cases "get d ''required''")
    (auto simp: shaped_here_def required_of_def iter_or_empty_def list_ex_iff list_all_iff elim!: is_str.elims)

lemma prop_of_mem:
  assumes "props_of d = Inr ps" "n \<in> set (keys ps)"
  shows "(n, JDict (prop_of ps n)) \<in> set (dict_items (get d ''properties''))"
proof -
  obtain e where e: "get d ''properties'' = JDict e"
    and ps: "ps = List.map_filter (\<lambda>(k, w). case w of JDict e \<Rightarrow> Some (k, e) | _ \<Rightarrow> None) e"
    using assms by (auto simp: props_of_def Let_def split: if_splits json.splits)
  obtain x where "map_of ps n = Some x" using assms(2) by (metis map_of_eq_None_keys option.exhaust)
  then have x: "prop_of ps n = x" "(n, x) \<in> set ps" by (simp_all add: prop_of_def map_of_SomeD)
  then show ?thesis unfolding ps e by (auto simp: List.map_filter_def split: json.splits)
qed

lemma shaped_prop:
  "shaped (JDict d) \<Longrightarrow> props_of d = Inr ps \<Longrightarrow> n \<in> set (keys ps) \<Longrightarrow> shaped (JDict (prop_of ps n))"
  using prop_of_mem[of d ps n] unfolding shaped.simps(1)[of d] by (fastforce simp only: list_all_iff)

lemma diff_total:
  "shaped b \<Longrightarrow> shaped a \<Longrightarrow> \<exists>fs. diff_node u t p b a = Inr fs"
  "shaped (JDict d) \<Longrightarrow> shaped (JDict e) \<Longrightarrow> \<exists>fs. diff_properties u t p d e = Inr fs"
proof (induction u t p b a and u t p d e rule: diff_node_diff_properties.induct)
  case (1 u t p b a)
  let ?b = "dict_items b" and ?a = "dict_items a"
  have sb: "shaped (JDict ?b)" and sa: "shaped (JDict ?a)" using 1(3,4) shaped_items by blast+
  then have "\<exists>x. diff_enum u t p ?b ?a = Inr x" "\<exists>y. diff_constraints t p ?b ?a = Inr y"
    using diff_enum_total diff_constraints_total by auto
  then obtain x y where xy: "diff_enum u t p ?b ?a = Inr x" "diff_constraints t p ?b ?a = Inr y" by blast
  have items: "shaped (get ?b ''items'')" "shaped (get ?a ''items'')" using sb sa by auto
  let ?obj = "if S ''object'' \<in> set (type_set ?b) \<or> S ''object'' \<in> set (type_set ?a)
      \<or> has_key ?b ''properties'' \<or> has_key ?a ''properties''
    then bindE (diff_properties u t p ?b ?a)
           (\<lambda>fs. Inr (fs @ diff_additional_properties t p ?b ?a)) else Inr []"
  let ?arr = "(S ''array'' \<in> set (type_set ?b) \<or> S ''array'' \<in> set (type_set ?a)
      \<or> has_key ?b ''items'' \<or> has_key ?a ''items'')
    \<and> (is_dict (get ?b ''items'') \<or> is_dict (get ?a ''items''))"
  have "\<exists>x. ?obj = Inr x"
  proof (cases "S ''object'' \<in> set (type_set ?b) \<or> S ''object'' \<in> set (type_set ?a)
      \<or> has_key ?b ''properties'' \<or> has_key ?a ''properties''")
    case True
    from 1(1)[OF refl refl refl refl refl refl xy True sb sa] show ?thesis unfolding if_P[OF True] by auto
  next
    case False
    then show ?thesis by (subst if_not_P) blast+
  qed
  then obtain ob where ob: "?obj = Inr ob" by blast
  have "\<exists>x. (if ?arr then diff_node u t (p @ S ''/items'') (get ?b ''items'') (get ?a ''items'') else Inr []) = Inr x"
  proof (cases ?arr)
    case True
    from 1(2)[OF refl refl refl refl refl refl xy ob True items] show ?thesis unfolding if_P[OF True] .
  next
    case False
    then show ?thesis by (subst if_not_P) blast+
  qed
  then obtain it where it: "(if ?arr then diff_node u t (p @ S ''/items'') (get ?b ''items'') (get ?a ''items'')
      else Inr []) = Inr it" by blast
  show ?case
    by (subst diff_node.simps) (simp only: Let_def xy bindE_simps ob it, blast)
next
  case (2 u t p d e)
  obtain bp ap br ar where pr: "props_of d = Inr bp" "props_of e = Inr ap"
      "required_of d = Inr br" "required_of e = Inr ar"
    using 2(2,3) props_of_total required_of_total by (metis shaped.simps(1))
  have "\<exists>ys. mapE (\<lambda>name. bindE (diff_node u t (prop_path p name) (JDict (prop_of bp name)) (JDict (prop_of ap name)))
                  (\<lambda>fs. Inr (required_finding t p br ar name @ fs)))
              (filter (\<lambda>n. n \<in> set (keys ap)) (keys bp)) = Inr ys"
  proof (rule mapE_total)
    fix n
    assume n: "n \<in> set (filter (\<lambda>n. n \<in> set (keys ap)) (keys bp))"
    then have "shaped (JDict (prop_of bp n))" "shaped (JDict (prop_of ap n))"
      using shaped_prop[OF 2(2) pr(1)] shaped_prop[OF 2(3) pr(2)] by auto
    with 2(1)[OF pr n] show "\<exists>y. bindE (diff_node u t (prop_path p n) (JDict (prop_of bp n)) (JDict (prop_of ap n)))
        (\<lambda>fs. Inr (required_finding t p br ar n @ fs)) = Inr y" by auto
  qed
  then show ?case by (auto simp: pr diff_properties.simps)
qed

section \<open>An unchanged schema\<close>

lemma py_set_subset: "set (py_set vs) \<subseteq> set vs"
proof -
  have "set (fold (\<lambda>v xs. if py_in v xs then xs else xs @ [v]) vs xs) \<subseteq> set vs \<union> set xs" for xs
    by (induction vs arbitrary: xs) (force split: if_splits)+
  from this[of "[]"] show ?thesis by (simp add: py_set_def)
qed

lemma py_in_self: "v \<in> set xs \<Longrightarrow> py_eq v v \<Longrightarrow> py_in v xs"
  by (auto simp: py_in_def list_ex_iff)

lemma hashable_eq: "wf_json v \<Longrightarrow> no_nan v \<Longrightarrow> py_eq (hashable u v) (hashable u v)"
  using py_eq_refl[of v] by (cases v) (simp_all add: hashable_def)

lemma py_iter_ok:
  assumes "py_iter v = Inr xs" "wf_json v" "no_nan v" "x \<in> set xs"
  shows "wf_json x \<and> no_nan x"
  using assms by (cases v) (auto simp: list_all_iff wf_str_def split: prod.splits)

lemma iter_or_empty_ok:
  assumes "iter_or_empty v = Inr xs" "wf_json v" "no_nan v" "x \<in> set xs"
  shows "wf_json x \<and> no_nan x"
  using assms py_iter_ok by (auto simp: iter_or_empty_def split: if_splits)

lemma get_ok:
  assumes "wf_json (JDict d)" "no_nan (JDict d)"
  shows "wf_json (dict_get d k JNull)" "no_nan (dict_get d k JNull)"
  using assms by (auto simp: dict_get.simps list_all_iff split: option.splits dest!: map_of_SomeD)

definition good :: "json \<Rightarrow> bool" where
  "good v \<longleftrightarrow> wf_json v \<and> no_nan v"

lemma good_items: "good v \<Longrightarrow> good (JDict (dict_items v))"
  by (cases v) (simp_all add: good_def)

lemma good_get: "good (JDict d) \<Longrightarrow> good (dict_get d k JNull)"
  unfolding good_def using get_ok by blast

lemma good_refl: "good v \<Longrightarrow> py_eq v v"
  unfolding good_def using py_eq_refl by blast

lemma good_prop:
  "good (JDict d) \<Longrightarrow> props_of d = Inr ps \<Longrightarrow> n \<in> set (keys ps) \<Longrightarrow> good (JDict (prop_of ps n))"
proof -
  assume g: "good (JDict d)" "props_of d = Inr ps" "n \<in> set (keys ps)"
  from prop_of_mem[OF g(2,3)] good_items[OF good_get[OF g(1)]] show ?thesis
    unfolding good_def by (fastforce simp: list_all_iff)
qed

lemma diff_enum_same:
  assumes "good (JDict d)" "diff_enum u t p d d = Inr fs"
  shows "fs = []"
proof -
  have "filter (\<lambda>v. \<not> py_in v (py_set (map (hashable u) xs))) (py_set (map (hashable u) xs)) = []"
    if "iter_or_empty (get d ''enum'') = Inr xs" for xs
  proof (rule filter_False, intro ballI)
    fix v
    assume v: "v \<in> set (py_set (map (hashable u) xs))"
    then obtain x where "x \<in> set xs" "v = hashable u x" using py_set_subset by fastforce
    with that good_get[OF assms(1)] iter_or_empty_ok hashable_eq have "py_eq v v"
      unfolding good_def by metis
    with v show "\<not> \<not> py_in v (py_set (map (hashable u) xs))" using py_in_self by blast
  qed
  with assms(2) show ?thesis by (auto simp: diff_enum_def Let_def bindE_eq_Inr split: if_splits)
qed

lemma num_less_irrefl: "\<not> num_less x x"
  by (cases x) auto

lemma diff_bound_same: "diff_bound lower t p d d k = Inr fs \<Longrightarrow> fs = []"
  by (auto simp: diff_bound_def Let_def num_less_irrefl split: option.splits if_splits)

lemma mapE_all_Nil: "mapE f xs = Inr ys \<Longrightarrow> (\<And>x y. x \<in> set xs \<Longrightarrow> f x = Inr y \<Longrightarrow> y = []) \<Longrightarrow> concat ys = []"
  using mapE_mem[of f xs ys] by (auto simp: concat_eq_Nil_conv) metis

lemma diff_constraints_same:
  assumes "good (JDict d)" "diff_constraints t p d d = Inr fs"
  shows "fs = []"
proof -
  have "diff_text_constraint t p d d k = []" for k
    using good_refl[OF good_get[OF assms(1)]] by (simp add: diff_text_constraint_def Let_def)
  then have texts: "concat (map (diff_text_constraint t p d d) ks) = []" for ks
    by simp
  have bounds: "concat us = []" if "mapE (diff_bound lower t p d d) ks = Inr us" for lower ks us
    using mapE_all_Nil[OF that] diff_bound_same by blast
  show ?thesis
    using assms(2) unfolding diff_constraints_def bindE_eq_Inr sum.inject texts
    by (elim exE conjE) (simp only: bounds append_Nil)
qed

lemma diff_default_same: "good (JDict d) \<Longrightarrow> diff_default t p d d = []"
  using good_refl[OF good_get[of d "S ''default''"]]
  by (auto simp: diff_default_def Let_def dict_get.simps split: option.splits)

lemma diff_additional_same: "diff_additional_properties t p d d = []"
  by (auto simp: diff_additional_properties_def Let_def)

lemma presence_same: "presence_findings u t p ps ps r = []"
  by (simp add: presence_findings_def match_renames_def)

lemma diff_same:
  "good b \<Longrightarrow> a = b \<Longrightarrow> diff_node u t p b a = Inr fs \<Longrightarrow> fs = []"
  "good (JDict d) \<Longrightarrow> e = d \<Longrightarrow> diff_properties u t p d e = Inr gs \<Longrightarrow> gs = []"
proof (induction u t p b a and u t p d e arbitrary: fs and gs rule: diff_node_diff_properties.induct)
  case (1 u t p b a)
  let ?b = "dict_items b"
  have g: "good (JDict ?b)" using 1(3) by (rule good_items)
  obtain x y where xy: "diff_enum u t p ?b ?b = Inr x" "diff_constraints t p ?b ?b = Inr y"
    using 1(5) unfolding 1(4) by (subst (asm) diff_node.simps) (auto simp: Let_def bindE_eq_Inr)
  have xy0: "x = []" "y = []" using diff_enum_same[OF g] diff_constraints_same[OF g] xy by blast+
  show ?case
    using 1(5) 1(1)[OF refl refl refl refl refl refl] 1(2)[OF refl refl refl refl refl refl] g good_get[OF g]
    unfolding 1(4)
    by (subst (asm) diff_node.simps)
      (auto simp: Let_def bindE_eq_Inr xy xy0 diff_type_def classify_type_change_def diff_default_same
        diff_additional_same split: if_splits)
next
  case (2 u t p d e)
  obtain bp br ys where pr: "props_of d = Inr bp" "required_of d = Inr br"
    and ys: "mapE (\<lambda>name. bindE (diff_node u t (prop_path p name) (JDict (prop_of bp name)) (JDict (prop_of bp name)))
                  (\<lambda>fs. Inr (required_finding t p br br name @ fs)))
              (filter (\<lambda>n. n \<in> set (keys bp)) (keys bp)) = Inr ys"
    and gs: "gs = concat ys"
    using 2(4) unfolding 2(3) by (auto simp: diff_properties.simps bindE_eq_Inr presence_same)
  show ?case
    unfolding gs
  proof (rule mapE_all_Nil[OF ys])
    fix n fs
    assume n: "n \<in> set (filter (\<lambda>n. n \<in> set (keys bp)) (keys bp))"
      and fs: "bindE (diff_node u t (prop_path p n) (JDict (prop_of bp n)) (JDict (prop_of bp n)))
                  (\<lambda>fs. Inr (required_finding t p br br n @ fs)) = Inr fs"
    have "props_of e = Inr bp" "required_of e = Inr br" using pr 2(3) by simp_all
    with 2(1)[OF pr(1) _ pr(2) _ n] good_prop[OF 2(2) pr(1)] n fs show "fs = []"
      by (auto simp: bindE_eq_Inr required_finding_def Let_def)
  qed
qed

section \<open>Renames\<close>

lemma fold_take_pair:
  assumes "distinct (map fst ps)" "distinct (map (\<lambda>q. fst (snd q)) ps)"
    and "\<forall>(ol, nw, c) \<in> set ps. (c, ol, nw) \<in> C" "set cs \<subseteq> C"
  defines "r \<equiv> fold take_pair cs ps"
  shows "distinct (map fst r) \<and> distinct (map (\<lambda>q. fst (snd q)) r) \<and> (\<forall>(ol, nw, c) \<in> set r. (c, ol, nw) \<in> C)
    \<and> set ps \<subseteq> set r
    \<and> (\<forall>(c, ol, nw) \<in> set cs. ol \<in> set (map fst r) \<or> nw \<in> set (map (\<lambda>q. fst (snd q)) r))"
  using assms(1-4) unfolding r_def
proof (induction cs arbitrary: ps)
  case (Cons x cs)
  obtain c ol nw where x: "x = (c, ol, nw)" by (cases x)
  let ?q = "take_pair x ps"
  have q: "distinct (map fst ?q)" "distinct (map (\<lambda>q. fst (snd q)) ?q)" "\<forall>(ol, nw, c) \<in> set ?q. (c, ol, nw) \<in> C"
    "set ps \<subseteq> set ?q" "ol \<in> set (map fst ?q) \<or> nw \<in> set (map (\<lambda>q. fst (snd q)) ?q)"
    using Cons.prems x by (auto simp: take_pair_def)
  from Cons.IH[OF q(1-3)] Cons.prems(4)
  have ih: "distinct (map fst (fold take_pair cs ?q))" "distinct (map (\<lambda>q. fst (snd q)) (fold take_pair cs ?q))"
    "\<forall>(ol, nw, c) \<in> set (fold take_pair cs ?q). (c, ol, nw) \<in> C" "set ?q \<subseteq> set (fold take_pair cs ?q)"
    "\<forall>(c, ol, nw) \<in> set cs. ol \<in> set (map fst (fold take_pair cs ?q))
       \<or> nw \<in> set (map (\<lambda>q. fst (snd q)) (fold take_pair cs ?q))" by simp_all
  have "ol \<in> set (map fst (fold take_pair cs ?q)) \<or> nw \<in> set (map (\<lambda>q. fst (snd q)) (fold take_pair cs ?q))"
    using q(5) ih(4) by auto
  with ih q(4) show ?case by (simp add: x)
qed simp

lemma set_map_filter_iff: "y \<in> set (List.map_filter f xs) \<longleftrightarrow> (\<exists>x \<in> set xs. f x = Some y)"
  by (force simp: List.map_filter_def)

lemma rename_candidates_mem:
  "(c, ol, nw) \<in> set (rename_candidates u rm ad bp ap) \<longleftrightarrow>
     ol \<in> set rm \<and> nw \<in> set ad \<and> rename_confidence_threshold \<le> c \<and>
     rename_confidence u ol nw (prop_of bp ol) (prop_of ap nw) = Some c"
proof -
  have "(case rename_confidence u x y (prop_of bp x) (prop_of ap y) of
         Some conf \<Rightarrow> if conf \<ge> rename_confidence_threshold then Some (conf, x, y) else None
       | None \<Rightarrow> None) = Some (c, ol, nw) \<longleftrightarrow> x = ol \<and> y = nw \<and> rename_confidence_threshold \<le> c \<and>
     rename_confidence u ol nw (prop_of bp ol) (prop_of ap nw) = Some c" for x y
    by (auto split: option.splits)
  then show ?thesis
    unfolding rename_candidates_def by (simp add: set_map_filter_iff)
qed

lemma match_renames_ok:
  assumes "match_renames u rm ad bp ap = (pairs, left_rm, left_ad)"
  shows "distinct (map fst pairs) \<and> distinct (map (\<lambda>q. fst (snd q)) pairs)
    \<and> (\<forall>(ol, nw, c) \<in> set pairs. ol \<in> set rm \<and> nw \<in> set ad \<and> rename_confidence_threshold \<le> c
        \<and> rename_confidence u ol nw (prop_of bp ol) (prop_of ap nw) = Some c)
    \<and> set left_rm = set rm - fst ` set pairs \<and> set left_ad = set ad - (\<lambda>q. fst (snd q)) ` set pairs
    \<and> (\<forall>ol \<in> set left_rm. \<forall>nw \<in> set left_ad. \<forall>c.
        rename_confidence u ol nw (prop_of bp ol) (prop_of ap nw) = Some c \<longrightarrow> c < rename_confidence_threshold)"
proof (cases "rm = [] \<or> ad = []")
  case True
  with assms show ?thesis by (auto simp: match_renames_def)
next
  case False
  let ?cs = "rename_candidates u rm ad bp ap"
  let ?ps = "fold take_pair (sort_key (\<lambda>c. - fst c) ?cs) []"
  have r: "pairs = ?ps" "left_rm = filter (\<lambda>n. n \<notin> set (map fst pairs)) rm"
    "left_ad = filter (\<lambda>n. n \<notin> set (map (\<lambda>q. fst (snd q)) pairs)) ad"
    using assms False by (auto simp: match_renames_def Let_def)
  have f: "distinct (map fst pairs) \<and> distinct (map (\<lambda>q. fst (snd q)) pairs) \<and> (\<forall>(ol, nw, c) \<in> set pairs. (c, ol, nw) \<in> set ?cs)
    \<and> (\<forall>(c, ol, nw) \<in> set ?cs. ol \<in> set (map fst pairs) \<or> nw \<in> set (map (\<lambda>q. fst (snd q)) pairs))"
    unfolding r(1) using fold_take_pair[of "[]" "set ?cs" "sort_key (\<lambda>c. - fst c) ?cs"] by simp
  have "c < rename_confidence_threshold"
    if "ol \<in> set left_rm" "nw \<in> set left_ad"
      "rename_confidence u ol nw (prop_of bp ol) (prop_of ap nw) = Some c" for ol nw c
  proof (rule ccontr)
    assume "\<not> c < rename_confidence_threshold"
    with that have "(c, ol, nw) \<in> set ?cs" by (simp add: rename_candidates_mem r)
    with f have "ol \<in> set (map fst pairs) \<or> nw \<in> set (map (\<lambda>q. fst (snd q)) pairs)" by blast
    with that show False by (simp add: r(2,3))
  qed
  with f show ?thesis by (auto simp: r(2,3) rename_candidates_mem)
qed

section \<open>Lost and newly required parameters\<close>

text \<open>The findings a caller must not miss.\<close>

definition loss_rules :: "string list" where
  "loss_rules = [''PARAM_RENAMED'', ''PARAM_REMOVED'', ''PARAM_ADDED_REQUIRED'', ''REQUIRED_ADDED'']"

definition breaks :: "finding \<Rightarrow> bool" where
  "breaks f \<longleftrightarrow> f_severity f = BREAKING \<and> f_rule f \<in> set loss_rules"

lemma presence_lost:
  assumes "n \<in> set (keys bp)" "n \<notin> set (keys ap)"
  shows "\<exists>f \<in> set (presence_findings u t p bp ap r). breaks f"
proof -
  let ?rm = "filter (\<lambda>n. n \<notin> set (keys ap)) (keys bp)" and ?ad = "filter (\<lambda>n. n \<notin> set (keys bp)) (keys ap)"
  obtain pairs lr la where m: "match_renames u ?rm ?ad bp ap = (pairs, lr, la)" by (metis surj_pair)
  have "n \<in> set ?rm" using assms by simp
  with match_renames_ok[OF m] have "n \<in> set lr \<or> n \<in> fst ` set pairs" by blast
  moreover have "breaks (removed_finding t p bp n)" by (simp add: breaks_def loss_rules_def removed_finding_def)
  moreover have "breaks (renamed_finding t p bp ap x)" for x
    by (simp add: breaks_def loss_rules_def renamed_finding_def split: prod.splits)
  ultimately show ?thesis unfolding presence_findings_def Let_def m prod.case by auto
qed

lemma presence_required:
  assumes "n \<in> set (keys ap)" "n \<notin> set (keys bp)" "JStr n \<in> set r"
  shows "\<exists>f \<in> set (presence_findings u t p bp ap r). breaks f"
proof -
  let ?rm = "filter (\<lambda>n. n \<notin> set (keys ap)) (keys bp)" and ?ad = "filter (\<lambda>n. n \<notin> set (keys bp)) (keys ap)"
  obtain pairs lr la where m: "match_renames u ?rm ?ad bp ap = (pairs, lr, la)" by (metis surj_pair)
  have "n \<in> set ?ad" using assms by simp
  with match_renames_ok[OF m] have "n \<in> set la \<or> (\<exists>x \<in> set pairs. n = fst (snd x))" by auto
  moreover have "breaks (added_finding t p ap r n)"
    using assms(3) by (simp add: breaks_def loss_rules_def added_finding_def)
  moreover have "breaks (renamed_finding t p bp ap x)" for x
    by (simp add: breaks_def loss_rules_def renamed_finding_def split: prod.splits)
  ultimately show ?thesis unfolding presence_findings_def Let_def m prod.case by auto
qed

lemma diff_properties_breaks:
  assumes fs: "diff_properties u t p d e = Inr fs"
    and b: "props_of d = Inr bp" "required_of d = Inr br" and a: "props_of e = Inr ap" "required_of e = Inr ar"
    and n: "n \<in> set (keys bp) \<and> n \<notin> set (keys ap)
      \<or> n \<in> set (keys ap) \<and> JStr n \<in> set ar \<and> \<not> (n \<in> set (keys bp) \<and> JStr n \<in> set br)"
  shows "\<exists>f \<in> set fs. breaks f"
proof -
  let ?step = "\<lambda>name. bindE (diff_node u t (prop_path p name) (JDict (prop_of bp name)) (JDict (prop_of ap name)))
                  (\<lambda>gs. Inr (required_finding t p br ar name @ gs))"
  obtain cs where cs: "mapE ?step (filter (\<lambda>n. n \<in> set (keys ap)) (keys bp)) = Inr cs"
    and fs': "fs = presence_findings u t p bp ap ar @ concat cs"
    using fs a b by (auto simp: diff_properties.simps bindE_eq_Inr)
  from n consider "n \<in> set (keys bp)" "n \<notin> set (keys ap)"
    | "n \<in> set (keys ap)" "n \<notin> set (keys bp)" "JStr n \<in> set ar"
    | "n \<in> set (keys ap)" "n \<in> set (keys bp)" "JStr n \<in> set ar" "JStr n \<notin> set br" by blast
  then show ?thesis
  proof cases
    case 1
    with presence_lost show ?thesis unfolding fs' by (metis Un_iff set_append)
  next
    case 2
    with presence_required show ?thesis unfolding fs' by (metis Un_iff set_append)
  next
    case 3
    then have "n \<in> set (filter (\<lambda>n. n \<in> set (keys ap)) (keys bp))" by simp
    then obtain c where c: "c \<in> set cs" "?step n = Inr c"
      using mapE_mem_result[OF cs] by blast
    then have "set (required_finding t p br ar n) \<subseteq> set c" by (auto simp: bindE_eq_Inr)
    moreover have "\<exists>f \<in> set (required_finding t p br ar n). breaks f"
      using 3 by (simp add: required_finding_def breaks_def loss_rules_def)
    ultimately show ?thesis using c(1) unfolding fs' by auto
  qed
qed

text \<open>What a definition asks of a caller, read off its input schema after the local references are resolved: a
  parameter is a name under \<open>properties\<close> whose schema is an object (the differ passes over a boolean schema);
  the names demanded are those an iteration over \<open>required\<close> gives.\<close>

definition schema_items :: "unidata \<Rightarrow> (pystr \<times> json) list \<Rightarrow> (pystr \<times> json) list" where
  "schema_items u td = (case resolved_schema u td ''inputSchema'' of Inr v \<Rightarrow> dict_items v | Inl e \<Rightarrow> [])"

definition takes :: "unidata \<Rightarrow> (pystr \<times> json) list \<Rightarrow> pystr \<Rightarrow> bool" where
  "takes u td n \<longleftrightarrow> (\<exists>e. (n, JDict e) \<in> set (dict_items (get (schema_items u td) ''properties'')))"

definition demands :: "unidata \<Rightarrow> (pystr \<times> json) list \<Rightarrow> pystr \<Rightarrow> bool" where
  "demands u td n \<longleftrightarrow> (case get (schema_items u td) ''required'' of
     JList xs \<Rightarrow> JStr n \<in> set xs | JStr s \<Rightarrow> (\<exists>c \<in> set s. n = [c]) | JDict d \<Rightarrow> n \<in> set (keys d) | _ \<Rightarrow> False)"

text \<open>A parameter is gone, or one must be sent that did not have to be sent before.\<close>

definition lossy_change :: "unidata \<Rightarrow> (pystr \<times> json) list \<Rightarrow> (pystr \<times> json) list \<Rightarrow> bool" where
  "lossy_change u old_def new_def \<longleftrightarrow>
     (\<exists>n. takes u old_def n \<and> \<not> takes u new_def n)
     \<or> (\<exists>n. takes u new_def n \<and> demands u new_def n \<and> \<not> (takes u old_def n \<and> demands u old_def n))"

lemma props_of_takes: "props_of (schema_items u td) = Inr ps \<Longrightarrow> n \<in> set (keys ps) \<longleftrightarrow> takes u td n"
  unfolding takes_def
  by (cases "get (schema_items u td) ''properties''")
    (force simp: props_of_def Let_def List.map_filter_def split: if_splits json.splits)+

lemma required_of_demands: "required_of (schema_items u td) = Inr rs \<Longrightarrow> JStr n \<in> set rs \<longleftrightarrow> demands u td n"
  unfolding demands_def
  by (cases "get (schema_items u td) ''required''")
    (auto simp: required_of_def iter_or_empty_def bindE_eq_Inr split: if_splits, force)

lemma diff_tool_input:
  assumes "diff_tool u t b a = Inr fs"
  obtains gs hs where "fs = gs @ hs"
    "diff_node u t (S ''/inputSchema'') (JDict (schema_items u b)) (JDict (schema_items u a)) = Inr gs"
proof -
  obtain x y gs hs where "resolved_schema u b ''inputSchema'' = Inr x" "resolved_schema u a ''inputSchema'' = Inr y"
    "diff_node u t (S ''/inputSchema'') x y = Inr gs" "fs = gs @ hs"
    using assms by (auto simp: diff_tool_def diff_json_schema_def bindE_eq_Inr)
  moreover have "diff_node u t q (JDict (dict_items x)) (JDict (dict_items y)) = diff_node u t q x y" for q
    by (simp add: diff_node.simps)
  ultimately show thesis using that by (simp add: schema_items_def)
qed

lemma diff_node_properties:
  assumes node: "diff_node u t p b a = Inr gs"
    and key: "has_key (dict_items b) ''properties'' \<or> has_key (dict_items a) ''properties''"
  shows "\<exists>ps. diff_properties u t p (dict_items b) (dict_items a) = Inr ps \<and> set ps \<subseteq> set gs"
proof -
  have obj: "S ''object'' \<in> set (type_set (dict_items b)) \<or> S ''object'' \<in> set (type_set (dict_items a))
      \<or> has_key (dict_items b) ''properties'' \<or> has_key (dict_items a) ''properties''" using key by blast
  show ?thesis
    using node unfolding diff_node.simps[of u t p b a] Let_def bindE_eq_Inr if_P[OF obj]
    by (elim exE conjE) (auto simp del: if_split)
qed

lemma takes_key: "takes u td n \<Longrightarrow> has_key (schema_items u td) ''properties''"
  by (auto simp: takes_def has_key_def dict_get.simps split: option.splits dest: map_of_Some_keys)

lemma ann_keys_total:
  assumes "truthy b \<longrightarrow> is_dict b" "truthy a \<longrightarrow> is_dict a"
  shows "\<exists>ks. ann_keys b a = Inr ks"
proof -
  have it: "\<exists>xs. iter_or_empty v = Inr xs \<and> list_all is_str xs" if "truthy v \<longrightarrow> is_dict v" for v
    using that by (cases v) (auto simp: iter_or_empty_def list_all_iff)
  obtain xs ys where xs: "iter_or_empty b = Inr xs" "list_all is_str xs"
    and ys: "iter_or_empty a = Inr ys" "list_all is_str ys" using it assms by metis
  have "\<not> list_ex (\<lambda>v. is_dict v \<or> is_list v) zs" if "list_all is_str zs" for zs
    using that by (auto simp: list_ex_iff list_all_iff elim!: is_str.elims)
  moreover have "list_all is_str (py_set (xs @ ys))"
    using py_set_subset[of "xs @ ys"] xs(2) ys(2) by (auto simp: list_all_iff)
  ultimately show ?thesis using xs ys assms by (simp add: ann_keys_def Let_def)
qed

lemma annotation_same: "good v \<Longrightarrow> annotation_finding t v v k = []"
  using good_refl[OF good_get[OF good_items[of v]]] by (simp add: annotation_finding_def Let_def)

lemma diff_annotations_same: "good v \<Longrightarrow> diff_annotations t v v = Inr fs \<Longrightarrow> fs = []"
  by (auto simp: diff_annotations_def bindE_eq_Inr annotation_same)

section \<open>Properties\<close>

text \<open>C14 The rename heuristic is a maximal matching: no parameter is used twice, every pair
  passes the threshold, the leftovers are exactly the unmatched names, and no two leftovers
  would have made a pair.\<close>

theorem rename_matching:
  assumes "match_renames u removed added bp ap = (pairs, left_removed, left_added)"
  shows "distinct (map fst pairs) \<and> distinct (map (\<lambda>q. fst (snd q)) pairs)
    \<and> (\<forall>(old, new, c) \<in> set pairs. old \<in> set removed \<and> new \<in> set added \<and> rename_confidence_threshold \<le> c
        \<and> rename_confidence u old new (prop_of bp old) (prop_of ap new) = Some c)
    \<and> set left_removed = set removed - fst ` set pairs
    \<and> set left_added = set added - (\<lambda>q. fst (snd q)) ` set pairs
    \<and> (\<forall>old \<in> set left_removed. \<forall>new \<in> set left_added. \<forall>c.
        rename_confidence u old new (prop_of bp old) (prop_of ap new) = Some c \<longrightarrow> c < rename_confidence_threshold)"
  using assms by (rule match_renames_ok)

theorem rename_matching_witness:
  "distinct (map fst ([] :: (pystr \<times> pystr \<times> rat) list)) \<and>
   match_renames ascii_data [S ''a''] [] [] [] = ([], [S ''a''], [])"
  using rename_matching[of ascii_data "[S ''a'']" "[]" "[]" "[]" "[]" "[S ''a'']" "[]"]
  by (simp add: match_renames_def)

lemma lost_breaks:
  assumes "diff_tool u tool old_def new_def = Inr fs" and "lossy_change u old_def new_def"
  shows "\<exists>f \<in> set fs. breaks f"
proof -
  let ?d = "schema_items u old_def" and ?e = "schema_items u new_def"
  obtain gs hs where fs: "fs = gs @ hs"
    and node: "diff_node u tool (S ''/inputSchema'') (JDict ?d) (JDict ?e) = Inr gs"
    using diff_tool_input[OF assms(1)] .
  obtain n where n: "takes u old_def n \<and> \<not> takes u new_def n
      \<or> takes u new_def n \<and> demands u new_def n \<and> \<not> (takes u old_def n \<and> demands u old_def n)"
    using assms(2) unfolding lossy_change_def by blast
  then have objectish: "has_key ?d ''properties'' \<or> has_key ?e ''properties''"
    using takes_key by blast
  then obtain ps where ps: "diff_properties u tool (S ''/inputSchema'') ?d ?e = Inr ps" "set ps \<subseteq> set gs"
    using diff_node_properties[OF node] objectish by auto
  obtain bp ap br ar where pr: "props_of ?d = Inr bp" "props_of ?e = Inr ap"
      "required_of ?d = Inr br" "required_of ?e = Inr ar"
    using ps(1) by (auto simp: diff_properties.simps bindE_eq_Inr)
  have "n \<in> set (keys bp) \<and> n \<notin> set (keys ap)
      \<or> n \<in> set (keys ap) \<and> JStr n \<in> set ar \<and> \<not> (n \<in> set (keys bp) \<and> JStr n \<in> set br)"
    using n unfolding props_of_takes[OF pr(1)] props_of_takes[OF pr(2)] required_of_demands[OF pr(3)]
      required_of_demands[OF pr(4)] .
  from diff_properties_breaks[OF ps(1) pr(1,3,2,4) this] ps(2) show ?thesis
    by (auto simp: fs)
qed

definition tool_shaped :: "unidata \<Rightarrow> (pystr \<times> json) list \<Rightarrow> bool" where
  "tool_shaped u td \<longleftrightarrow>
     (\<forall>k \<in> {''inputSchema'', ''outputSchema''}. case resolved_schema u td k of
        Inr v \<Rightarrow> shaped v \<and> good v | Inl e \<Rightarrow> False)
     \<and> (truthy (get td ''annotations'') \<longrightarrow> is_dict (get td ''annotations''))
     \<and> good (get td ''annotations'')"

lemma tool_shaped_diff:
  assumes "tool_shaped u old_def" and "tool_shaped u new_def"
  shows "\<exists>fs. diff_tool u tool old_def new_def = Inr fs \<and> (new_def = old_def \<longrightarrow> fs = [])"
proof -
  have sch: "\<exists>v. resolved_schema u td k = Inr v \<and> shaped v \<and> good v"
    if "tool_shaped u td" "k = ''inputSchema'' \<or> k = ''outputSchema''" for td k
    using that by (auto simp: tool_shaped_def split: sum.splits)
  obtain bi ai bo ao where r: "resolved_schema u old_def ''inputSchema'' = Inr bi" "shaped bi" "good bi"
      "resolved_schema u new_def ''inputSchema'' = Inr ai" "shaped ai" "good ai"
      "resolved_schema u old_def ''outputSchema'' = Inr bo" "shaped bo" "good bo"
      "resolved_schema u new_def ''outputSchema'' = Inr ao" "shaped ao" "good ao"
    using sch assms by metis
  obtain fs gs where f: "diff_node u tool (S ''/inputSchema'') bi ai = Inr fs"
      "diff_node u tool (S ''/outputSchema'') bo ao = Inr gs"
    using diff_total(1) r by metis
  have "\<exists>hs. diff_annotations tool (get old_def ''annotations'') (get new_def ''annotations'') = Inr hs"
    using ann_keys_total[of "get old_def ''annotations''" "get new_def ''annotations''"] assms
    by (auto simp: tool_shaped_def diff_annotations_def)
  then obtain hs where hs: "diff_annotations tool (get old_def ''annotations'') (get new_def ''annotations'') = Inr hs" ..
  have "fs = [] \<and> gs = [] \<and> hs = []" if "new_def = old_def"
    using that f r hs diff_same(1)[OF r(3) _ f(1)] diff_same(1)[OF r(9) _ f(2)]
      diff_annotations_same[of "get old_def ''annotations''" tool hs] assms(1)
    by (simp add: tool_shaped_def)
  with f r hs show ?thesis by (auto simp: diff_tool_def diff_json_schema_def)
qed

text \<open>C11 A parameter that is gone (renamed or not), or that a caller must now send and did not have to before,
  yields a BREAKING finding of one of the rules for parameters, whenever the differ returns; and it returns on
  all well-shaped tools. A parameter is a name under \<open>properties\<close> with an object schema: a boolean schema and a
  name that stands in \<open>required\<close> alone are passed over (shown below).\<close>

theorem lost_parameter_breaks:
  assumes "lossy_change u old_def new_def"
  shows "(\<forall>fs. diff_tool u tool old_def new_def = Inr fs \<longrightarrow>
        (\<exists>f \<in> set fs. f_severity f = BREAKING
          \<and> f_rule f \<in> {''PARAM_RENAMED'', ''PARAM_REMOVED'', ''PARAM_ADDED_REQUIRED'', ''REQUIRED_ADDED''}))
    \<and> (tool_shaped u old_def \<and> tool_shaped u new_def \<longrightarrow> (\<exists>fs. diff_tool u tool old_def new_def = Inr fs))"
proof (intro conjI allI impI)
  fix fs
  assume "diff_tool u tool old_def new_def = Inr fs"
  from lost_breaks[OF this assms] show "\<exists>f \<in> set fs. f_severity f = BREAKING
      \<and> f_rule f \<in> {''PARAM_RENAMED'', ''PARAM_REMOVED'', ''PARAM_ADDED_REQUIRED'', ''REQUIRED_ADDED''}"
    by (auto simp: breaks_def loss_rules_def)
qed (use tool_shaped_diff in blast)

text \<open>A tool with one parameter, and the lemmas that evaluate the differ on it.\<close>

definition sample_tool :: "(pystr \<times> json) list" where
  "sample_tool = [(S ''inputSchema'', JDict [(S ''properties'', JDict [(S ''a'', JDict [])])])]"

lemmas differ_eval = diff_tool_def resolved_schema_def dict_get.simps diff_json_schema_def local_ref_def
  diff_node.simps diff_properties.simps Let_def diff_enum_def diff_constraints_def diff_bound_def
  diff_text_constraint_def diff_default_def type_set_def has_key_def props_of_def required_of_def
  iter_or_empty_def presence_findings_def match_renames_def List.map_filter_def
  diff_annotations_def ann_keys_def py_set_def

lemma sample_shaped: "tool_shaped ascii_data sample_tool" "tool_shaped ascii_data []"
  by (simp_all add: tool_shaped_def sample_tool_def resolved_schema_def Let_def dict_get.simps local_ref_def
      shaped_here_def bound_keys_def good_def)

lemma sample_lossy: "lossy_change ascii_data sample_tool []"
proof -
  have "takes ascii_data sample_tool (S ''a'')" "\<not> takes ascii_data [] (S ''a'')"
    by (simp_all add: takes_def sample_tool_def schema_items_def differ_eval)
  then show ?thesis unfolding lossy_change_def by blast
qed

theorem lost_parameter_breaks_witness:
  "\<exists>fs :: finding list. diff_tool ascii_data (S ''t'') sample_tool [] = Inr fs \<and> (\<exists>f \<in> set fs. f_severity f = BREAKING)"
  using lost_parameter_breaks[OF sample_lossy, of "S ''t''"] sample_shaped by blast

text \<open>What is passed over: a parameter with a boolean schema that goes, and a name newly in \<open>required\<close> that no
  property declares.\<close>

lemma boolean_schema_unseen:
  "diff_tool ascii_data (S ''t'') [(S ''inputSchema'', JDict [(S ''properties'', JDict [(S ''a'', JBool True)])])]
     [(S ''inputSchema'', JDict [(S ''properties'', JDict [])])] = Inr []"
  by (simp add: differ_eval diff_type_def classify_type_change_def diff_additional_properties_def)

lemma undeclared_required_unseen:
  "diff_tool ascii_data (S ''t'') [(S ''inputSchema'', JDict [(S ''properties'', JDict [])])]
     [(S ''inputSchema'', JDict [(S ''properties'', JDict []), (S ''required'', JList [JStr (S ''a'')])])] = Inr []"
  by (simp add: differ_eval diff_type_def classify_type_change_def diff_additional_properties_def)

text \<open>C13 On well-shaped schemas (after resolution) and annotations the differ never raises,
  and on an unchanged tool it finds nothing.\<close>

theorem differ_total_and_silent:
  assumes "tool_shaped u old_def" and "tool_shaped u new_def"
  shows "\<exists>fs. diff_tool u tool old_def new_def = Inr fs \<and> (new_def = old_def \<longrightarrow> fs = [])"
  using tool_shaped_diff[OF assms] .

theorem differ_total_and_silent_witness:
  "diff_tool ascii_data (S ''t'') sample_tool sample_tool = Inr []"
proof -
  have "tool_shaped ascii_data sample_tool"
    by (simp add: tool_shaped_def sample_tool_def resolved_schema_def Let_def dict_get.simps local_ref_def
        shaped_here_def bound_keys_def good_def)
  from differ_total_and_silent[OF this this, of "S ''t''"] show ?thesis by simp
qed

text \<open>The comparison of a numeric bound raises \<open>TypeError\<close> exactly when the new bound is a
  number and the old one is present and is none: one malformed bound in the recorded
  definition makes every later diff of that tool fail.\<close>

theorem bound_raises_iff:
  "diff_bound lower tool pointer prior after key = Inl e \<longleftrightarrow>
     e = TypeError \<and> numval (get after key) \<noteq> None \<and> get prior key \<noteq> JNull \<and> numval (get prior key) = None"
  by (auto simp: diff_bound_def Let_def split: option.splits)

end
