(* ===== verification/Regex.thy ===== *)
theory Regex
  imports Json
begin

text \<open>
  The fragment of Python's regular expressions the source uses, matched the way \<open>re\<close> does it:
  by backtracking, alternatives from left to right, repetitions greedy. \<open>ends\<close> lists the end
  positions of all matches that start at a position, in the order in which \<open>re\<close> tries them;
  \<open>mt\<close> is the declarative meaning, and the two agree.
\<close>

datatype rx =
    Eps
  | Cls "nat \<Rightarrow> bool"
  | Sq rx rx
  | Al rx rx
  | Rp rx nat "nat option"
  | Bnd
  | NotNext "nat \<Rightarrow> bool"
  | NotPrev "nat \<Rightarrow> bool"

definition at_char :: "(nat \<Rightarrow> bool) \<Rightarrow> pystr \<Rightarrow> nat \<Rightarrow> bool" where
  "at_char p w i \<longleftrightarrow> i < length w \<and> p (w ! i)"

text \<open>\<open>\b\<close>: a word character on one side and not on the other.\<close>

definition boundary :: "(nat \<Rightarrow> bool) \<Rightarrow> pystr \<Rightarrow> nat \<Rightarrow> bool" where
  "boundary wd w i \<longleftrightarrow> (0 < i \<and> at_char wd w (i - 1)) \<noteq> at_char wd w i"

text \<open>Between \<open>m\<close> and \<open>n\<close> rounds, as many as possible first.\<close>

fun rounds :: "(nat \<Rightarrow> nat list) \<Rightarrow> nat \<Rightarrow> nat \<Rightarrow> nat \<Rightarrow> nat list" where
  "rounds f m 0 i = (if m = 0 then [i] else [])"
| "rounds f m (Suc n) i =
     concat (map (rounds f (m - 1) n) (f i)) @ (if m = 0 then [i] else [])"

fun ends :: "(nat \<Rightarrow> bool) \<Rightarrow> pystr \<Rightarrow> rx \<Rightarrow> nat \<Rightarrow> nat list" where
  "ends wd w Eps i = [i]"
| "ends wd w (Cls p) i = (if at_char p w i then [Suc i] else [])"
| "ends wd w (Sq r s) i = concat (map (ends wd w s) (ends wd w r i))"
| "ends wd w (Al r s) i = ends wd w r i @ ends wd w s i"
| "ends wd w (Rp r m n) i =
     rounds (ends wd w r) m (case n of Some k \<Rightarrow> k | None \<Rightarrow> m + length w) i"
| "ends wd w Bnd i = (if boundary wd w i then [i] else [])"
| "ends wd w (NotNext p) i = (if at_char p w i then [] else [i])"
| "ends wd w (NotPrev p) i = (if 0 < i \<and> at_char p w (i - 1) then [] else [i])"

text \<open>\<open>search\<close>: the first start position with a match, and the match \<open>re\<close> finds there.\<close>

definition search_from :: "(nat \<Rightarrow> bool) \<Rightarrow> pystr \<Rightarrow> rx \<Rightarrow> nat \<Rightarrow> (nat \<times> nat) option" where
  "search_from wd w r k =
     (case find (\<lambda>i. ends wd w r i \<noteq> []) [k..<Suc (length w)] of
        Some i \<Rightarrow> Some (i, hd (ends wd w r i)) | None \<Rightarrow> None)"

definition search :: "(nat \<Rightarrow> bool) \<Rightarrow> pystr \<Rightarrow> rx \<Rightarrow> (nat \<times> nat) option" where
  "search wd w r = search_from wd w r 0"

definition slice :: "pystr \<Rightarrow> nat \<times> nat \<Rightarrow> pystr" where
  "slice w m = take (snd m - fst m) (drop (fst m) w)"

text \<open>\<open>findall\<close> of a pattern without groups that matches no empty text.\<close>

fun findall_from :: "nat \<Rightarrow> (nat \<Rightarrow> bool) \<Rightarrow> pystr \<Rightarrow> rx \<Rightarrow> nat \<Rightarrow> pystr list" where
  "findall_from 0 wd w r k = []"
| "findall_from (Suc n) wd w r k =
     (case search_from wd w r k of
        None \<Rightarrow> []
      | Some (i, j) \<Rightarrow> slice w (i, j) # findall_from n wd w r j)"

definition findall :: "(nat \<Rightarrow> bool) \<Rightarrow> pystr \<Rightarrow> rx \<Rightarrow> pystr list" where
  "findall wd w r = findall_from (Suc (length w)) wd w r 0"

section \<open>Declarative meaning\<close>

inductive mt :: "(nat \<Rightarrow> bool) \<Rightarrow> pystr \<Rightarrow> rx \<Rightarrow> nat \<Rightarrow> nat \<Rightarrow> bool" for wd w where
  mt_Eps: "mt wd w Eps i i"
| mt_Cls: "at_char p w i \<Longrightarrow> mt wd w (Cls p) i (Suc i)"
| mt_Sq: "mt wd w r i k \<Longrightarrow> mt wd w s k j \<Longrightarrow> mt wd w (Sq r s) i j"
| mt_Al1: "mt wd w r i j \<Longrightarrow> mt wd w (Al r s) i j"
| mt_Al2: "mt wd w s i j \<Longrightarrow> mt wd w (Al r s) i j"
| mt_Rp0: "mt wd w (Rp r 0 n) i i"
| mt_Rp: "mt wd w r i k \<Longrightarrow> n \<noteq> Some 0 \<Longrightarrow>
    mt wd w (Rp r (m - 1) (map_option (\<lambda>x. x - 1) n)) k j \<Longrightarrow> mt wd w (Rp r m n) i j"
| mt_Bnd: "boundary wd w i \<Longrightarrow> mt wd w Bnd i i"
| mt_NotNext: "\<not> at_char p w i \<Longrightarrow> mt wd w (NotNext p) i i"
| mt_NotPrev: "\<not> (0 < i \<and> at_char p w (i - 1)) \<Longrightarrow> mt wd w (NotPrev p) i i"

inductive_cases mt_EpsE: "mt wd w Eps i j"
inductive_cases mt_ClsE: "mt wd w (Cls p) i j"
inductive_cases mt_SqE: "mt wd w (Sq r s) i j"
inductive_cases mt_AlE: "mt wd w (Al r s) i j"
inductive_cases mt_RpE: "mt wd w (Rp r m n) i j"
inductive_cases mt_BndE: "mt wd w Bnd i j"
inductive_cases mt_NotNextE: "mt wd w (NotNext p) i j"
inductive_cases mt_NotPrevE: "mt wd w (NotPrev p) i j"

text \<open>The length every match has at least; the body of an unbounded repetition must consume.\<close>

fun min_len :: "rx \<Rightarrow> nat" where
  "min_len (Cls p) = 1"
| "min_len (Sq r s) = min_len r + min_len s"
| "min_len (Al r s) = min (min_len r) (min_len s)"
| "min_len (Rp r m n) = m * min_len r"
| "min_len _ = 0"

fun wf_rx :: "rx \<Rightarrow> bool" where
  "wf_rx (Sq r s) \<longleftrightarrow> wf_rx r \<and> wf_rx s"
| "wf_rx (Al r s) \<longleftrightarrow> wf_rx r \<and> wf_rx s"
| "wf_rx (Rp r m n) \<longleftrightarrow> wf_rx r \<and> (n = None \<longrightarrow> 0 < min_len r)"
| "wf_rx _ \<longleftrightarrow> True"

lemma mt_length: "mt wd w r i j \<Longrightarrow> i + min_len r \<le> j \<and> (i \<le> length w \<longrightarrow> j \<le> length w)"
proof (induction rule: mt.induct)
  case (mt_Rp r i k n m j)
  have "m * min_len r \<le> min_len r + (m - 1) * min_len r" by (cases m) simp_all
  with mt_Rp show ?case by simp
qed (auto simp: at_char_def)

text \<open>The rounds of a repetition, independent of the matcher.\<close>

lemma rounds_sound:
  assumes "j \<in> set (rounds (ends wd w r) m n i)" "\<And>i j. j \<in> set (ends wd w r i) \<Longrightarrow> mt wd w r i j"
  shows "mt wd w (Rp r m (Some n)) i j \<and> mt wd w (Rp r m None) i j"
  using assms(1)
proof (induction n arbitrary: m i)
  case 0
  then show ?case by (auto intro: mt_Rp0 split: if_splits)
next
  case (Suc n)
  then consider "m = 0" "j = i" | k where "k \<in> set (ends wd w r i)" "j \<in> set (rounds (ends wd w r) (m - 1) n k)"
    by (auto split: if_splits)
  then show ?case
  proof cases
    case 1
    then show ?thesis by (simp add: mt_Rp0)
  next
    case 2
    with Suc.IH[OF 2(2)] assms(2)[OF 2(1)] show ?thesis
      using mt_Rp[of wd w r i k "Some (Suc n)" m j] mt_Rp[of wd w r i k None m j] by simp
  qed
qed

lemma ends_sound: "j \<in> set (ends wd w r i) \<Longrightarrow> mt wd w r i j"
proof (induction r arbitrary: i j)
  case (Rp r m n)
  then show ?case using rounds_sound[of j wd w r m _ i] by (cases n) auto
next
  case (Sq r s)
  from Sq.prems obtain k where "k \<in> set (ends wd w r i)" "j \<in> set (ends wd w s k)" by auto
  with Sq.IH show ?case by (blast intro: mt_Sq)
qed (auto intro: mt.intros split: if_splits)

lemma rounds_mono: "j \<in> set (rounds f m n i) \<Longrightarrow> n \<le> n' \<Longrightarrow> j \<in> set (rounds f m n' i)"
proof (induction n arbitrary: m n' i)
  case 0
  then show ?case by (cases n') (auto split: if_splits)
next
  case (Suc n)
  then show ?case by (cases n') (auto split: if_splits)
qed

lemma rounds_complete:
  assumes "mt wd w (Rp r m n) i j" "i \<le> length w" "n = None \<longrightarrow> 0 < min_len r"
    and "\<And>i j. i \<le> length w \<Longrightarrow> mt wd w r i j \<Longrightarrow> j \<in> set (ends wd w r i)"
  shows "j \<in> set (rounds (ends wd w r) m (case n of Some k \<Rightarrow> k | None \<Rightarrow> j - i) i)"
  using assms(1-3)
proof (induction "Rp r m n" i j arbitrary: m n rule: mt.induct)
  case (mt_Rp0 n i)
  then show ?case by (cases "case n of Some k \<Rightarrow> k | None \<Rightarrow> i - i") auto
next
  case (mt_Rp i k n m j)
  have k: "k \<in> set (ends wd w r i)" "k \<le> length w" "i + min_len r \<le> k"
    using assms(4) mt_Rp mt_length by blast+
  have j: "k + min_len (Rp r (m - 1) (map_option (\<lambda>x. x - 1) n)) \<le> j" using mt_Rp mt_length by blast
  have n: "map_option (\<lambda>x. x - 1) n = None \<longrightarrow> 0 < min_len r" using mt_Rp.prems(2) by simp
  note ih = mt_Rp.hyps(5)[OF k(2) n]
  show ?case
  proof (cases n)
    case (Some x)
    with mt_Rp.hyps(3) obtain y where y: "x = Suc y" by (cases x) auto
    with ih Some k(1) show ?thesis by auto
  next
    case None
    with mt_Rp.prems(2) k(3) have lt: "i < k" by simp
    from ih None have "j \<in> set (rounds (ends wd w r) (m - 1) (j - k) k)" by simp
    moreover have "j - k \<le> j - i - 1" using lt j by simp
    ultimately have "j \<in> set (rounds (ends wd w r) (m - 1) (j - i - 1) k)" by (rule rounds_mono)
    moreover have "j - i = Suc (j - i - 1)" using lt j by simp
    ultimately have "j \<in> set (rounds (ends wd w r) m (Suc (j - i - 1)) i)" using k(1) by auto
    with None \<open>j - i = Suc (j - i - 1)\<close> show ?thesis by simp
  qed
qed

lemma ends_complete: "wf_rx r \<Longrightarrow> i \<le> length w \<Longrightarrow> mt wd w r i j \<Longrightarrow> j \<in> set (ends wd w r i)"
proof (induction r arbitrary: i j)
  case (Sq r s)
  from Sq.prems(3) obtain k where k: "mt wd w r i k" "mt wd w s k j" by (rule mt_SqE)
  with Sq.prems mt_length[OF k(1)] Sq.IH show ?case by fastforce
next
  case (Rp r m n)
  have "j \<in> set (rounds (ends wd w r) m (case n of Some k \<Rightarrow> k | None \<Rightarrow> j - i) i)"
    using Rp.IH Rp.prems by (intro rounds_complete) auto
  moreover have "j \<le> length w" using mt_length[OF Rp.prems(3)] Rp.prems(2) by simp
  ultimately show ?case by (cases n) (auto elim: rounds_mono)
qed (auto elim: mt_EpsE mt_ClsE mt_AlE mt_BndE mt_NotNextE mt_NotPrevE)

lemma ends_iff: "wf_rx r \<Longrightarrow> i \<le> length w \<Longrightarrow> j \<in> set (ends wd w r i) \<longleftrightarrow> mt wd w r i j"
  using ends_sound ends_complete by blast

lemma search_None_iff:
  "wf_rx r \<Longrightarrow> search wd w r = None \<longleftrightarrow> (\<forall>i \<le> length w. \<forall>j. \<not> mt wd w r i j)"
proof -
  assume wf: "wf_rx r"
  have "ends wd w r i = [] \<longleftrightarrow> (\<forall>j. \<not> mt wd w r i j)" if "i \<le> length w" for i
    using ends_iff[OF wf that] by (metis list.set_intros(1) neq_Nil_conv empty_iff list.set(1))
  moreover have "search wd w r = None \<longleftrightarrow> (\<forall>i \<le> length w. ends wd w r i = [])"
  proof -
    have i: "i \<in> set [0..<Suc (length w)] \<longleftrightarrow> i \<le> length w" for i by auto
    have "search wd w r = None \<longleftrightarrow> find (\<lambda>i. ends wd w r i \<noteq> []) [0..<Suc (length w)] = None"
      unfolding search_def search_from_def
      by (cases "find (\<lambda>i. ends wd w r i \<noteq> []) [0..<Suc (length w)]") simp_all
    then show ?thesis unfolding find_None_iff i by blast
  qed
  ultimately show ?thesis by blast
qed

lemma search_Some:
  assumes "search wd w r = Some (i, j)"
  shows "i \<le> length w \<and> mt wd w r i j"
proof -
  have i: "i \<in> set [0..<Suc (length w)]" "ends wd w r i \<noteq> []" "j = hd (ends wd w r i)"
    using assms by (auto simp: search_def search_from_def find_Some_iff simp del: upt_Suc split: option.splits)
  then show ?thesis using ends_sound[of j wd w r i] by (auto simp: less_Suc_eq_le)
qed

section \<open>Building patterns\<close>

definition seqs :: "rx list \<Rightarrow> rx" where "seqs rs = foldr Sq rs Eps"
definition alts :: "rx list \<Rightarrow> rx" where "alts rs = foldr Al (butlast rs) (last rs)"
definition opt :: "rx \<Rightarrow> rx" where "opt r = Rp r 0 (Some 1)"
definition star :: "rx \<Rightarrow> rx" where "star r = Rp r 0 None"
definition plus :: "rx \<Rightarrow> rx" where "plus r = Rp r 1 None"

text \<open>A literal under \<open>re.IGNORECASE\<close>: the characters agree after case folding.\<close>

definition chars :: "(nat \<Rightarrow> nat) \<Rightarrow> pystr \<Rightarrow> rx" where
  "chars fold_case s = seqs (map (\<lambda>c. Cls (\<lambda>x. fold_case x = fold_case c)) s)"

lemma wf_seqs [simp]: "wf_rx (seqs rs) \<longleftrightarrow> list_all wf_rx rs"
  by (induction rs) (simp_all add: seqs_def)

lemma wf_alts: "list_all wf_rx rs \<Longrightarrow> rs \<noteq> [] \<Longrightarrow> wf_rx (alts rs)"
proof (induction rs)
  case (Cons r rs)
  then show ?case by (cases rs) (simp_all add: alts_def)
qed simp

lemma wf_chars [simp]: "wf_rx (chars f s)"
  by (simp add: chars_def list_all_iff)

lemma mt_seqs_Cons: "mt wd w r i k \<Longrightarrow> mt wd w (seqs rs) k j \<Longrightarrow> mt wd w (seqs (r # rs)) i j"
  unfolding seqs_def by (simp add: mt_Sq)

lemma mt_seqs_Nil: "mt wd w (seqs []) i i"
  unfolding seqs_def by (simp add: mt_Eps)

text \<open>A literal matches where a case variant of it stands, a class repeats over a run.\<close>

lemma mt_chars:
  "map f t = map f s \<Longrightarrow> mt wd (x @ t @ y) (chars f s) (length x) (length x + length t)"
proof (induction s arbitrary: x t)
  case Nil
  then show ?case by (simp add: chars_def mt_seqs_Nil)
next
  case (Cons c s)
  then obtain d t' where t: "t = d # t'" "f d = f c" "map f t' = map f s" by (cases t) auto
  from Cons.IH[OF t(3), of "x @ [d]"]
  have tail: "mt wd (x @ t @ y) (seqs (map (\<lambda>c. Cls (\<lambda>x. f x = f c)) s))
      (Suc (length x)) (length x + length t)" by (simp add: chars_def t)
  have "mt wd (x @ t @ y) (Cls (\<lambda>x. f x = f c)) (length x) (Suc (length x))"
    by (intro mt_Cls) (simp add: at_char_def nth_append t)
  from mt_seqs_Cons[OF this tail] show ?case by (simp add: chars_def)
qed

lemma mt_run:
  "list_all p t \<Longrightarrow> m \<le> length t \<Longrightarrow> mt wd (x @ t @ y) (Rp (Cls p) m None) (length x) (length x + length t)"
proof (induction t arbitrary: m x)
  case (Cons d t)
  have "mt wd ((x @ [d]) @ t @ y) (Rp (Cls p) (m - 1) None) (length (x @ [d])) (length (x @ [d]) + length t)"
    by (rule Cons.IH) (use Cons.prems in auto)
  moreover have "mt wd (x @ (d # t) @ y) (Cls p) (length x) (Suc (length x))"
    using Cons.prems by (intro mt_Cls) (simp add: at_char_def nth_append)
  ultimately show ?case using mt_Rp[of wd _ "Cls p" "length x" "Suc (length x)" None m] by simp
qed (simp add: mt_Rp0)

lemma mt_alts: "r \<in> set rs \<Longrightarrow> mt wd w r i j \<Longrightarrow> mt wd w (alts rs) i j"
proof (induction rs)
  case (Cons q rs)
  show ?case
  proof (cases rs)
    case Nil
    with Cons.prems show ?thesis by (simp add: alts_def)
  next
    case (Cons q' rs')
    then have e: "alts (q # rs) = Al q (alts rs)" by (simp add: alts_def)
    from Cons.prems Cons.IH show ?thesis unfolding e by (auto intro: mt_Al1 mt_Al2)
  qed
qed simp

text \<open>A word boundary between two texts.\<close>

definition sides :: "(nat \<Rightarrow> bool) \<Rightarrow> pystr \<Rightarrow> pystr \<Rightarrow> bool" where
  "sides wd x y \<longleftrightarrow> (x \<noteq> [] \<and> wd (last x)) \<noteq> (y \<noteq> [] \<and> wd (hd y))"

lemma mt_boundary: "sides wd x y \<Longrightarrow> mt wd (x @ y) Bnd (length x) (length x)"
  by (rule mt_Bnd)
    (cases x rule: rev_cases; cases y; simp add: boundary_def at_char_def sides_def nth_append)

end
