(* ===== verification/Patterns.thy ===== *)
theory Patterns
  imports Regex
begin

text \<open>
  The pattern library (\<open>harness/diff/patterns.py\<close>): which texts look like instructions to the
  model, exfiltration, secrets or hidden text. Every regular expression of the file is here,
  in its order; the character classes beyond ASCII come from the Unicode data.
\<close>

definition lit :: "unidata \<Rightarrow> string \<Rightarrow> rx" where
  "lit u s = chars (u_fold u) (S s)"

definition ws :: "unidata \<Rightarrow> rx" where "ws u = Cls (u_space u)"
definition digit :: "unidata \<Rightarrow> rx" where "digit u = Cls (\<lambda>c. u_decimal u c \<noteq> None)"
definition one_of :: "string \<Rightarrow> nat \<Rightarrow> bool" where "one_of s c \<longleftrightarrow> c \<in> set (S s)"
definition word_or :: "unidata \<Rightarrow> string \<Rightarrow> rx" where
  "word_or u s = Cls (\<lambda>c. u_word u c \<or> one_of s c)"
definition not_newline :: rx where "not_newline = Cls (\<lambda>c. c \<noteq> 10)"
definition upto :: "rx \<Rightarrow> nat \<Rightarrow> rx" where "upto r n = Rp r 0 (Some n)"

definition lits :: "unidata \<Rightarrow> string list \<Rightarrow> rx" where
  "lits u ss = alts (map (lit u) ss)"

definition url_re :: "unidata \<Rightarrow> rx" where
  "url_re u = seqs [Bnd, lit u ''http'', opt (lit u ''s''), lit u ''://'',
     plus (Cls (\<lambda>c. \<not> u_space u c \<and> \<not> one_of [CHR 0x22, CHR 0x27, CHR ''<'', CHR ''>''] c))]"

definition email_re :: "unidata \<Rightarrow> rx" where
  "email_re u = seqs [Bnd, plus (word_or u ''.+-''), lit u ''@'', plus (word_or u ''-''), lit u ''.'',
     plus (word_or u ''.-''), Bnd]"

definition ipv4_re :: "unidata \<Rightarrow> rx" where
  "ipv4_re u = seqs [Bnd, Rp (seqs [Rp (digit u) 1 (Some 3), lit u ''.'']) 3 (Some 3),
     Rp (digit u) 1 (Some 3), Bnd]"

text \<open>\<open>(all\s+|any\s+|the\s+)?\<close>\<close>

definition all_any_the :: "unidata \<Rightarrow> rx" where
  "all_any_the u = opt (alts (map (\<lambda>s. Sq (lit u s) (plus (ws u))) [''all'', ''any'', ''the'']))"

definition phrase :: "unidata \<Rightarrow> string list \<Rightarrow> rx" where
  "phrase u wds = seqs ([Bnd, lit u (hd wds)]
     @ concat (map (\<lambda>s. [plus (ws u), lit u s]) (tl wds)) @ [Bnd])"

definition instruction_res :: "unidata \<Rightarrow> rx list" where
  "instruction_res u =
     [seqs [Bnd, lit u ''ignore'', plus (ws u), all_any_the u, lits u [''previous'', ''prior'', ''above''], Bnd],
      phrase u [''do'', ''not'', ''tell'', ''the'', ''user''],
      seqs [Bnd, lit u ''never'', plus (ws u), lits u [''mention'', ''tell'', ''reveal''], Bnd],
      phrase u [''before'', ''using'', ''this'', ''tool''],
      seqs [lit u ''<'', star (ws u),
        alts [lit u ''important'', lit u ''system'', Sq (lit u ''instruction'') (opt (lit u ''s''))],
        star (ws u), lit u ''>''],
      seqs [Bnd, lit u ''disregard'', plus (ws u), all_any_the u, lits u [''previous'', ''prior''], Bnd]]"

definition exfil_res :: "unidata \<Rightarrow> rx list" where
  "exfil_res u =
     [seqs [Bnd, lits u [''send'', ''forward'', ''upload'', ''include'', ''copy'', ''attach'', ''append''], Bnd,
        upto not_newline 60, Bnd, lits u [''in'', ''into'', ''to''], Bnd, upto not_newline 40, Bnd,
        lits u [''field'', ''notes'', ''body'', ''message'', ''request'', ''response'', ''server'',
                ''endpoint'', ''url''], Bnd]]"

definition sensitive_res :: "unidata \<Rightarrow> rx list" where
  "sensitive_res u =
     [seqs [lit u ''~'', Cls (one_of [CHR ''/'', CHR 0x5C]), lit u ''.ssh''],
      seqs [lit u ''.env'', Bnd],
      lit u ''id_rsa'',
      seqs [Bnd, lit u ''api'', opt (Cls (one_of ''_ -'')), lit u ''key'', Bnd],
      seqs [Bnd, lit u ''access'', opt (Cls (one_of ''_ -'')), lit u ''token'', Bnd],
      seqs [Bnd, lit u ''password'', Bnd],
      seqs [Bnd, lit u ''secret'', Bnd],
      url_re u, email_re u, ipv4_re u]"

definition base64_char :: "nat \<Rightarrow> bool" where
  "base64_char c \<longleftrightarrow> 65 \<le> c \<and> c \<le> 90 \<or> 97 \<le> c \<and> c \<le> 122 \<or> 48 \<le> c \<and> c \<le> 57 \<or> c = 43 \<or> c = 47"

definition hidden_text_res :: "unidata \<Rightarrow> rx list" where
  "hidden_text_res u =
     [Cls (\<lambda>c. c \<in> {0x200B, 0x200C, 0x200D, 0x2060, 0xFEFF}),
      Rp (Cls (\<lambda>c. c = 32)) 10 None,
      Rp (Cls (\<lambda>c. c = 9)) 4 None,
      seqs [Rp (Cls base64_char) 40 None, upto (Cls (\<lambda>c. c = 61)) 2, NotNext (u_word u)]]"

definition categories :: "unidata \<Rightarrow> (pystr \<times> rx list) list" where
  "categories u = [(S ''instruction'', instruction_res u), (S ''exfil'', exfil_res u),
     (S ''sensitive'', sensitive_res u), (S ''hidden_text'', hidden_text_res u)]"

record pattern_match =
  pm_category :: pystr
  pm_snippet :: pystr

text \<open>\<open>other_tool_names\<close> is a set in the source; the list is the order in which it is walked.\<close>

definition cross_tool_prefix :: pystr where "cross_tool_prefix = S ''cross_tool:''"

definition cross_tool_matches :: "unidata \<Rightarrow> pystr \<Rightarrow> pystr list \<Rightarrow> pattern_match list" where
  "cross_tool_matches u tx other_tool_names =
     map (\<lambda>name. \<lparr>pm_category = cross_tool_prefix @ name, pm_snippet = name\<rparr>)
       (filter (\<lambda>name. name \<noteq> [] \<and>
          search (u_word u) tx (seqs [Bnd, chars (u_fold u) name, Bnd]) \<noteq> None) other_tool_names)"

definition pattern_hit :: "unidata \<Rightarrow> pystr \<Rightarrow> pystr \<Rightarrow> rx \<Rightarrow> pattern_match option" where
  "pattern_hit u tx category r =
     map_option (\<lambda>m. \<lparr>pm_category = category, pm_snippet = take 80 (slice tx m)\<rparr>) (search (u_word u) tx r)"

definition scan :: "unidata \<Rightarrow> pystr \<Rightarrow> pystr list \<Rightarrow> pattern_match list" where
  "scan u tx other_tool_names =
     concat (map (\<lambda>(category, rs). List.map_filter (pattern_hit u tx category) rs) (categories u))
     @ cross_tool_matches u tx other_tool_names"

definition new_matches :: "unidata \<Rightarrow> pystr \<Rightarrow> pystr \<Rightarrow> pystr list \<Rightarrow> pattern_match list" where
  "new_matches u prior after other_tool_names =
     (let before_categories = map pm_category (scan u prior other_tool_names) in
      filter (\<lambda>m. pm_category m \<notin> set before_categories) (scan u after other_tool_names))"

section \<open>The patterns as a specification\<close>

lemma wf_basic [simp]:
  "wf_rx (lit u s)" "wf_rx (ws u)" "wf_rx (digit u)" "wf_rx (word_or u s)" "wf_rx not_newline"
  "wf_rx (opt r) = wf_rx r" "wf_rx (upto r n) = wf_rx r"
  "wf_rx (plus r) \<longleftrightarrow> wf_rx r \<and> 0 < min_len r" "wf_rx (star r) \<longleftrightarrow> wf_rx r \<and> 0 < min_len r"
  "min_len (ws u) = 1" "min_len (word_or u s) = 1"
  by (simp_all add: lit_def ws_def digit_def word_or_def not_newline_def opt_def upto_def plus_def star_def)

lemma wf_lits [simp]: "ss \<noteq> [] \<Longrightarrow> wf_rx (lits u ss)"
  unfolding lits_def by (rule wf_alts) (simp_all add: list_all_iff)

lemma wf_all_any_the [simp]: "wf_rx (all_any_the u)"
  by (simp add: all_any_the_def wf_alts)

lemma wf_phrase [simp]: "wf_rx (phrase u wds)"
  by (simp add: phrase_def list_all_iff)

lemma wf_groups:
  "list_all wf_rx (instruction_res u)" "list_all wf_rx (exfil_res u)"
  "list_all wf_rx (sensitive_res u)" "list_all wf_rx (hidden_text_res u)"
  by (simp_all add: instruction_res_def exfil_res_def sensitive_res_def hidden_text_res_def wf_alts
      url_re_def email_re_def ipv4_re_def)

lemma patterns_wf: "(c, rs) \<in> set (categories u) \<Longrightarrow> r \<in> set rs \<Longrightarrow> wf_rx r"
  using wf_groups[of u] by (auto simp: categories_def list_all_iff)

text \<open>A category occurs in a text: one of its patterns matches somewhere, in the declarative sense.\<close>

definition occurs :: "unidata \<Rightarrow> pystr \<Rightarrow> pystr \<Rightarrow> bool" where
  "occurs u category tx \<longleftrightarrow> (\<exists>rs r i j. (category, rs) \<in> set (categories u) \<and> r \<in> set rs \<and>
     i \<le> length tx \<and> mt (u_word u) tx r i j)"

end
