(* ===== verification/Description_Diff.thy ===== *)
theory Description_Diff
  imports Patterns Findings
begin

text \<open>
  The description layer (\<open>harness/diff/description_diff.py\<close>): cosmetic changes are dropped, new
  pattern matches are SECURITY findings, the token similarity decides between WARN and INFO. The
  embedder and the judge are optional plug-ins that no caller in the repository passes: the
  similarity of the embedder and the judge are parameters.
\<close>

section \<open>Normalisation\<close>

definition strip :: "unidata \<Rightarrow> pystr \<Rightarrow> pystr" where
  "strip u s = rev (dropWhile (u_space u) (rev (dropWhile (u_space u) s)))"

definition is_punct :: "nat \<Rightarrow> bool" where
  "is_punct c \<longleftrightarrow> 33 \<le> c \<and> c \<le> 47 \<or> 58 \<le> c \<and> c \<le> 64 \<or> 91 \<le> c \<and> c \<le> 96 \<or> 123 \<le> c \<and> c \<le> 126"

text \<open>\<open>re.sub(r"\s+", " ", t)\<close> and \<open>t.split()\<close>.\<close>

function collapse_ws :: "unidata \<Rightarrow> pystr \<Rightarrow> pystr" where
  "collapse_ws u [] = []"
| "collapse_ws u (c # s) =
     (if u_space u c then 32 # collapse_ws u (dropWhile (u_space u) s) else c # collapse_ws u s)"
  by pat_completeness auto
termination
  by (relation "measure (\<lambda>(u, s). length s)") (auto simp: length_dropWhile_le less_Suc_eq_le)

function split_ws :: "unidata \<Rightarrow> pystr \<Rightarrow> pystr list" where
  "split_ws u [] = []"
| "split_ws u (c # s) =
     (if u_space u c then split_ws u s
      else takeWhile (\<lambda>x. \<not> u_space u x) (c # s) # split_ws u (dropWhile (\<lambda>x. \<not> u_space u x) s))"
  by pat_completeness auto
termination
  by (relation "measure (\<lambda>(u, s). length s)") (auto simp: length_dropWhile_le less_Suc_eq_le)

definition normalize :: "unidata \<Rightarrow> pystr \<Rightarrow> pystr" where
  "normalize u tx =
     strip u (collapse_ws u (filter (\<lambda>c. \<not> is_punct c) (u_lower u (strip u tx))))"

definition tokens :: "unidata \<Rightarrow> pystr \<Rightarrow> pystr list" where
  "tokens u tx = remdups (split_ws u (normalize u tx))"

definition jaccard_similarity :: "unidata \<Rightarrow> pystr \<Rightarrow> pystr \<Rightarrow> rat" where
  "jaccard_similarity u prior after =
     (let a = tokens u prior; b = tokens u after in
      if a = [] \<and> b = [] then 1
      else if a = [] \<or> b = [] then 0
      else fl_div (of_nat (length (filter (\<lambda>t. t \<in> set b) a))) (of_nat (length (remdups (a @ b)))))"

section \<open>Changes that always count\<close>

definition negation_words :: "pystr list" where
  "negation_words = map S [''not'', ''no'', ''never'', ''cannot'', ''cant'', ''without'', ''except'', ''only'']"

definition negation_flipped :: "unidata \<Rightarrow> pystr \<Rightarrow> pystr \<Rightarrow> bool" where
  "negation_flipped u prior after \<longleftrightarrow>
     set (tokens u prior) \<inter> set negation_words \<noteq> set (tokens u after) \<inter> set negation_words"

definition number_re :: "unidata \<Rightarrow> rx" where
  "number_re u = seqs [plus (digit u), opt (Sq (Cls (\<lambda>c. c = 46)) (plus (digit u))), star (ws u),
     star (Cls (\<lambda>c. 97 \<le> c \<and> c \<le> 122 \<or> 65 \<le> c \<and> c \<le> 90 \<or> c = 37))]"

definition numbers_changed :: "unidata \<Rightarrow> pystr \<Rightarrow> pystr \<Rightarrow> bool" where
  "numbers_changed u prior after \<longleftrightarrow>
     set (findall (u_word u) (normalize u prior) (number_re u))
       \<noteq> set (findall (u_word u) (normalize u after) (number_re u))"

section \<open>The differ\<close>

definition default_semantic_threshold :: jfloat where "default_semantic_threshold = Dec False 5 (- 1)"
definition grey_band :: rat where "grey_band = dbl (1 / 10)"

definition category_rule_ids :: "(pystr \<times> string) list" where
  "category_rule_ids = [(S ''instruction'', ''DESC_INJECTION_INSTRUCTION''),
     (S ''exfil'', ''DESC_EXFIL_PATTERN''), (S ''sensitive'', ''DESC_SENSITIVE_PATTERN''),
     (S ''hidden_text'', ''DESC_HIDDEN_TEXT'')]"

definition desc_finding ::
  "severity \<Rightarrow> string \<Rightarrow> pystr \<Rightarrow> message \<Rightarrow> pystr \<Rightarrow> pystr \<Rightarrow> finding" where
  "desc_finding sev rule tool msg prior after =
     \<lparr>f_severity = sev, f_rule = rule, f_path = S ''/description'', f_message = msg, f_tool = Some tool,
      f_before = JStr prior, f_after = JStr after\<rparr>"

definition match_finding :: "pystr \<Rightarrow> pystr \<Rightarrow> pystr \<Rightarrow> pattern_match \<Rightarrow> pyexc + finding" where
  "match_finding tool prior after m =
     (let c = pm_category m; n = length cross_tool_prefix in
      if take n c = cross_tool_prefix then
        Inr (desc_finding SECURITY ''DESC_CROSS_TOOL_REFERENCE'' tool
          [Lit ''description now mentions another tool ('', Rep (JStr (drop n c)),
           Lit '') it did not mention before -- possible cross-tool shadowing''] prior after)
      else case map_of category_rule_ids c of
          None \<Rightarrow> Inl KeyError
        | Some rule \<Rightarrow>
            Inr (desc_finding SECURITY rule tool
              [Lit ''description gained new '', Txt (map (\<lambda>x. if x = 95 then 32 else x) c),
               Lit '' content not present before: '', Rep (JStr (pm_snippet m))] prior after))"

definition float_value :: "jfloat \<Rightarrow> pyreal" where
  "float_value x = the (numval (JFloat x))"

definition semantic_finding ::
  "unidata \<Rightarrow> pystr \<Rightarrow> pystr \<Rightarrow> pystr \<Rightarrow> bool \<Rightarrow> string \<Rightarrow> rat \<Rightarrow> jfloat \<Rightarrow> finding list" where
  "semantic_finding u tool prior after flagged_by_rules meth score semantic_threshold =
     (let negated = negation_flipped u prior after; numbers = numbers_changed u prior after;
          why = (if negated then [[Lit ''a negation word was added or removed'']] else [])
              @ (if numbers then [[Lit ''a number or unit changed'']] else []);
          why' = (if why = [] then [[Lit meth, Lit ''='', Txt (fixed2 score), Lit '' is below the '',
                                     Shown (JFloat semantic_threshold), Lit '' threshold'']] else why) in
      if negated \<or> numbers \<or> num_less (Rat score) (float_value semantic_threshold) then
        [desc_finding WARN ''DESC_SEMANTIC_CHANGE'' tool
          ([Lit ''description meaning likely changed (''] @ hd why'
           @ concat (map (\<lambda>x. Lit ''; '' # x) (tl why')) @ [Lit '')'']) prior after]
      else if \<not> flagged_by_rules then
        [desc_finding INFO ''DESC_REWORDED'' tool
          [Lit ''description text changed but meaning looks the same ('', Lit meth, Lit ''='',
           Txt (fixed2 score), Lit '')''] prior after]
      else [])"

type_synonym embedding = "pystr \<Rightarrow> pystr \<Rightarrow> rat"
type_synonym judge = "pystr \<Rightarrow> pystr \<Rightarrow> pystr \<Rightarrow> finding option"

definition diff_description ::
  "unidata \<Rightarrow> pystr \<Rightarrow> pystr \<Rightarrow> pystr \<Rightarrow> pystr list \<Rightarrow> embedding option \<Rightarrow> judge option \<Rightarrow> jfloat \<Rightarrow>
   pyexc + finding list" where
  "diff_description u tool prior after other_tool_names embedder judge semantic_threshold =
     (if normalize u prior = normalize u after then Inr []
      else bindE (mapE (match_finding tool prior after) (new_matches u prior after other_tool_names)) (\<lambda>findings.
        let score = (case embedder of Some e \<Rightarrow> e prior after | None \<Rightarrow> jaccard_similarity u prior after);
            meth = (case embedder of Some e \<Rightarrow> ''embedding cosine similarity'' | None \<Rightarrow> ''token Jaccard similarity'');
            near = (case float_value semantic_threshold of Rat t \<Rightarrow> \<bar>dbl (score - t)\<bar> \<le> grey_band | _ \<Rightarrow> False);
            judged = (case judge of
                None \<Rightarrow> []
              | Some j \<Rightarrow> if near
                          then (case j tool prior after of Some f \<Rightarrow> [f] | None \<Rightarrow> []) else [])
        in Inr (findings
             @ semantic_finding u tool prior after (findings \<noteq> []) meth score semantic_threshold @ judged)))"

text \<open>The definitions carry any JSON value: \<open>before or ""\<close>, then \<open>.strip()\<close> of what is no string.\<close>

definition description_text :: "json \<Rightarrow> pyexc + pystr" where
  "description_text v = (if \<not> truthy v then Inr [] else case v of JStr s \<Rightarrow> Inr s | _ \<Rightarrow> Inl AttributeError)"

definition diff_description_values ::
  "unidata \<Rightarrow> pystr \<Rightarrow> json \<Rightarrow> json \<Rightarrow> pystr list \<Rightarrow> embedding option \<Rightarrow> judge option \<Rightarrow> jfloat \<Rightarrow>
   pyexc + finding list" where
  "diff_description_values u tool prior after other_tool_names embedder judge semantic_threshold =
     bindE (description_text prior) (\<lambda>b. bindE (description_text after) (\<lambda>a.
       diff_description u tool b a other_tool_names embedder judge semantic_threshold))"

end
