(* ===== verification/Control_Differ.thy ===== *)
theory Control_Differ
  imports Control_Http Schema_Facts Description_Facts
begin

text \<open>
  The differ as the control plane runs it (\<open>control/differ.py\<close>), and the two joined: the
  interface \<open>breaking_differ\<close> is what the service relies on, the harness' differ provides it,
  so a change that takes a parameter away is answered with suspend or quarantine.
\<close>

definition diff_definitions :: "unidata \<Rightarrow> diff_fn" where
  "diff_definitions u tool old_def new_def =
     bindE (diff_tool u tool old_def new_def) (\<lambda>findings.
     bindE (diff_description_values u tool
              (dict_get old_def (S ''description'') (JStr [])) (dict_get new_def (S ''description'') (JStr []))
              [] None None default_semantic_threshold) (\<lambda>desc.
     Inr (findings @ desc)))"

section \<open>The interface between the service and its differ\<close>

locale breaking_differ =
  fixes diff :: diff_fn
    and lossy :: "(pystr \<times> json) list \<Rightarrow> (pystr \<times> json) list \<Rightarrow> bool"
  assumes lossy_breaks:
    "diff tool old_def new_def = Inr fs \<Longrightarrow> lossy old_def new_def \<Longrightarrow> \<exists>f \<in> set fs. f_severity f = BREAKING"
begin

lemma analysis_severity:
  assumes "analyse diff tool old_def new_def = Inr a" "lossy old_def new_def"
  shows "\<exists>s. an_severity a = Some s \<and> s \<le> BREAKING"
proof -
  obtain fs where fs: "diff tool old_def new_def = Inr fs" "an_severity a = highest_severity (sort_findings fs)"
    using assms(1) by (auto simp: analyse_def bindE_eq_Inr Let_def)
  obtain f where f: "f \<in> set fs" "f_severity f = BREAKING" using lossy_breaks[OF fs(1) assms(2)] by blast
  then obtain s where s: "highest_severity (sort_findings fs) = Some s"
    using highest_severity_None[of "sort_findings fs"] by (metis empty_iff f(1) list.set(1) option.exhaust set_sort_findings)
  from highest_severity_Some[OF s] f have "s \<le> BREAKING" by auto
  with fs(2) s show ?thesis by simp
qed

lemma severity_text_position:
  "s \<le> BREAKING \<Longrightarrow> \<exists>j. 3 \<le> j \<and> j < length severities \<and> severity_text (Some s) = severities ! j"
  by (cases s) (force simp: severities_def severity_text_def severity_name_def less_eq_severity_def
      intro: exI[of _ 3] exI[of _ 4])+

lemma lossy_verdict:
  assumes p: "default_policy = Inr p" and a: "analyse diff (cr_tool req) (cr_old_def req) (cr_new_def req) = Inr a"
    and l: "lossy (cr_old_def req) (cr_new_def req)" and v: "verdict_of p req a = Inr (v, risk)"
  shows "v \<in> {S ''suspend'', S ''quarantine''}"
proof -
  obtain s where s: "an_severity a = Some s" "s \<le> BREAKING" using analysis_severity[OF a l] by blast
  obtain j where j: "3 \<le> j" "j < 5" "severity_text (Some s) = severities ! j"
    using severity_text_position[OF s(2)] by (auto simp: severities_def)
  have "risk_class p (cr_server req) (cr_tool req) (cr_new_def req) \<in> set risk_classes"
    using risk_class_ok policy_from_dict_ok p unfolding default_policy_def by blast
  then obtain k where "k < length risk_classes"
      and k': "risk_class p (cr_server req) (cr_tool req) (cr_new_def req) = risk_classes ! k"
    by (metis in_set_conv_nth)
  then have k: "k < 3" by (simp add: risk_classes_def)
  let ?b = "default_positions ! j ! k"
  have "verdicts ! ?b = v"
    using v default_policy_decides[OF p j(2) k(1)] by (simp add: verdict_of_def Let_def bindE_eq_Inr s(1) j(3) k')
  moreover have "2 \<le> ?b \<and> ?b < 4" using default_positions_monotone[of j j k k] j k by simp
  then have "?b = 2 \<or> ?b = 3" by linarith
  ultimately show ?thesis by (auto simp: verdicts_def)
qed

end

interpretation harness: breaking_differ "diff_definitions u" "lossy_change u"
  by unfold_locales (auto simp: diff_definitions_def bindE_eq_Inr breaks_def dest!: lost_breaks)

section \<open>End to end\<close>

lemma verdict_in_body: "map_of (verdict_body pr a v risk hit mm) (S ''verdict'') = Some (JStr v)"
  by (simp add: verdict_body_def response_body_def Let_def update_conv')

text \<open>C10 A change that takes a parameter (with an object schema) away or makes a caller send a new one, reported for
  the first time (no analysis of its two hashes is cached), under the shipped policy: it is answered with \<open>resume\<close> if
  the new definition is the approved baseline of the tool; otherwise with \<open>suspend\<close> or \<open>quarantine\<close>, or, if the differ
  raises on the two definitions, with that exception.\<close>

theorem lossy_change_suspended:
  assumes "default_policy = Inr p" and "policy c = p" and "0 \<le> cache_size c"
    and "compute_hashes sha req = Inr (oh, nh)" and "map_of (cache c) (oh, nh) = None"
    and "lossy_change u (cr_old_def req) (cr_new_def req)"
    and "evaluate_change pr sha (diff_definitions u) c req = (r, c')"
  shows "if is_approved c req nh
    then \<exists>body. r = Some (Inr body) \<and> map_of body (S ''verdict'') = Some (JStr (S ''resume''))
    else case diff_definitions u (cr_tool req) (cr_old_def req) (cr_new_def req) of
        Inl e \<Rightarrow> r = Some (Inl (Raised e))
      | Inr fs \<Rightarrow> \<exists>body. r = Some (Inr body)
          \<and> map_of body (S ''verdict'') \<in> {Some (JStr (S ''suspend'')), Some (JStr (S ''quarantine''))}"
proof (cases "is_approved c req nh")
  case True
  have "map_of (approved_body pr mm) (S ''verdict'') = Some (JStr (S ''resume''))" for mm
    by (simp add: approved_body_def response_body_def Let_def update_conv')
  with True assms(4,7) show ?thesis by (auto simp: evaluate_change_def Let_def enter_change_def)
next
  case False
  let ?mm = "check_hashes req oh nh"
  obtain c1 where c1: "enter_change c req nh (?mm \<noteq> []) = (False, c1)"
    "cache c1 = cache c" "policy c1 = policy c" "approved c1 = approved c" "cache_size c1 = cache_size c"
    using False by (simp add: enter_change_def Let_def)
  obtain r2 c2 where look: "lookup_future c1 (oh, nh) = (r2, c2)" by force
  note m = lookup_miss[OF _ _ look, unfolded c1(2,5), OF assms(5,3)]
  have na: "\<not> is_approved (set_future fid x c2) req nh" for fid x
    using False lookup_future_keeps[OF look] c1(4) by (simp add: is_approved_def set_future_def)
  show ?thesis
  proof (cases "diff_definitions u (cr_tool req) (cr_old_def req) (cr_new_def req)")
    case (Inl e)
    then have "analyse (diff_definitions u) (cr_tool req) (cr_old_def req) (cr_new_def req) = Inl e"
      by (simp add: analyse_def)
    then have "r = Some (Inl (Raised e))"
      using assms(4,7) c1(1) look m(1) by (simp add: evaluate_change_def Let_def cached_analysis_def)
    with False Inl show ?thesis by simp
  next
    case (Inr fs)
    then obtain a where a: "analyse (diff_definitions u) (cr_tool req) (cr_old_def req) (cr_new_def req) = Inr a"
      by (simp add: analyse_def Let_def)
    have "policy_ok p" using assms(1) policy_from_dict_ok unfolding default_policy_def by blast
    moreover have "severity_text (an_severity a) \<in> set severities"
      by (auto simp: severity_text_def severities_def severity_name_def split: option.split severity.split)
    ultimately obtain v risk where v: "verdict_of p req a = Inr (v, risk)"
      using risk_class_ok[of p "cr_server req" "cr_tool req" "cr_new_def req"]
      unfolding verdict_of_def Let_def policy_ok_def by (metis bindE_simps(2))
    have "policy (set_future (length (futures c1)) (Result a) c2) = p"
      using m(3) c1(3) assms(2) by (simp add: set_future_def)
    then have "r = Some (Inr (verdict_body pr a v risk False ?mm))"
      using assms(4,7) c1(1) look m(1) a v na by (simp add: evaluate_change_def Let_def cached_analysis_def conclude_def)
    moreover have "v \<in> {S ''suspend'', S ''quarantine''}" by (rule harness.lossy_verdict[OF assms(1) a assms(6) v])
    ultimately show ?thesis using False Inr by (auto simp: verdict_in_body)
  qed
qed

definition sample_req :: change_request where
  "sample_req = \<lparr>cr_server = S ''s'', cr_tool = S ''t'', cr_session = [], cr_old_hash = [], cr_new_hash = [],
     cr_old_def = (S ''name'', JStr (S ''t'')) # sample_tool, cr_new_def = [(S ''name'', JStr (S ''t''))]\<rparr>"

lemma sample_hashes: "\<exists>oh nh. compute_hashes sha sample_req = Inr (oh, nh)"
proof -
  have total: "\<exists>h. tool_hash sha d = Inr h" if norm: "normalize_tool d = Inr m" and port: "portable m" for d m
  proof -
    obtain s where "canonical_json m = Inr s" using canonical_portable[of m] port by auto
    with norm show ?thesis by (simp add: tool_hash_def sha256_hex_def)
  qed
  have "normalize_tool (cr_old_def sample_req) = Inr (JDict [(S ''name'', JStr (S ''t'')), (S ''description'', JStr []),
        (S ''inputSchema'', JDict [(S ''properties'', JDict [(S ''a'', JDict [])])])])"
      "normalize_tool (cr_new_def sample_req) = Inr (JDict [(S ''name'', JStr (S ''t'')), (S ''description'', JStr []),
        (S ''inputSchema'', JDict [])])"
    by (simp_all add: normalize_tool_def normalize_JDict norm_required_def sample_req_def sample_tool_def dict_get.simps)
  then obtain oh nh where "tool_hash sha (cr_old_def sample_req) = Inr oh" "tool_hash sha (cr_new_def sample_req) = Inr nh"
    using total by (fastforce simp: keys_encodable_def S_def is_surrogate_def)
  then show ?thesis by (simp add: compute_hashes_def)
qed

text \<open>A tool that loses its only parameter, before any approval.\<close>

theorem lossy_change_suspended_witness:
  "\<exists>(p :: policy_table) body (c :: control). default_policy = Inr p \<and>
     evaluate_change (\<lambda>_. True) (\<lambda>_. []) (diff_definitions ascii_data) (control_init p 4) sample_req = (Some (Inr body), c)
     \<and> map_of body (S ''verdict'') \<in> {Some (JStr (S ''suspend'')), Some (JStr (S ''quarantine''))}"
proof -
  obtain p where p: "default_policy = Inr p" using default_policy_loads by blast
  let ?c = "control_init p 4" and ?d = "diff_definitions ascii_data"
  have "takes ascii_data (cr_old_def sample_req) (S ''a'')" "\<not> takes ascii_data (cr_new_def sample_req) (S ''a'')"
    by (simp_all add: takes_def sample_req_def sample_tool_def schema_items_def differ_eval)
  then have lossy: "lossy_change ascii_data (cr_old_def sample_req) (cr_new_def sample_req)"
    unfolding lossy_change_def by blast
  obtain oh nh where h: "compute_hashes (\<lambda>_. []) sample_req = Inr (oh, nh)" using sample_hashes by blast
  obtain fs where fs: "?d (cr_tool sample_req) (cr_old_def sample_req) (cr_new_def sample_req) = Inr fs"
    by (simp add: diff_definitions_def diff_description_values_def description_text_def diff_description_def
        sample_req_def sample_tool_def differ_eval)
  obtain r c where e: "evaluate_change (\<lambda>_. True) (\<lambda>_. []) ?d ?c sample_req = (r, c)" by force
  have start: "policy ?c = p" "0 \<le> cache_size ?c" "map_of (cache ?c) (oh, nh) = None" "\<not> is_approved ?c sample_req nh"
    by (simp_all add: is_approved_def control_init_def)
  from lossy_change_suspended[OF p start(1,2) h start(3) lossy e] start(4) fs p e show ?thesis by auto
qed

end
