(* ===== verification/Lru_Model.thy ===== *)
theory Lru_Model
  imports Prelude
begin

text \<open>
  Problem 1, the LRU cache with per-key TTL: what the implementations share
  (\<open>q1_lru_ttl/lru_ttl/cache.py\<close>: the argument sentinels, \<open>CacheStats\<close>, the validators),
  the trivially correct list model of \<open>q1_lru_ttl/tests/reference_model.py\<close> as the
  abstract specification, the operations as data so that whole sessions can be run, and
  the contract \<open>ttl_cache\<close> every implementation of the cache is held to.

  A method that reads the injected clock takes the reading as an argument; \<open>put\<close> may read
  it twice (for the expiry of the new entry and for the expiry of the victim).
\<close>

section \<open>Arguments, statistics, validation\<close>

text \<open>The \<open>ttl\<close> argument of \<open>put\<close>: omitted, or given (\<open>None\<close> never expires).\<close>

datatype ttl_arg = UseDefault | Ttl "flt option"

record cache_stats =
  hits :: nat
  misses :: nat
  evictions :: nat
  expirations :: nat

definition zero_stats :: cache_stats where
  "zero_stats = \<lparr>hits = 0, misses = 0, evictions = 0, expirations = 0\<rparr>"

text \<open>The capacity argument as Python sees it: a bool is an int that is refused.\<close>

datatype pycapacity = CapBool bool | CapInt int | CapOther

fun validate_capacity :: "pycapacity \<Rightarrow> pyexc + int" where
  "validate_capacity (CapInt n) = (if n < 1 then Inl ValueError else Inr n)"
| "validate_capacity (CapBool b) = Inl ValueError"
| "validate_capacity CapOther = Inl ValueError"

definition validate_ttl :: "flt option \<Rightarrow> pyexc + unit" where
  "validate_ttl ttl = (case ttl of
      None \<Rightarrow> Inr ()
    | Some x \<Rightarrow> if \<not> flt_isfinite x \<or> flt_le x (Fin 0) then Inl ValueError else Inr ())"

lemma validate_ttl_simps [simp]:
  "validate_ttl None = Inr ()"
  "validate_ttl (Some (Fin x)) = (if x \<le> 0 then Inl ValueError else Inr ())"
  "validate_ttl (Some PosInf) = Inl ValueError"
  "validate_ttl (Some NegInf) = Inl ValueError"
  "validate_ttl (Some NaN) = Inl ValueError"
  by (simp_all add: validate_ttl_def)

lemma validate_ttl_Inr:
  "validate_ttl ttl = Inr u \<longleftrightarrow> ttl = None \<or> (\<exists>x. ttl = Some (Fin x) \<and> 0 < x)"
  by (cases ttl) (auto simp: validate_ttl_def elim!: flt_isfinite.elims)

lemma validate_ttl_Inl:
  "validate_ttl ttl = Inl e \<longleftrightarrow> e = ValueError \<and> validate_ttl ttl \<noteq> Inr ()"
  by (auto simp: validate_ttl_def split: option.splits if_splits)

lemma validate_ttl_error: "validate_ttl ttl = Inl e \<Longrightarrow> e = ValueError"
  by (simp add: validate_ttl_Inl)

definition effective_ttl :: "flt option \<Rightarrow> ttl_arg \<Rightarrow> flt option" where
  "effective_ttl dflt ttl = (case ttl of UseDefault \<Rightarrow> dflt | Ttl t \<Rightarrow> t)"

text \<open>\<open>expires_at = None if ttl is None else clock() + ttl\<close>.\<close>

definition expiry :: "real \<Rightarrow> flt option \<Rightarrow> flt option" where
  "expiry now ttl = map_option (flt_add (Fin now)) ttl"

text \<open>An entry is expired once \<open>clock() >= expires_at\<close>; no expiry time never expires.\<close>

definition expired :: "real \<Rightarrow> flt option \<Rightarrow> bool" where
  "expired now e = (case e of None \<Rightarrow> False | Some x \<Rightarrow> flt_le x (Fin now))"

lemma expired_simps [simp]:
  "\<not> expired now None"
  "expired now (Some (Fin x)) \<longleftrightarrow> x \<le> now"
  by (simp_all add: expired_def)

section \<open>The reference model\<close>

text \<open>Entries from the least recently used (index 0) to the most recently used.\<close>

type_synonym ('k, 'v) entry = "'k \<times> 'v \<times> flt option"

record ('k, 'v) ref_cache =
  ref_capacity :: int
  ref_default_ttl :: "flt option"
  ref_entries :: "('k, 'v) entry list"

definition ref_bad_ttl :: "flt option \<Rightarrow> bool" where
  "ref_bad_ttl ttl = (case ttl of None \<Rightarrow> False | Some x \<Rightarrow> flt_le x (Fin 0))"

definition ref_init :: "int \<Rightarrow> flt option \<Rightarrow> pyexc + ('k, 'v) ref_cache" where
  "ref_init cap dflt =
     (if cap < 1 then Inl ValueError
      else if ref_bad_ttl dflt then Inl ValueError
      else Inr \<lparr>ref_capacity = cap, ref_default_ttl = dflt, ref_entries = []\<rparr>)"

fun ref_find_from :: "nat \<Rightarrow> ('k, 'v) entry list \<Rightarrow> 'k \<Rightarrow> nat option" where
  "ref_find_from i [] k = None"
| "ref_find_from i (e # es) k = (if fst e = k then Some i else ref_find_from (Suc i) es k)"

definition ref_find :: "('k, 'v) entry list \<Rightarrow> 'k \<Rightarrow> nat option" where
  "ref_find es k = ref_find_from 0 es k"

text \<open>\<open>del entries[i]\<close>\<close>

definition del_at :: "nat \<Rightarrow> 'a list \<Rightarrow> 'a list" where
  "del_at i xs = take i xs @ drop (Suc i) xs"

definition ref_get :: "('k, 'v) ref_cache \<Rightarrow> 'k \<Rightarrow> 'v option \<Rightarrow> real \<Rightarrow> 'v option \<times> ('k, 'v) ref_cache" where
  "ref_get c k d now = (case ref_find (ref_entries c) k of
      None \<Rightarrow> (d, c)
    | Some i \<Rightarrow>
       (let e = ref_entries c ! i; rest = del_at i (ref_entries c)
        in if expired now (snd (snd e)) then (d, c\<lparr>ref_entries := rest\<rparr>)
           else (Some (fst (snd e)), c\<lparr>ref_entries := rest @ [e]\<rparr>)))"

definition ref_put :: "('k, 'v) ref_cache \<Rightarrow> 'k \<Rightarrow> 'v \<Rightarrow> ttl_arg \<Rightarrow> real \<Rightarrow> pyexc + ('k, 'v) ref_cache" where
  "ref_put c k v ttl now =
     (let t = effective_ttl (ref_default_ttl c) ttl; es = ref_entries c in
      if ref_bad_ttl t then Inl ValueError
      else let e = (k, v, expiry now t) in
        case ref_find es k of
          Some i \<Rightarrow> Inr (c\<lparr>ref_entries := del_at i es @ [e]\<rparr>)
        | None \<Rightarrow> Inr (c\<lparr>ref_entries :=
             (if int (length es) \<ge> ref_capacity c then del_at 0 es else es) @ [e]\<rparr>))"

definition ref_delete :: "('k, 'v) ref_cache \<Rightarrow> 'k \<Rightarrow> bool \<times> ('k, 'v) ref_cache" where
  "ref_delete c k = (case ref_find (ref_entries c) k of
      None \<Rightarrow> (False, c)
    | Some i \<Rightarrow> (True, c\<lparr>ref_entries := del_at i (ref_entries c)\<rparr>))"

definition ref_len :: "('k, 'v) ref_cache \<Rightarrow> nat" where
  "ref_len c = length (ref_entries c)"

definition ref_contains :: "('k, 'v) ref_cache \<Rightarrow> 'k \<Rightarrow> real \<Rightarrow> bool" where
  "ref_contains c k now = (case ref_find (ref_entries c) k of
      None \<Rightarrow> False
    | Some i \<Rightarrow> \<not> expired now (snd (snd (ref_entries c ! i))))"

section \<open>Facts about the reference model\<close>

lemma ref_find_from_shift:
  "ref_find_from i es k = map_option (\<lambda>j. i + j) (ref_find_from 0 es k)"
proof (induction es arbitrary: i)
  case (Cons e es)
  show ?case
    using Cons.IH[of "Suc i"] Cons.IH[of "Suc 0"]
    by (cases "ref_find_from 0 es k") auto
qed simp

lemma ref_find_Nil [simp]: "ref_find [] k = None"
  by (simp add: ref_find_def)

lemma ref_find_Cons:
  "ref_find (e # es) k = (if fst e = k then Some 0 else map_option Suc (ref_find es k))"
  using ref_find_from_shift[of "Suc 0" es k]
  by (cases "ref_find_from 0 es k") (auto simp: ref_find_def)

lemma ref_find_None: "ref_find es k = None \<longleftrightarrow> k \<notin> set (keys es)"
  by (induction es) (auto simp: ref_find_Cons)

lemma ref_find_map_of: "map_option (\<lambda>i. snd (es ! i)) (ref_find es k) = map_of es k"
  by (induction es) (auto simp: ref_find_Cons option.map_comp comp_def)

lemma del_at_0_Cons [simp]: "del_at 0 (e # es) = es"
  by (simp add: del_at_def)

lemma del_at_Suc_Cons [simp]: "del_at (Suc i) (e # es) = e # del_at i es"
  by (simp add: del_at_def)

text \<open>On a dictionary, the linear scan and the positional delete are lookup and delete.\<close>

lemma ref_find_Some:
  assumes "wf_dict es" and "ref_find es k = Some i"
  shows "i < length es" and "fst (es ! i) = k" and "map_of es k = Some (snd (es ! i))"
    and "del_at i es = AList.delete k es"
  using assms
proof (induction es arbitrary: i)
  case (Cons e es)
  { case 1 then show ?case using Cons.IH(1) by (cases e) (auto simp: ref_find_Cons split: if_splits)
  next
    case 2 then show ?case using Cons.IH(2) by (cases e) (auto simp: ref_find_Cons split: if_splits)
  next
    case 3 then show ?case using Cons.IH(3) by (cases e) (auto simp: ref_find_Cons split: if_splits)
  next
    case 4 then show ?case using Cons.IH(4) by (cases e) (auto simp: ref_find_Cons split: if_splits) }
qed simp_all

definition ref_ok :: "('k, 'v) ref_cache \<Rightarrow> bool" where
  "ref_ok c \<longleftrightarrow> 1 \<le> ref_capacity c \<and> wf_dict (ref_entries c)
     \<and> int (length (ref_entries c)) \<le> ref_capacity c
     \<and> validate_ttl (ref_default_ttl c) = Inr ()"

text \<open>The operations of the reference model over the entries as a dictionary.\<close>

lemma ref_get_dict:
  assumes "ref_ok c"
  shows "ref_get c k d now = (case map_of (ref_entries c) k of
      None \<Rightarrow> (d, c)
    | Some (v, e) \<Rightarrow>
        if expired now e then (d, c\<lparr>ref_entries := AList.delete k (ref_entries c)\<rparr>)
        else (Some v, c\<lparr>ref_entries := AList.delete k (ref_entries c) @ [(k, v, e)]\<rparr>))"
proof (cases "ref_find (ref_entries c) k")
  case None
  then show ?thesis
    using ref_find_map_of[of "ref_entries c" k] by (simp add: ref_get_def)
next
  case (Some i)
  have wf: "wf_dict (ref_entries c)" using assms by (simp add: ref_ok_def)
  obtain a v e where e: "ref_entries c ! i = (a, v, e)" by (cases "ref_entries c ! i")
  show ?thesis
    using ref_find_Some(2-4)[OF wf Some] e by (simp add: ref_get_def Some Let_def)
qed

lemma ref_put_dict:
  assumes "ref_ok c"
  shows "ref_put c k v ttl now =
     (let t = effective_ttl (ref_default_ttl c) ttl; es = ref_entries c in
      if ref_bad_ttl t then Inl ValueError
      else if k \<in> set (keys es)
           then Inr (c\<lparr>ref_entries := AList.delete k es @ [(k, v, expiry now t)]\<rparr>)
           else Inr (c\<lparr>ref_entries :=
             (if int (length es) \<ge> ref_capacity c then tl es else es) @ [(k, v, expiry now t)]\<rparr>))"
proof (cases "ref_find (ref_entries c) k")
  case None
  then have "k \<notin> set (keys (ref_entries c))" by (rule ref_find_None[THEN iffD1])
  then show ?thesis by (simp add: ref_put_def None Let_def del_at_def drop_Suc)
next
  case (Some i)
  have wf: "wf_dict (ref_entries c)" using assms by (simp add: ref_ok_def)
  have "k \<in> set (keys (ref_entries c))" using Some ref_find_None[of "ref_entries c" k] by auto
  then show ?thesis using ref_find_Some(4)[OF wf Some] by (simp add: ref_put_def Some Let_def)
qed

lemma ref_delete_dict:
  assumes "ref_ok c"
  shows "ref_delete c k = (if k \<in> set (keys (ref_entries c))
      then (True, c\<lparr>ref_entries := AList.delete k (ref_entries c)\<rparr>) else (False, c))"
proof (cases "ref_find (ref_entries c) k")
  case None
  then have "k \<notin> set (keys (ref_entries c))" by (rule ref_find_None[THEN iffD1])
  then show ?thesis by (simp add: ref_delete_def None)
next
  case (Some i)
  have wf: "wf_dict (ref_entries c)" using assms by (simp add: ref_ok_def)
  have "k \<in> set (keys (ref_entries c))" using Some ref_find_None[of "ref_entries c" k] by auto
  then show ?thesis using ref_find_Some(4)[OF wf Some] by (simp add: ref_delete_def Some)
qed

lemma ref_contains_dict:
  assumes "ref_ok c"
  shows "ref_contains c k now = (case map_of (ref_entries c) k of
      None \<Rightarrow> False | Some (v, e) \<Rightarrow> \<not> expired now e)"
proof (cases "ref_find (ref_entries c) k")
  case None
  then show ?thesis
    using ref_find_map_of[of "ref_entries c" k] by (simp add: ref_contains_def)
next
  case (Some i)
  have wf: "wf_dict (ref_entries c)" using assms by (simp add: ref_ok_def)
  show ?thesis
    using ref_find_Some(3)[OF wf Some]
    by (cases "ref_entries c ! i") (simp add: ref_contains_def Some)
qed

lemma ref_put_entries:
  assumes "ref_ok c" and "ref_put c k v ttl now = Inr c'"
  shows "ref_entries c' =
    (if k \<in> set (keys (ref_entries c)) then AList.delete k (ref_entries c)
     else if int (length (ref_entries c)) = ref_capacity c then tl (ref_entries c)
     else ref_entries c) @ [(k, v, expiry now (effective_ttl (ref_default_ttl c) ttl))]"
proof -
  have "ref_capacity c \<le> int (length (ref_entries c)) \<longleftrightarrow> int (length (ref_entries c)) = ref_capacity c"
    using assms(1) by (auto simp: ref_ok_def)
  with assms(2) show ?thesis
    unfolding ref_put_dict[OF assms(1)] Let_def by (auto split: if_splits)
qed

lemma ref_put_lookup:
  assumes "ref_ok c" and "ref_put c k v ttl now = Inr c'"
  shows "map_of (ref_entries c') k = Some (v, expiry now (effective_ttl (ref_default_ttl c) ttl))"
proof -
  have "k \<notin> set (keys (ref_entries c)) \<Longrightarrow> k \<notin> set (keys (tl (ref_entries c)))"
    by (cases "ref_entries c") auto
  then show ?thesis
    unfolding ref_put_entries[OF assms] by (intro map_of_snoc_fresh) (simp add: delete_notin_dom)
qed

lemmas ref_dict_simps = ref_get_dict ref_put_dict ref_delete_dict ref_contains_dict

section \<open>Sessions of operations\<close>

text \<open>
  A session is a list of method calls with the clock readings they make. \<open>Put\<close> carries two:
  the reading for the new expiry and the one for the victim's expiry check.
\<close>

datatype ('k, 'v) cache_op =
    Get 'k "'v option" real
  | Put 'k 'v ttl_arg real real
  | Delete 'k
  | Len
  | Contains 'k real

datatype 'v cache_out = OVal "'v option" | OUnit | OBool bool | OLen nat | OErr pyexc

fun ref_step :: "('k, 'v) ref_cache \<Rightarrow> ('k, 'v) cache_op \<Rightarrow> 'v cache_out \<times> ('k, 'v) ref_cache" where
  "ref_step c (Get k d now) = map_prod OVal id (ref_get c k d now)"
| "ref_step c (Put k v ttl now now') =
     (case ref_put c k v ttl now of Inl e \<Rightarrow> (OErr e, c) | Inr c' \<Rightarrow> (OUnit, c'))"
| "ref_step c (Delete k) = map_prod OBool id (ref_delete c k)"
| "ref_step c Len = (OLen (ref_len c), c)"
| "ref_step c (Contains k now) = (OBool (ref_contains c k now), c)"

text \<open>
  The model accepts an infinite or NaN ttl, the code refuses it: a session is comparable
  when no \<open>put\<close> passes one.
\<close>

fun op_comparable :: "('k, 'v) cache_op \<Rightarrow> bool" where
  "op_comparable (Put k v (Ttl (Some PosInf)) now now') = False"
| "op_comparable (Put k v (Ttl (Some NaN)) now now') = False"
| "op_comparable x = True"

lemma op_comparable_valid:
  "op_comparable (Put k v ttl now now') \<Longrightarrow> validate_ttl dflt = Inr () \<Longrightarrow>
   (validate_ttl (effective_ttl dflt ttl) = Inl ValueError \<longleftrightarrow> ref_bad_ttl (effective_ttl dflt ttl))"
  by (cases ttl rule: ttl_arg.exhaust)
     (auto simp: effective_ttl_def ref_bad_ttl_def validate_ttl_def
           split: option.splits elim!: flt_isfinite.elims)

lemma length_delete_le_dict: "length (AList.delete k es) \<le> length es"
  by (rule length_delete_le)

lemma ref_ok_step:
  assumes "ref_ok c"
  shows "ref_ok (snd (ref_step c x))"
proof -
  note A = assms[unfolded ref_ok_def]
  have del: "wf_dict (AList.delete k (ref_entries c) @ [(k, w)])" for k w
    using A by (simp add: wf_dict_append keys_delete)
  have shorter: "1 + int (length (AList.delete k (ref_entries c))) \<le> ref_capacity c"
    if "k \<in> set (keys (ref_entries c))" for k
    using A length_delete_wf[of "ref_entries c" k] that by linarith
  have le: "int (length (AList.delete k (ref_entries c))) \<le> ref_capacity c" for k
    using A length_delete_le[of k "ref_entries c"] by linarith
  show ?thesis
  proof (cases x)
    case (Get k d now)
    with A del le shorter[OF map_of_Some_keys] show ?thesis
      by (auto simp: ref_get_dict[OF assms] ref_ok_def split: option.splits)
  next
    case (Put k v ttl now now')
    have tl: "wf_dict (tl (ref_entries c))" using A by (cases "ref_entries c") auto
    have tlk: "k \<notin> set (keys (ref_entries c)) \<Longrightarrow> k \<notin> set (keys (tl (ref_entries c)))"
      by (cases "ref_entries c") auto
    have len: "1 \<le> length (ref_entries c)" if "ref_capacity c \<le> int (length (ref_entries c))"
      using A that by linarith
    from Put A del shorter tl tlk len show ?thesis
      by (auto simp: ref_put_dict[OF assms] ref_ok_def Let_def wf_dict_append split: if_splits)
  next
    case (Delete k)
    with A le show ?thesis by (simp add: ref_delete_dict[OF assms] ref_ok_def)
  qed (use assms in simp_all)
qed

lemma ref_step_capacity:
  "ref_ok c \<Longrightarrow> ref_capacity (snd (ref_step c x)) = ref_capacity c \<and>
     ref_default_ttl (snd (ref_step c x)) = ref_default_ttl c"
  by (cases x) (auto simp: ref_dict_simps Let_def split: option.splits sum.splits if_splits)

section \<open>The contract of a TTL cache\<close>

text \<open>
  What a client of the cache relies on: an invariant every call keeps, and a view of the
  state as a reference model that answers every comparable call in the same way; a \<open>put\<close>
  with an infinite or NaN ttl raises and changes nothing.
\<close>

locale ttl_cache =
  fixes step :: "'s \<Rightarrow> ('k, 'v) cache_op \<Rightarrow> 'v cache_out \<times> 's"
    and inv :: "'s \<Rightarrow> bool"
    and view :: "'s \<Rightarrow> ('k, 'v) ref_cache"
  assumes inv_step: "inv s \<Longrightarrow> inv (snd (step s x))"
    and view_ok: "inv s \<Longrightarrow> ref_ok (view s)"
    and refines: "inv s \<Longrightarrow> op_comparable x \<Longrightarrow> ref_step (view s) x = map_prod id view (step s x)"
    and refuses: "inv s \<Longrightarrow> \<not> op_comparable x \<Longrightarrow> step s x = (OErr ValueError, s)"
begin

lemma view_step: "inv s \<Longrightarrow> op_comparable x \<Longrightarrow> view (snd (step s x)) = snd (ref_step (view s) x)"
  by (simp add: refines)

lemma out_step: "inv s \<Longrightarrow> op_comparable x \<Longrightarrow> fst (step s x) = fst (ref_step (view s) x)"
  by (simp add: refines)

lemma run_inv: "inv s \<Longrightarrow> inv (snd (run_ops step s xs))"
proof (induction xs arbitrary: s)
  case (Cons x xs)
  then show ?case using inv_step[of s x] by (simp add: split_beta)
qed simp

lemma run_refines:
  "inv s \<Longrightarrow> list_all op_comparable xs \<Longrightarrow>
   run_ops ref_step (view s) xs = map_prod id view (run_ops step s xs)"
proof (induction xs arbitrary: s)
  case (Cons x xs)
  then show ?case
    using Cons.IH[OF inv_step[of s x]] refines[of s x] by (simp add: split_beta)
qed simp

text \<open>Any session: the calls that the reference does not model raise and change nothing, the others agree.\<close>

lemma run_all:
  assumes "inv s"
  shows "(\<forall>(x, out) \<in> set (zip xs (fst (run_ops step s xs))). \<not> op_comparable x \<longrightarrow> out = OErr ValueError)
    \<and> run_ops ref_step (view s) (filter op_comparable xs) =
        (map snd (filter (op_comparable \<circ> fst) (zip xs (fst (run_ops step s xs)))), view (snd (run_ops step s xs)))"
  using assms
proof (induction xs arbitrary: s)
  case (Cons x xs)
  obtain r t where st: "step s x = (r, t)" by (cases "step s x")
  then have t: "inv t" using inv_step[OF Cons.prems, of x] by simp
  show ?case
  proof (cases "op_comparable x")
    case True
    have "ref_step (view s) x = (r, view t)" using refines[OF Cons.prems True] st by simp
    then show ?thesis using Cons.IH[OF t] True st by (auto simp: split_beta)
  next
    case False
    then have "r = OErr ValueError" "t = s" using refuses[OF Cons.prems False] st by simp_all
    then show ?thesis using Cons.IH[OF t] False st by (auto simp: split_beta)
  qed
qed simp

lemma run_capacity:
  "inv s \<Longrightarrow> ref_capacity (view (snd (run_ops step s xs))) = ref_capacity (view s)"
proof (induction xs arbitrary: s)
  case (Cons x xs)
  have "ref_capacity (view (snd (step s x))) = ref_capacity (view s)"
    using Cons.prems refuses[of s x] view_step[of s x] ref_step_capacity[OF view_ok, of s x]
    by (cases "op_comparable x") auto
  with Cons show ?case using inv_step[of s x] by (simp add: split_beta)
qed simp

text \<open>No session ever stores more entries than the capacity.\<close>

lemma run_bounded:
  "inv s \<Longrightarrow> int (length (ref_entries (view (snd (run_ops step s xs))))) \<le> ref_capacity (view s)"
  using view_ok[OF run_inv] run_capacity[of s xs] by (metis ref_ok_def)

text \<open>
  A value just stored is returned until its expiry time is reached, and is a miss from
  then on (the boundary itself is a miss).
\<close>

lemma put_then_get:
  assumes "inv s" and "op_comparable (Put k v ttl t t')"
    and ok: "fst (step s (Put k v ttl t t')) = OUnit"
  shows "fst (step (snd (step s (Put k v ttl t t'))) (Get k d now)) =
      OVal (if expired now (expiry t (effective_ttl (ref_default_ttl (view s)) ttl)) then d else Some v)"
proof -
  let ?s = "snd (step s (Put k v ttl t t'))" and ?e = "effective_ttl (ref_default_ttl (view s)) ttl"
  have inv': "inv ?s" by (rule inv_step[OF assms(1)])
  have ref: "ref_ok (view s)" by (rule view_ok[OF assms(1)])
  have put: "ref_put (view s) k v ttl t = Inr (view ?s)"
    using ok out_step[OF assms(1,2)] view_step[OF assms(1,2)]
    by (auto split: sum.splits)
  have "map_of (ref_entries (view ?s)) k = Some (v, expiry t ?e)"
    by (rule ref_put_lookup[OF ref put])
  then show ?thesis
    using out_step[OF inv', of "Get k d now"] ref_get_dict[OF view_ok[OF inv']] by simp
qed

text \<open>
  A new key in a full cache costs exactly the least recently used entry, and nothing else
  moves; in a cache with room it costs nothing.
\<close>

lemma put_fresh:
  assumes "inv s" and "op_comparable (Put k v ttl t t')"
    and ok: "fst (step s (Put k v ttl t t')) = OUnit" and fresh: "k \<notin> set (keys (ref_entries (view s)))"
  shows "ref_entries (view (snd (step s (Put k v ttl t t')))) =
    (if int (length (ref_entries (view s))) = ref_capacity (view s)
     then tl (ref_entries (view s)) else ref_entries (view s))
    @ [(k, v, expiry t (effective_ttl (ref_default_ttl (view s)) ttl))]"
proof -
  have ref: "ref_ok (view s)" by (rule view_ok[OF assms(1)])
  have put: "ref_put (view s) k v ttl t = Inr (view (snd (step s (Put k v ttl t t'))))"
    using ok out_step[OF assms(1,2)] view_step[OF assms(1,2)]
    by (auto split: sum.splits)
  show ?thesis using ref_put_entries[OF ref put] fresh by simp
qed

end

end
