(* ===== verification/Lru_Ordered.thy ===== *)
theory Lru_Ordered
  imports Lru_Model
begin

text \<open>
  The cache built on \<open>collections.OrderedDict\<close>
  (\<open>q1_lru_ttl/lru_ttl/ordered_dict_impl.py\<close>): the dictionary's order is the recency order,
  the least recently used entry first. It is shown to meet the contract \<open>ttl_cache\<close>.
\<close>

record ('k, 'v) od_cache =
  od_capacity :: int
  od_default_ttl :: "flt option"
  od_data :: "('k \<times> 'v \<times> flt option) list"
  od_stats :: cache_stats

definition od_init :: "pycapacity \<Rightarrow> flt option \<Rightarrow> pyexc + ('k, 'v) od_cache" where
  "od_init cap dflt = bindE (validate_capacity cap) (\<lambda>n. bindE (validate_ttl dflt) (\<lambda>_.
     Inr \<lparr>od_capacity = n, od_default_ttl = dflt, od_data = [], od_stats = zero_stats\<rparr>))"

definition move_to_end :: "'k \<Rightarrow> ('k \<times> 'v) list \<Rightarrow> ('k \<times> 'v) list" where
  "move_to_end k d = (case map_of d k of None \<Rightarrow> d | Some v \<Rightarrow> AList.delete k d @ [(k, v)])"

definition od_get :: "('k, 'v) od_cache \<Rightarrow> 'k \<Rightarrow> 'v option \<Rightarrow> real \<Rightarrow> 'v option \<times> ('k, 'v) od_cache" where
  "od_get c k d now = (case map_of (od_data c) k of
      None \<Rightarrow> (d, c\<lparr>od_stats := (od_stats c)\<lparr>misses := misses (od_stats c) + 1\<rparr>\<rparr>)
    | Some (v, e) \<Rightarrow>
        if expired now e
        then (d, c\<lparr>od_data := AList.delete k (od_data c),
                   od_stats := (od_stats c)\<lparr>misses := misses (od_stats c) + 1,
                                           expirations := expirations (od_stats c) + 1\<rparr>\<rparr>)
        else (Some v, c\<lparr>od_data := move_to_end k (od_data c),
                        od_stats := (od_stats c)\<lparr>hits := hits (od_stats c) + 1\<rparr>\<rparr>))"

text \<open>\<open>popitem(last=False)\<close> and the statistics of the eviction; an empty dictionary raises.\<close>

definition od_evict :: "('k, 'v) od_cache \<Rightarrow> real \<Rightarrow> pyexc + ('k, 'v) od_cache" where
  "od_evict c now = (case od_data c of
      [] \<Rightarrow> Inl KeyError
    | (k, v, e) # rest \<Rightarrow> Inr (c\<lparr>od_data := rest, od_stats :=
        (if expired now e then (od_stats c)\<lparr>expirations := expirations (od_stats c) + 1\<rparr>
         else (od_stats c)\<lparr>evictions := evictions (od_stats c) + 1\<rparr>)\<rparr>))"

definition od_put :: "('k, 'v) od_cache \<Rightarrow> 'k \<Rightarrow> 'v \<Rightarrow> ttl_arg \<Rightarrow> real \<Rightarrow> real \<Rightarrow> pyexc + ('k, 'v) od_cache" where
  "od_put c k v ttl now now' =
     (let t = effective_ttl (od_default_ttl c) ttl in
      bindE (validate_ttl t) (\<lambda>_.
        let e = expiry now t in
        if k \<in> set (keys (od_data c))
        then Inr (c\<lparr>od_data := move_to_end k (AList.update k (v, e) (od_data c))\<rparr>)
        else bindE (if int (length (od_data c)) \<ge> od_capacity c then od_evict c now' else Inr c) (\<lambda>c'.
          Inr (c'\<lparr>od_data := AList.update k (v, e) (od_data c')\<rparr>))))"

definition od_delete :: "('k, 'v) od_cache \<Rightarrow> 'k \<Rightarrow> bool \<times> ('k, 'v) od_cache" where
  "od_delete c k = (map_of (od_data c) k \<noteq> None, c\<lparr>od_data := AList.delete k (od_data c)\<rparr>)"

definition od_len :: "('k, 'v) od_cache \<Rightarrow> nat" where
  "od_len c = length (od_data c)"

definition od_contains :: "('k, 'v) od_cache \<Rightarrow> 'k \<Rightarrow> real \<Rightarrow> bool" where
  "od_contains c k now = (case map_of (od_data c) k of None \<Rightarrow> False | Some (v, e) \<Rightarrow> \<not> expired now e)"

fun od_step :: "('k, 'v) od_cache \<Rightarrow> ('k, 'v) cache_op \<Rightarrow> 'v cache_out \<times> ('k, 'v) od_cache" where
  "od_step c (Get k d now) = map_prod OVal id (od_get c k d now)"
| "od_step c (Put k v ttl now now') =
     (case od_put c k v ttl now now' of Inl e \<Rightarrow> (OErr e, c) | Inr c' \<Rightarrow> (OUnit, c'))"
| "od_step c (Delete k) = map_prod OBool id (od_delete c k)"
| "od_step c Len = (OLen (od_len c), c)"
| "od_step c (Contains k now) = (OBool (od_contains c k now), c)"

section \<open>The contract\<close>

definition od_view :: "('k, 'v) od_cache \<Rightarrow> ('k, 'v) ref_cache" where
  "od_view c = \<lparr>ref_capacity = od_capacity c, ref_default_ttl = od_default_ttl c, ref_entries = od_data c\<rparr>"

definition od_inv :: "('k, 'v) od_cache \<Rightarrow> bool" where
  "od_inv c = ref_ok (od_view c)"

lemma od_view_simps [simp]:
  "ref_capacity (od_view c) = od_capacity c"
  "ref_default_ttl (od_view c) = od_default_ttl c"
  "ref_entries (od_view c) = od_data c"
  "od_view (c\<lparr>od_data := d\<rparr>) = (od_view c)\<lparr>ref_entries := d\<rparr>"
  "od_view (c\<lparr>od_stats := st\<rparr>) = od_view c"
  by (simp_all add: od_view_def)

lemma od_invD:
  assumes "od_inv c"
  shows "1 \<le> od_capacity c" and "wf_dict (od_data c)" and "int (length (od_data c)) \<le> od_capacity c"
    and "validate_ttl (od_default_ttl c) = Inr ()"
  using assms by (simp_all add: od_inv_def ref_ok_def)

lemma od_init_inv: "od_init cap dflt = Inr c \<Longrightarrow> od_inv c"
  by (cases cap) (auto simp: od_init_def od_inv_def ref_ok_def bindE_eq_Inr split: if_splits)

lemma move_to_end_update:
  "move_to_end k (AList.update k w d) = AList.delete k d @ [(k, w)]"
  by (simp add: move_to_end_def update_conv' delete_update_same)

lemma od_put_cases:
  assumes "od_inv c" and "validate_ttl (effective_ttl (od_default_ttl c) ttl) = Inr ()"
  shows "\<exists>c'. od_put c k v ttl now now' = Inr c' \<and>
     od_view c' = (od_view c)\<lparr>ref_entries :=
       (if k \<in> set (keys (od_data c)) then AList.delete k (od_data c)
        else if int (length (od_data c)) \<ge> od_capacity c then tl (od_data c) else od_data c)
       @ [(k, v, expiry now (effective_ttl (od_default_ttl c) ttl))]\<rparr>"
proof (cases "k \<in> set (keys (od_data c))")
  case True
  then show ?thesis using assms by (simp add: od_put_def Let_def move_to_end_update od_view_def)
next
  case False
  show ?thesis
  proof (cases "int (length (od_data c)) \<ge> od_capacity c")
    case True
    with od_invD[OF assms(1)] obtain p rest where d: "od_data c = p # rest"
      by (cases "od_data c") auto
    then show ?thesis
      using assms True False
      by (cases p) (auto simp: od_put_def od_evict_def Let_def od_view_def update_fresh)
  next
    case no_room: False
    then show ?thesis
      using assms False by (simp add: od_put_def Let_def od_view_def update_fresh)
  qed
qed

lemma od_put_invalid:
  "validate_ttl (effective_ttl (od_default_ttl c) ttl) = Inl e \<Longrightarrow>
   od_put c k v ttl now now' = Inl ValueError"
  using validate_ttl_error[of _ e] by (auto simp: od_put_def Let_def)

lemma od_refines:
  assumes inv: "od_inv c" and cmp: "op_comparable x"
  shows "ref_step (od_view c) x = map_prod id od_view (od_step c x)"
proof -
  have ok: "ref_ok (od_view c)" using inv by (simp add: od_inv_def)
  show ?thesis
  proof (cases x)
    case (Get k d now)
    then show ?thesis
      by (simp add: ref_get_dict[OF ok] od_get_def move_to_end_def split: option.splits)
  next
    case (Put k v ttl now now')
    show ?thesis
    proof (cases "validate_ttl (effective_ttl (od_default_ttl c) ttl)")
      case (Inl e)
      then have "ref_bad_ttl (effective_ttl (od_default_ttl c) ttl)"
        using cmp Put op_comparable_valid od_invD(4)[OF inv] validate_ttl_Inl by metis
      with Inl Put show ?thesis
        by (simp add: ref_put_dict[OF ok] od_put_invalid)
    next
      case (Inr u)
      then have "\<not> ref_bad_ttl (effective_ttl (od_default_ttl c) ttl)"
        using cmp Put op_comparable_valid[of k v ttl now now' "od_default_ttl c"] od_invD(4)[OF inv] by auto
      moreover obtain c' where "od_put c k v ttl now now' = Inr c'" and "od_view c' =
          (od_view c)\<lparr>ref_entries := (if k \<in> set (keys (od_data c)) then AList.delete k (od_data c)
             else if int (length (od_data c)) \<ge> od_capacity c then tl (od_data c) else od_data c)
             @ [(k, v, expiry now (effective_ttl (od_default_ttl c) ttl))]\<rparr>"
        using od_put_cases[OF inv, of ttl k v now now'] Inr by auto
      ultimately show ?thesis using Put by (simp add: ref_put_dict[OF ok] Let_def)
    qed
  next
    case (Delete k)
    then show ?thesis
      using map_of_eq_None_keys[of "od_data c" k]
      by (auto simp: ref_delete_dict[OF ok] od_delete_def)
  next
    case Len
    then show ?thesis by (simp add: ref_len_def od_len_def)
  next
    case (Contains k now)
    then show ?thesis by (simp add: ref_contains_dict[OF ok] od_contains_def)
  qed
qed

lemma od_refuses:
  assumes "od_inv c" and "\<not> op_comparable x"
  shows "od_step c x = (OErr ValueError, c)"
  using assms(2)
  by (cases x rule: op_comparable.cases) (auto simp: od_put_def effective_ttl_def Let_def)

lemma od_step_inv:
  assumes "od_inv c"
  shows "od_inv (snd (od_step c x))"
proof (cases "op_comparable x")
  case True
  have "od_view (snd (od_step c x)) = snd (ref_step (od_view c) x)"
    by (simp add: od_refines[OF assms True])
  then show ?thesis using ref_ok_step[of "od_view c" x] assms by (simp add: od_inv_def)
next
  case False
  then show ?thesis using od_refuses[OF assms False] assms by simp
qed

interpretation od: ttl_cache od_step od_inv od_view
  by unfold_locales (auto simp: od_step_inv od_refines od_refuses od_inv_def[symmetric])

end
