(* ===== verification/Lru_Dll.thy ===== *)
theory Lru_Dll
  imports Lru_Ordered "HOL-Library.Multiset"
begin

text \<open>
  The hand-written cache (\<open>q1_lru_ttl/lru_ttl/cache.py\<close>, class \<open>LRUTTLCache\<close>): a
  dictionary from keys to nodes and a doubly linked list with two sentinels. The list
  lives in an explicit heap of mutable node objects, so the pointer writes are the
  source's and aliasing is real. The well-formedness of the heap (every assertion of
  the source holds, the list and the dictionary agree) is an invariant, and the cache is
  a functional refinement of the \<open>OrderedDict\<close> cache, statistics included.
\<close>

section \<open>Nodes and pointer operations\<close>

text \<open>A reference is the address of a node object. Sentinels carry no key and no value.\<close>

record ('k, 'v) node =
  nkey :: "'k option"
  nvalue :: "'v option"
  nexpires :: "flt option"
  nprev :: "nat option"
  nnext :: "nat option"

type_synonym ('k, 'v) heap = "nat \<Rightarrow> ('k, 'v) node"

definition new_node :: "'k option \<Rightarrow> 'v option \<Rightarrow> flt option \<Rightarrow> ('k, 'v) node" where
  "new_node k v e = \<lparr>nkey = k, nvalue = v, nexpires = e, nprev = None, nnext = None\<rparr>"

definition set_prev :: "nat \<Rightarrow> nat option \<Rightarrow> ('k, 'v) heap \<Rightarrow> ('k, 'v) heap" where
  "set_prev a x h = h(a := (h a)\<lparr>nprev := x\<rparr>)"

definition set_next :: "nat \<Rightarrow> nat option \<Rightarrow> ('k, 'v) heap \<Rightarrow> ('k, 'v) heap" where
  "set_next a x h = h(a := (h a)\<lparr>nnext := x\<rparr>)"

definition unlink :: "nat \<Rightarrow> ('k, 'v) heap \<Rightarrow> pyexc + ('k, 'v) heap" where
  "unlink a h = (case (nprev (h a), nnext (h a)) of
      (Some p, Some n) \<Rightarrow>
        Inr (set_next a None (set_prev a None (set_prev n (Some p) (set_next p (Some n) h))))
    | _ \<Rightarrow> Inl AssertionError)"

definition push_front :: "nat \<Rightarrow> nat \<Rightarrow> ('k, 'v) heap \<Rightarrow> pyexc + ('k, 'v) heap" where
  "push_front hn a h = (case nnext (h hn) of
      None \<Rightarrow> Inl AssertionError
    | Some first \<Rightarrow>
        Inr (set_prev first (Some a) (set_next hn (Some a)
              (set_next a (Some first) (set_prev a (Some hn) h)))))"

definition move_to_front :: "nat \<Rightarrow> nat \<Rightarrow> ('k, 'v) heap \<Rightarrow> pyexc + ('k, 'v) heap" where
  "move_to_front hn a h = bindE (unlink a h) (push_front hn a)"

section \<open>The cache\<close>

record ('k, 'v) lru_cache =
  lru_capacity :: int
  lru_default_ttl :: "flt option"
  lru_index :: "('k \<times> nat) list"
  lru_heap :: "('k, 'v) heap"
  lru_head :: nat
  lru_tail :: nat
  lru_fresh :: nat   \<comment> \<open>the address of the next object the interpreter allocates\<close>
  lru_stats :: cache_stats

text \<open>An empty cache: the two sentinels point at each other.\<close>

definition lru_empty :: "int \<Rightarrow> ('k, 'v) lru_cache" where
  "lru_empty n = \<lparr>lru_capacity = n, lru_default_ttl = None, lru_index = [],
     lru_heap = set_prev 1 (Some 0) (set_next 0 (Some 1) (\<lambda>_. new_node None None None)),
     lru_head = 0, lru_tail = 1, lru_fresh = 2, lru_stats = zero_stats\<rparr>"

definition lru_init :: "pycapacity \<Rightarrow> flt option \<Rightarrow> pyexc + ('k, 'v) lru_cache" where
  "lru_init cap dflt = bindE (validate_capacity cap) (\<lambda>n. bindE (validate_ttl dflt) (\<lambda>_.
     Inr ((lru_empty n)\<lparr>lru_default_ttl := dflt\<rparr>)))"

definition is_expired :: "('k, 'v) lru_cache \<Rightarrow> nat \<Rightarrow> real \<Rightarrow> bool" where
  "is_expired c a now = expired now (nexpires (lru_heap c a))"

definition remove_node :: "('k, 'v) lru_cache \<Rightarrow> nat \<Rightarrow> pyexc + ('k, 'v) lru_cache" where
  "remove_node c a = (case nkey (lru_heap c a) of
      None \<Rightarrow> Inl KeyError
    | Some k \<Rightarrow>
        if k \<notin> set (keys (lru_index c)) then Inl KeyError
        else bindE (unlink a (lru_heap c)) (\<lambda>h.
               Inr (c\<lparr>lru_index := AList.delete k (lru_index c), lru_heap := h\<rparr>)))"

definition lru_get ::
  "('k, 'v) lru_cache \<Rightarrow> 'k \<Rightarrow> 'v option \<Rightarrow> real \<Rightarrow> pyexc + 'v option \<times> ('k, 'v) lru_cache" where
  "lru_get c k d now = (case map_of (lru_index c) k of
      None \<Rightarrow> Inr (d, c\<lparr>lru_stats := (lru_stats c)\<lparr>misses := misses (lru_stats c) + 1\<rparr>\<rparr>)
    | Some a \<Rightarrow>
        if is_expired c a now
        then bindE (remove_node c a) (\<lambda>c'. Inr (d, c'\<lparr>lru_stats :=
               (lru_stats c')\<lparr>misses := misses (lru_stats c') + 1,
                              expirations := expirations (lru_stats c') + 1\<rparr>\<rparr>))
        else bindE (move_to_front (lru_head c) a (lru_heap c)) (\<lambda>h. Inr (nvalue (h a),
               c\<lparr>lru_heap := h, lru_stats := (lru_stats c)\<lparr>hits := hits (lru_stats c) + 1\<rparr>\<rparr>)))"

definition evict_one :: "('k, 'v) lru_cache \<Rightarrow> real \<Rightarrow> pyexc + ('k, 'v) lru_cache" where
  "evict_one c now = (case nprev (lru_heap c (lru_tail c)) of
      None \<Rightarrow> Inl AssertionError
    | Some victim \<Rightarrow>
        if victim = lru_head c then Inl AssertionError
        else let exp = is_expired c victim now in
          bindE (remove_node c victim) (\<lambda>c'. Inr (c'\<lparr>lru_stats :=
            (if exp then (lru_stats c')\<lparr>expirations := expirations (lru_stats c') + 1\<rparr>
             else (lru_stats c')\<lparr>evictions := evictions (lru_stats c') + 1\<rparr>)\<rparr>)))"

definition lru_put ::
  "('k, 'v) lru_cache \<Rightarrow> 'k \<Rightarrow> 'v \<Rightarrow> ttl_arg \<Rightarrow> real \<Rightarrow> real \<Rightarrow> pyexc + ('k, 'v) lru_cache" where
  "lru_put c k v ttl now now' =
     (let t = effective_ttl (lru_default_ttl c) ttl in
      bindE (validate_ttl t) (\<lambda>_.
        let e = expiry now t in
        case map_of (lru_index c) k of
          Some a \<Rightarrow>
            bindE (move_to_front (lru_head c) a
                    ((lru_heap c)(a := (lru_heap c a)\<lparr>nvalue := Some v, nexpires := e\<rparr>)))
              (\<lambda>h. Inr (c\<lparr>lru_heap := h\<rparr>))
        | None \<Rightarrow>
            bindE (if int (length (lru_index c)) \<ge> lru_capacity c then evict_one c now' else Inr c) (\<lambda>c'.
              let a = lru_fresh c' in
              bindE (push_front (lru_head c') a
                      ((lru_heap c')(a := new_node (Some k) (Some v) e))) (\<lambda>h.
                Inr (c'\<lparr>lru_index := AList.update k a (lru_index c'),
                         lru_heap := h, lru_fresh := a + 1\<rparr>)))))"

definition lru_delete :: "('k, 'v) lru_cache \<Rightarrow> 'k \<Rightarrow> pyexc + bool \<times> ('k, 'v) lru_cache" where
  "lru_delete c k = (case map_of (lru_index c) k of
      None \<Rightarrow> Inr (False, c)
    | Some a \<Rightarrow> bindE (unlink a (lru_heap c)) (\<lambda>h.
        Inr (True, c\<lparr>lru_index := AList.delete k (lru_index c), lru_heap := h\<rparr>)))"

definition lru_len :: "('k, 'v) lru_cache \<Rightarrow> nat" where
  "lru_len c = length (lru_index c)"

definition lru_contains :: "('k, 'v) lru_cache \<Rightarrow> 'k \<Rightarrow> real \<Rightarrow> bool" where
  "lru_contains c k now = (case map_of (lru_index c) k of
      None \<Rightarrow> False | Some a \<Rightarrow> \<not> is_expired c a now)"

text \<open>
  An exception leaves the session's state as it was: the only one a session can meet is
  the \<open>ValueError\<close> of the ttl check, which comes before any write (shown below).
\<close>

fun lru_step :: "('k, 'v) lru_cache \<Rightarrow> ('k, 'v) cache_op \<Rightarrow> 'v cache_out \<times> ('k, 'v) lru_cache" where
  "lru_step c (Get k d now) = (case lru_get c k d now of Inl e \<Rightarrow> (OErr e, c) | Inr (r, c') \<Rightarrow> (OVal r, c'))"
| "lru_step c (Put k v ttl now now') =
     (case lru_put c k v ttl now now' of Inl e \<Rightarrow> (OErr e, c) | Inr c' \<Rightarrow> (OUnit, c'))"
| "lru_step c (Delete k) = (case lru_delete c k of Inl e \<Rightarrow> (OErr e, c) | Inr (r, c') \<Rightarrow> (OBool r, c'))"
| "lru_step c Len = (OLen (lru_len c), c)"
| "lru_step c (Contains k now) = (OBool (lru_contains c k now), c)"

section \<open>Linked segments of the heap\<close>

fun linked :: "('k, 'v) heap \<Rightarrow> nat list \<Rightarrow> bool" where
  "linked h (a # b # xs) \<longleftrightarrow> nnext (h a) = Some b \<and> nprev (h b) = Some a \<and> linked h (b # xs)"
| "linked h xs \<longleftrightarrow> True"

lemma linked_append:
  "linked h (xs @ a # ys) \<longleftrightarrow> linked h (xs @ [a]) \<and> linked h (a # ys)"
  by (induction h xs rule: linked.induct) (cases ys; auto)+

lemma linked_cong:
  assumes "\<And>b. b \<in> set (butlast zs) \<Longrightarrow> nnext (h' b) = nnext (h b)"
    and "\<And>b. b \<in> set (tl zs) \<Longrightarrow> nprev (h' b) = nprev (h b)"
  shows "linked h' zs \<longleftrightarrow> linked h zs"
  using assms
proof (induction h zs rule: linked.induct)
  case (1 h a b xs)
  have "linked h' (b # xs) \<longleftrightarrow> linked h (b # xs)"
  proof (rule "1.IH")
    show "nnext (h' c) = nnext (h c)" if "c \<in> set (butlast (b # xs))" for c
      using "1.prems"(1)[of c] that by auto
    show "nprev (h' c) = nprev (h c)" if "c \<in> set (tl (b # xs))" for c
      using "1.prems"(2)[of c] that by auto
  qed
  then show ?case using "1.prems"(1)[of a] "1.prems"(2)[of b] by auto
qed simp_all

text \<open>Two heaps that agree on everything but the links.\<close>

definition same_data :: "('k, 'v) heap \<Rightarrow> ('k, 'v) heap \<Rightarrow> bool" where
  "same_data h h' \<longleftrightarrow> (\<forall>a. nkey (h' a) = nkey (h a) \<and> nvalue (h' a) = nvalue (h a)
     \<and> nexpires (h' a) = nexpires (h a))"

lemma same_data_set [simp]:
  "same_data h (set_prev a x h') \<longleftrightarrow> same_data h h'" "same_data h (set_next a x h') \<longleftrightarrow> same_data h h'"
  by (auto simp: same_data_def set_prev_def set_next_def)

lemma same_data_refl [simp]: "same_data h h"
  by (simp add: same_data_def)

lemma same_data_trans: "same_data h h' \<Longrightarrow> same_data h' h'' \<Longrightarrow> same_data h h''"
  by (simp add: same_data_def)

lemma set_links [simp]:
  "nprev (set_prev a x h b) = (if b = a then x else nprev (h b))"
  "nnext (set_prev a x h b) = nnext (h b)"
  "nnext (set_next a x h b) = (if b = a then x else nnext (h b))"
  "nprev (set_next a x h b) = nprev (h b)"
  by (simp_all add: set_prev_def set_next_def)

lemma unlink_linked:
  assumes "linked h (xs @ a # ys)" and "distinct (xs @ a # ys)" and "xs \<noteq> []" and "ys \<noteq> []"
  shows "\<exists>h'. unlink a h = Inr h' \<and> linked h' (xs @ ys) \<and> same_data h h'"
proof -
  obtain xs' p where xs: "xs = xs' @ [p]" using assms(3) by (cases xs rule: rev_cases) auto
  obtain n ys' where ys: "ys = n # ys'" using assms(4) by (cases ys) auto
  have l: "linked h (xs' @ [p])" "linked h [p, a, n]" "linked h (n # ys')"
    using assms(1) linked_append[of h xs' p "a # n # ys'"] linked_append[of h "[p, a]" n ys']
    by (auto simp: xs ys)
  let ?h = "set_next a None (set_prev a None (set_prev n (Some p) (set_next p (Some n) h)))"
  have "linked ?h (xs' @ [p])"
    using l(1) assms(2) by (subst linked_cong[where h = h]) (auto simp: xs ys dest: in_set_butlastD in_set_tlD)
  moreover have "linked ?h (n # ys')"
    using l(3) assms(2) by (subst linked_cong[where h = h]) (auto simp: xs ys dest: in_set_butlastD split: if_splits)
  moreover have "linked ?h [p, n]" using assms(2) by (auto simp: xs ys)
  ultimately have "linked ?h (xs @ ys)"
    using linked_append[of ?h xs' p "n # ys'"] by (auto simp: xs ys)
  moreover have "unlink a h = Inr ?h" using l(2) by (simp add: unlink_def)
  ultimately show ?thesis by simp
qed

lemma push_front_linked:
  assumes "linked h (hn # zs)" and "zs \<noteq> []" and "a \<notin> set (hn # zs)" and "distinct (hn # zs)"
  shows "\<exists>h'. push_front hn a h = Inr h' \<and> linked h' (hn # a # zs) \<and> same_data h h'"
proof -
  obtain f zs' where zs: "zs = f # zs'" using assms(2) by (cases zs) auto
  let ?h = "set_prev f (Some a) (set_next hn (Some a) (set_next a (Some f) (set_prev a (Some hn) h)))"
  have "linked ?h (f # zs')"
    using assms by (subst linked_cong[where h = h]) (auto simp: zs dest: in_set_butlastD split: if_splits)
  then have "linked ?h (hn # a # zs)" using assms by (auto simp: zs)
  moreover have "push_front hn a h = Inr ?h" using assms(1) by (simp add: push_front_def zs)
  ultimately show ?thesis by simp
qed

lemma move_to_front_linked:
  assumes "linked h (hn # bs @ a # cs @ [t])" and "distinct (hn # bs @ a # cs @ [t])"
  shows "\<exists>h'. move_to_front hn a h = Inr h' \<and> linked h' (hn # a # bs @ cs @ [t]) \<and> same_data h h'"
proof -
  obtain h1 where h1: "unlink a h = Inr h1" "linked h1 (hn # bs @ cs @ [t])" "same_data h h1"
    using unlink_linked[of h "hn # bs" a "cs @ [t]"] assms by auto
  obtain h2 where "push_front hn a h1 = Inr h2" "linked h2 (hn # a # bs @ cs @ [t])" "same_data h1 h2"
    using push_front_linked[OF h1(2), of a] assms(2) by auto
  with h1 show ?thesis by (auto simp: move_to_front_def intro: same_data_trans)
qed

section \<open>The invariant and the abstraction\<close>

text \<open>The addresses of the real nodes, most recently used first: follow \<open>next\<close> from the head.\<close>

fun chase :: "('k, 'v) heap \<Rightarrow> nat \<Rightarrow> nat \<Rightarrow> nat \<Rightarrow> nat list" where
  "chase h t 0 a = []"
| "chase h t (Suc n) a = (case nnext (h a) of
      None \<Rightarrow> []
    | Some b \<Rightarrow> if b = t then [] else b # chase h t n b)"

definition lru_addrs :: "('k, 'v) lru_cache \<Rightarrow> nat list" where
  "lru_addrs c = chase (lru_heap c) (lru_tail c) (length (lru_index c)) (lru_head c)"

definition node_entry :: "('k, 'v) heap \<Rightarrow> nat \<Rightarrow> ('k, 'v) entry" where
  "node_entry h a = (the (nkey (h a)), the (nvalue (h a)), nexpires (h a))"

definition index_of :: "('k, 'v) heap \<Rightarrow> nat \<Rightarrow> 'k \<times> nat" where
  "index_of h a = (the (nkey (h a)), a)"

text \<open>
  The heap is well formed with the real nodes \<open>as\<close>: head, \<open>as\<close> and tail are distinct
  objects linked both ways; the dictionary maps exactly the nodes' keys to the nodes; the
  cache is within its capacity.
\<close>

definition lru_wf :: "('k, 'v) lru_cache \<Rightarrow> nat list \<Rightarrow> bool" where
  "lru_wf c as \<longleftrightarrow>
     linked (lru_heap c) (lru_head c # as @ [lru_tail c])
   \<and> distinct (lru_head c # as @ [lru_tail c])
   \<and> (\<forall>a \<in> set (lru_head c # as @ [lru_tail c]). a < lru_fresh c)
   \<and> (\<forall>a \<in> set as. nkey (lru_heap c a) \<noteq> None \<and> nvalue (lru_heap c a) \<noteq> None)
   \<and> wf_dict (lru_index c)
   \<and> mset (lru_index c) = mset (map (index_of (lru_heap c)) as)
   \<and> 1 \<le> lru_capacity c \<and> int (length as) \<le> lru_capacity c
   \<and> validate_ttl (lru_default_ttl c) = Inr ()"

definition lru_inv :: "('k, 'v) lru_cache \<Rightarrow> bool" where
  "lru_inv c \<longleftrightarrow> lru_wf c (lru_addrs c)"

text \<open>The \<open>OrderedDict\<close> cache a heap stands for.\<close>

definition lru_abs :: "('k, 'v) lru_cache \<Rightarrow> ('k, 'v) od_cache" where
  "lru_abs c = \<lparr>od_capacity = lru_capacity c, od_default_ttl = lru_default_ttl c,
     od_data = rev (map (node_entry (lru_heap c)) (lru_addrs c)), od_stats = lru_stats c\<rparr>"

lemma chase_linked:
  "linked h (a # as @ [t]) \<Longrightarrow> t \<notin> set as \<Longrightarrow> length as \<le> n \<Longrightarrow> chase h t n a = as"
proof (induction as arbitrary: a n)
  case Nil
  then show ?case by (cases n) auto
next
  case (Cons b as)
  then obtain m where n: "n = Suc m" by (cases n) auto
  with Cons show ?case by auto
qed

lemma lru_wf_addrs:
  assumes "lru_wf c as"
  shows "lru_addrs c = as"
proof -
  have "length (lru_index c) = length as"
    using assms by (metis length_map lru_wf_def size_mset)
  then show ?thesis
    using assms by (auto simp: lru_addrs_def lru_wf_def intro!: chase_linked)
qed

lemma lru_wf_inv: "lru_wf c as \<Longrightarrow> lru_inv c"
  by (simp add: lru_inv_def lru_wf_addrs)

lemma lru_wf_abs:
  "lru_wf c as \<Longrightarrow> lru_abs c = \<lparr>od_capacity = lru_capacity c, od_default_ttl = lru_default_ttl c,
     od_data = rev (map (node_entry (lru_heap c)) as), od_stats = lru_stats c\<rparr>"
  by (simp add: lru_abs_def lru_wf_addrs)

lemma lru_wfD:
  assumes "lru_wf c as"
  shows "linked (lru_heap c) (lru_head c # as @ [lru_tail c])"
    and "distinct (lru_head c # as @ [lru_tail c])"
    and "\<forall>a \<in> set (lru_head c # as @ [lru_tail c]). a < lru_fresh c"
    and "\<forall>a \<in> set as. nkey (lru_heap c a) \<noteq> None \<and> nvalue (lru_heap c a) \<noteq> None"
    and "wf_dict (lru_index c)"
    and "mset (lru_index c) = mset (map (index_of (lru_heap c)) as)"
    and "1 \<le> lru_capacity c" and "int (length as) \<le> lru_capacity c"
    and "validate_ttl (lru_default_ttl c) = Inr ()"
  using assms unfolding lru_wf_def by blast+

lemma lru_wf_length: "lru_wf c as \<Longrightarrow> length (lru_index c) = length as"
  by (metis length_map lru_wfD(6) size_mset)

lemma same_data_maps:
  assumes "same_data h h'"
  shows "map (node_entry h') as = map (node_entry h) as" and "map (index_of h') as = map (index_of h) as"
  using assms by (auto simp: same_data_def node_entry_def index_of_def)

lemma mset_delete:
  "wf_dict d \<Longrightarrow> map_of d k = Some v \<Longrightarrow> mset d = add_mset (k, v) (mset (AList.delete k d))"
  by (induction d) (auto split: if_splits)

text \<open>What a dictionary hit means in the heap.\<close>

lemma lru_wf_index_set: "lru_wf c as \<Longrightarrow> set (lru_index c) = set (map (index_of (lru_heap c)) as)"
  using lru_wfD(6)[of c as] by (metis set_mset_mset)

lemma index_hit_at:
  assumes wf: "lru_wf c (bs @ a # cs)" and hit: "map_of (lru_index c) k = Some a"
  shows "nkey (lru_heap c a) = Some k"
    and "k \<notin> set (keys (map (node_entry (lru_heap c)) (bs @ cs)))"
    and "mset (AList.delete k (lru_index c)) = mset (map (index_of (lru_heap c)) (bs @ cs))"
proof -
  note W = lru_wfD[OF wf]
  have "(k, a) \<in> set (lru_index c)" using hit by (rule map_of_SomeD)
  then have k: "the (nkey (lru_heap c a)) = k"
    using W(2) unfolding lru_wf_index_set[OF wf] by (auto simp: index_of_def)
  then show "nkey (lru_heap c a) = Some k" using W(4) by auto
  have ix: "index_of (lru_heap c) a = (k, a)" using k by (simp add: index_of_def)
  have "add_mset (k, a) (mset (AList.delete k (lru_index c))) =
        add_mset (k, a) (mset (map (index_of (lru_heap c)) (bs @ cs)))"
    using W(6) mset_delete[OF W(5) hit] by (simp add: ix)
  then show del: "mset (AList.delete k (lru_index c)) = mset (map (index_of (lru_heap c)) (bs @ cs))"
    by simp
  have "k \<notin> fst ` set (AList.delete k (lru_index c))" by (rule delete_notin_dom)
  moreover have "set (AList.delete k (lru_index c)) = set (map (index_of (lru_heap c)) (bs @ cs))"
    using del by (metis set_mset_mset)
  ultimately show "k \<notin> set (keys (map (node_entry (lru_heap c)) (bs @ cs)))"
    by (auto simp: index_of_def node_entry_def image_image image_Un)
qed

lemma index_hit:
  assumes wf: "lru_wf c as" and hit: "map_of (lru_index c) k = Some a"
  obtains bs cs where "as = bs @ a # cs" and "nkey (lru_heap c a) = Some k"
    and "k \<notin> set (keys (map (node_entry (lru_heap c)) (bs @ cs)))"
    and "mset (AList.delete k (lru_index c)) = mset (map (index_of (lru_heap c)) (bs @ cs))"
proof -
  have "(k, a) \<in> set (lru_index c)" using hit by (rule map_of_SomeD)
  then have "a \<in> set as" unfolding lru_wf_index_set[OF wf] by (auto simp: index_of_def)
  then obtain bs cs where as: "as = bs @ a # cs" by (meson split_list)
  show ?thesis using that[OF as] index_hit_at[OF wf[unfolded as] hit] by blast
qed

lemma index_miss:
  assumes "lru_wf c as" and "map_of (lru_index c) k = None"
  shows "k \<notin> set (keys (map (node_entry (lru_heap c)) as))"
proof -
  have "k \<notin> fst ` set_mset (mset (lru_index c))"
    using assms(2) by (simp add: map_of_eq_None_iff)
  then show ?thesis
    by (auto simp: lru_wfD(6)[OF assms(1)] index_of_def node_entry_def image_image)
qed

lemma map_of_hit:
  "k \<notin> set (keys d) \<Longrightarrow> k \<notin> set (keys e) \<Longrightarrow> map_of (d @ (k, w) # e) k = Some w"
  by (induction d) auto

section \<open>Every operation keeps the heap well formed and refines its dictionary counterpart\<close>

lemma lru_wf_stats [simp]: "lru_wf (c\<lparr>lru_stats := st\<rparr>) as = lru_wf c as"
  by (simp add: lru_wf_def)

lemma lru_wf_relink:
  assumes "lru_wf c as" and "same_data (lru_heap c) h'"
    and "linked h' (lru_head c # as' @ [lru_tail c])" and "mset as' = mset as"
  shows "lru_wf (c\<lparr>lru_heap := h'\<rparr>) as'"
proof -
  note W = lru_wfD[OF assms(1)]
  have set: "set as' = set as" and len: "length as' = length as"
    using assms(4) by (metis set_mset_mset, metis size_mset)
  have "distinct as'" using W(2) assms(4) mset_eq_imp_distinct_iff by auto
  then have "distinct (lru_head c # as' @ [lru_tail c])" using W(2) set by auto
  moreover have "mset (lru_index c) = mset (map (index_of h') as')"
    using W(6) assms(4) by (simp add: same_data_maps(2)[OF assms(2)])
  moreover have "\<forall>a \<in> set as'. nkey (h' a) \<noteq> None \<and> nvalue (h' a) \<noteq> None"
    using W(4) assms(2) by (simp add: set same_data_def)
  ultimately show ?thesis using W assms(3) by (simp add: lru_wf_def set len)
qed

lemma lru_wf_remove:
  assumes "lru_wf c (bs @ a # cs)" and "same_data (lru_heap c) h'"
    and "linked h' (lru_head c # (bs @ cs) @ [lru_tail c])"
    and "mset (AList.delete k (lru_index c)) = mset (map (index_of (lru_heap c)) (bs @ cs))"
  shows "lru_wf (c\<lparr>lru_index := AList.delete k (lru_index c), lru_heap := h'\<rparr>) (bs @ cs)"
proof -
  note W = lru_wfD[OF assms(1)]
  have "\<forall>a \<in> set (bs @ cs). nkey (h' a) \<noteq> None \<and> nvalue (h' a) \<noteq> None"
    using W(4) assms(2) by (auto simp: same_data_def)
  moreover have "mset (AList.delete k (lru_index c)) = mset (map (index_of h') (bs @ cs))"
    using assms(4) by (simp add: same_data_maps(2)[OF assms(2)] del: map_append)
  ultimately show ?thesis
    using W assms(3) by (auto simp: lru_wf_def)
qed

lemma remove_node_wf:
  assumes "lru_wf c (bs @ a # cs)" and "nkey (lru_heap c a) = Some k"
    and "map_of (lru_index c) k = Some a"
    and "mset (AList.delete k (lru_index c)) = mset (map (index_of (lru_heap c)) (bs @ cs))"
  obtains h' where "remove_node c a = Inr (c\<lparr>lru_index := AList.delete k (lru_index c), lru_heap := h'\<rparr>)"
    and "unlink a (lru_heap c) = Inr h'" and "same_data (lru_heap c) h'"
    and "lru_wf (c\<lparr>lru_index := AList.delete k (lru_index c), lru_heap := h'\<rparr>) (bs @ cs)"
proof -
  obtain h' where h': "unlink a (lru_heap c) = Inr h'"
      "linked h' (lru_head c # (bs @ cs) @ [lru_tail c])" "same_data (lru_heap c) h'"
    using unlink_linked[of "lru_heap c" "lru_head c # bs" a "cs @ [lru_tail c]"] lru_wfD(1,2)[OF assms(1)]
    by auto
  have "remove_node c a = Inr (c\<lparr>lru_index := AList.delete k (lru_index c), lru_heap := h'\<rparr>)"
    using assms(2) h'(1) map_of_Some_keys[OF assms(3)] by (simp add: remove_node_def)
  with h' that lru_wf_remove[OF assms(1) h'(3,2) assms(4)] show ?thesis by blast
qed

text \<open>The abstraction after a removal and after a move to the front.\<close>

lemma abs_data_delete:
  assumes "same_data h h'" and "nkey (h a) = Some k"
    and "k \<notin> set (keys (map (node_entry h) (bs @ cs)))"
  shows "rev (map (node_entry h') (bs @ cs)) = AList.delete k (rev (map (node_entry h) (bs @ a # cs)))"
proof -
  have "node_entry h a = (k, the (nvalue (h a)), nexpires (h a))"
    using assms(2) by (simp add: node_entry_def)
  then show ?thesis
    using assms(3) by (simp add: same_data_maps[OF assms(1)] delete_append delete_fresh image_image)
qed

lemma lru_abs_simps [simp]:
  "od_capacity (lru_abs c) = lru_capacity c"
  "od_default_ttl (lru_abs c) = lru_default_ttl c"
  "od_stats (lru_abs c) = lru_stats c"
  "lru_abs (c\<lparr>lru_stats := st\<rparr>) = (lru_abs c)\<lparr>od_stats := st\<rparr>"
  by (simp_all add: lru_abs_def lru_addrs_def)

lemma lru_abs_data: "lru_wf c as \<Longrightarrow> od_data (lru_abs c) = rev (map (node_entry (lru_heap c)) as)"
  by (simp add: lru_wf_abs)

lemma lru_abs_eqI:
  "lru_capacity c' = lru_capacity c \<Longrightarrow> lru_default_ttl c' = lru_default_ttl c \<Longrightarrow>
   lru_stats c' = lru_stats c \<Longrightarrow> od_data (lru_abs c') = d \<Longrightarrow> lru_abs c' = (lru_abs c)\<lparr>od_data := d\<rparr>"
  by (simp add: lru_abs_def)

lemma hit_lookup:
  assumes wf: "lru_wf c as" and hit: "map_of (lru_index c) k = Some a"
  obtains v where "nvalue (lru_heap c a) = Some v"
    and "map_of (od_data (lru_abs c)) k = Some (v, nexpires (lru_heap c a))"
proof -
  obtain bs cs where as: "as = bs @ a # cs" and key: "nkey (lru_heap c a) = Some k"
    and fresh: "k \<notin> set (keys (map (node_entry (lru_heap c)) (bs @ cs)))"
    using index_hit[OF wf hit] by blast
  obtain v where v: "nvalue (lru_heap c a) = Some v" using lru_wfD(4)[OF wf] as by auto
  have "node_entry (lru_heap c) a = (k, v, nexpires (lru_heap c a))" using key v by (simp add: node_entry_def)
  moreover have "map_of (rev (map (node_entry (lru_heap c)) cs) @ (k, w) # rev (map (node_entry (lru_heap c)) bs)) k = Some w" for w
    using fresh by (intro map_of_hit) auto
  ultimately show ?thesis using that v by (simp add: lru_abs_data[OF wf] as)
qed

lemma miss_lookup:
  "lru_wf c as \<Longrightarrow> map_of (lru_index c) k = None \<Longrightarrow> map_of (od_data (lru_abs c)) k = None"
  using index_miss[of c as k] by (simp add: lru_abs_data map_of_eq_None_iff image_image)

text \<open>Unlinking the node of a key and dropping the key deletes it from the dictionary.\<close>

lemma remove_refines:
  assumes wf: "lru_wf c as" and hit: "map_of (lru_index c) k = Some a"
  obtains h' where "unlink a (lru_heap c) = Inr h'" and "nkey (lru_heap c a) = Some k"
    and "lru_wf (c\<lparr>lru_index := AList.delete k (lru_index c), lru_heap := h'\<rparr>) (remove1 a as)"
    and "lru_abs (c\<lparr>lru_index := AList.delete k (lru_index c), lru_heap := h'\<rparr>) =
       (lru_abs c)\<lparr>od_data := AList.delete k (od_data (lru_abs c))\<rparr>"
proof -
  obtain bs cs where as: "as = bs @ a # cs" and key: "nkey (lru_heap c a) = Some k"
    and fresh: "k \<notin> set (keys (map (node_entry (lru_heap c)) (bs @ cs)))"
    and ms: "mset (AList.delete k (lru_index c)) = mset (map (index_of (lru_heap c)) (bs @ cs))"
    using index_hit[OF wf hit] by blast
  obtain h' where h': "unlink a (lru_heap c) = Inr h'" "same_data (lru_heap c) h'"
    and wf2: "lru_wf (c\<lparr>lru_index := AList.delete k (lru_index c), lru_heap := h'\<rparr>) (bs @ cs)"
    using remove_node_wf[OF wf[unfolded as] key hit ms] by blast
  have "lru_abs (c\<lparr>lru_index := AList.delete k (lru_index c), lru_heap := h'\<rparr>) =
      (lru_abs c)\<lparr>od_data := AList.delete k (od_data (lru_abs c))\<rparr>"
    using lru_abs_data[OF wf2] abs_data_delete[OF h'(2) key fresh]
    by (intro lru_abs_eqI) (simp_all add: lru_abs_data[OF wf] as del: map_append rev_append)
  moreover have "remove1 a as = bs @ cs" using lru_wfD(2)[OF wf] by (simp add: as remove1_append)
  ultimately show ?thesis using that[OF h'(1) key] wf2 by simp
qed

lemma remove_node_refines:
  assumes wf: "lru_wf c as" and hit: "map_of (lru_index c) k = Some a"
  obtains c' where "remove_node c a = Inr c'" and "lru_wf c' (remove1 a as)"
    and "lru_abs c' = (lru_abs c)\<lparr>od_data := AList.delete k (od_data (lru_abs c))\<rparr>"
    and "lru_stats c' = lru_stats c" and "lru_index c' = AList.delete k (lru_index c)"
    and "lru_capacity c' = lru_capacity c"
proof -
  obtain h' where h': "unlink a (lru_heap c) = Inr h'" "nkey (lru_heap c a) = Some k"
    "lru_wf (c\<lparr>lru_index := AList.delete k (lru_index c), lru_heap := h'\<rparr>) (remove1 a as)"
    "lru_abs (c\<lparr>lru_index := AList.delete k (lru_index c), lru_heap := h'\<rparr>) =
       (lru_abs c)\<lparr>od_data := AList.delete k (od_data (lru_abs c))\<rparr>"
    using remove_refines[OF wf hit] by blast
  have "remove_node c a = Inr (c\<lparr>lru_index := AList.delete k (lru_index c), lru_heap := h'\<rparr>)"
    using h'(1,2) map_of_Some_keys[OF hit] by (simp add: remove_node_def)
  from that[OF this h'(3,4)] show ?thesis by simp
qed

text \<open>Moving a node to the front moves its key to the end of the dictionary.\<close>

lemma touch_refines:
  assumes wf: "lru_wf c as" and hit: "map_of (lru_index c) k = Some a"
  obtains h' as' where "move_to_front (lru_head c) a (lru_heap c) = Inr h'"
    and "lru_wf (c\<lparr>lru_heap := h'\<rparr>) as'" and "same_data (lru_heap c) h'"
    and "lru_abs (c\<lparr>lru_heap := h'\<rparr>) = (lru_abs c)\<lparr>od_data := move_to_end k (od_data (lru_abs c))\<rparr>"
proof -
  obtain bs cs where as: "as = bs @ a # cs" and key: "nkey (lru_heap c a) = Some k"
    and fresh: "k \<notin> set (keys (map (node_entry (lru_heap c)) (bs @ cs)))"
    using index_hit[OF wf hit] by blast
  note wf' = wf[unfolded as]
  obtain h' where h': "move_to_front (lru_head c) a (lru_heap c) = Inr h'"
    "linked h' (lru_head c # (a # bs @ cs) @ [lru_tail c])" "same_data (lru_heap c) h'"
    using move_to_front_linked[of "lru_heap c" "lru_head c" bs a cs "lru_tail c"] lru_wfD(1,2)[OF wf'] by auto
  have wf2: "lru_wf (c\<lparr>lru_heap := h'\<rparr>) (a # bs @ cs)" using lru_wf_relink[OF wf' h'(3,2)] by simp
  obtain v where v: "nvalue (lru_heap c a) = Some v"
    "map_of (od_data (lru_abs c)) k = Some (v, nexpires (lru_heap c a))"
    using hit_lookup[OF wf hit] by blast
  have "node_entry h' a = (k, v, nexpires (lru_heap c a))"
    using key v h'(3) by (simp add: node_entry_def same_data_def)
  then have "lru_abs (c\<lparr>lru_heap := h'\<rparr>) = (lru_abs c)\<lparr>od_data := move_to_end k (od_data (lru_abs c))\<rparr>"
    using lru_abs_data[OF wf2] abs_data_delete[OF h'(3) key fresh] v(2)
    by (intro lru_abs_eqI) (simp_all add: move_to_end_def lru_abs_data[OF wf] as del: map_append rev_append)
  with that[OF h'(1) wf2 h'(3)] show ?thesis .
qed

lemma lru_get_refines:
  assumes wf: "lru_wf c as"
  shows "\<exists>r c' as'. lru_get c k d now = Inr (r, c') \<and> lru_wf c' as'
    \<and> od_get (lru_abs c) k d now = (r, lru_abs c')"
proof (cases "map_of (lru_index c) k")
  case None
  with wf show ?thesis by (auto simp: lru_get_def od_get_def miss_lookup[OF wf None])
next
  case (Some a)
  obtain v where v: "nvalue (lru_heap c a) = Some v"
    "map_of (od_data (lru_abs c)) k = Some (v, nexpires (lru_heap c a))"
    using hit_lookup[OF wf Some] by blast
  show ?thesis
  proof (cases "expired now (nexpires (lru_heap c a))")
    case True
    obtain c' where "remove_node c a = Inr c'" "lru_wf c' (remove1 a as)" "lru_stats c' = lru_stats c"
      "lru_abs c' = (lru_abs c)\<lparr>od_data := AList.delete k (od_data (lru_abs c))\<rparr>"
      using remove_node_refines[OF wf Some] by blast
    with Some True v show ?thesis by (auto simp: lru_get_def is_expired_def od_get_def)
  next
    case False
    obtain h' as' where h': "move_to_front (lru_head c) a (lru_heap c) = Inr h'"
      "lru_wf (c\<lparr>lru_heap := h'\<rparr>) as'" "same_data (lru_heap c) h'"
      "lru_abs (c\<lparr>lru_heap := h'\<rparr>) = (lru_abs c)\<lparr>od_data := move_to_end k (od_data (lru_abs c))\<rparr>"
      using touch_refines[OF wf Some] by blast
    then have "nvalue (h' a) = Some v" using v(1) by (simp add: same_data_def)
    with Some False v h' show ?thesis by (auto simp: lru_get_def is_expired_def od_get_def)
  qed
qed

lemma lru_delete_refines:
  assumes wf: "lru_wf c as"
  shows "\<exists>r c' as'. lru_delete c k = Inr (r, c') \<and> lru_wf c' as' \<and> od_delete (lru_abs c) k = (r, lru_abs c')"
proof (cases "map_of (lru_index c) k")
  case None
  have "AList.delete k (od_data (lru_abs c)) = od_data (lru_abs c)"
    using miss_lookup[OF wf None] by (simp add: map_of_eq_None_iff)
  with None wf show ?thesis by (auto simp: lru_delete_def od_delete_def miss_lookup[OF wf None])
next
  case (Some a)
  obtain h' where "unlink a (lru_heap c) = Inr h'"
    "lru_wf (c\<lparr>lru_index := AList.delete k (lru_index c), lru_heap := h'\<rparr>) (remove1 a as)"
    "lru_abs (c\<lparr>lru_index := AList.delete k (lru_index c), lru_heap := h'\<rparr>) =
       (lru_abs c)\<lparr>od_data := AList.delete k (od_data (lru_abs c))\<rparr>"
    using remove_refines[OF wf Some] by blast
  moreover obtain v where "map_of (od_data (lru_abs c)) k = Some (v, nexpires (lru_heap c a))"
    using hit_lookup[OF wf Some] by blast
  ultimately show ?thesis using Some by (auto simp: lru_delete_def od_delete_def)
qed

lemma lru_contains_refines: "lru_wf c as \<Longrightarrow> od_contains (lru_abs c) k now = lru_contains c k now"
proof (cases "map_of (lru_index c) k")
  case None
  assume "lru_wf c as"
  then show ?thesis by (simp add: lru_contains_def od_contains_def None miss_lookup)
next
  case (Some a)
  assume "lru_wf c as"
  then obtain v where "map_of (od_data (lru_abs c)) k = Some (v, nexpires (lru_heap c a))"
    using hit_lookup[OF _ Some] by blast
  then show ?thesis by (simp add: lru_contains_def od_contains_def Some is_expired_def)
qed

lemma lru_len_refines: "lru_wf c as \<Longrightarrow> od_len (lru_abs c) = lru_len c"
  by (simp add: od_len_def lru_len_def lru_abs_data lru_wf_length)

lemma hit_member: "map_of (od_data (lru_abs c)) k \<noteq> None \<longleftrightarrow> k \<in> set (keys (od_data (lru_abs c)))"
  by (auto simp: map_of_eq_None_iff)

text \<open>Overwriting a node's value and expiry updates its key in place.\<close>

lemma update_in_place:
  "k \<notin> set (keys d) \<Longrightarrow> AList.update k w (d @ (k, u) # e) = d @ (k, w) # e"
  by (induction d) auto

lemma write_refines:
  assumes wf: "lru_wf c as" and hit: "map_of (lru_index c) k = Some a"
    and c': "c' = c\<lparr>lru_heap := (lru_heap c)(a := (lru_heap c a)\<lparr>nvalue := Some v, nexpires := e\<rparr>)\<rparr>"
  shows "lru_wf c' as" and "lru_abs c' = (lru_abs c)\<lparr>od_data := AList.update k (v, e) (od_data (lru_abs c))\<rparr>"
proof -
  obtain bs cs where as: "as = bs @ a # cs" and key: "nkey (lru_heap c a) = Some k"
    and fresh: "k \<notin> set (keys (map (node_entry (lru_heap c)) (bs @ cs)))"
    using index_hit[OF wf hit] by blast
  note W = lru_wfD[OF wf]
  have links: "linked (lru_heap c') zs = linked (lru_heap c) zs" for zs
    by (rule linked_cong) (auto simp: c')
  have idx: "map (index_of (lru_heap c')) as = map (index_of (lru_heap c)) as"
    by (auto simp: c' index_of_def)
  show wf': "lru_wf c' as"
    unfolding lru_wf_def
  proof (intro conjI)
    show "mset (lru_index c') = mset (map (index_of (lru_heap c')) as)"
      unfolding idx using W(6) by (simp add: c')
    show "linked (lru_heap c') (lru_head c' # as @ [lru_tail c'])"
      unfolding links using W(1) by (simp add: c')
  qed (use W in \<open>auto simp: c'\<close>)
  have other: "map (node_entry (lru_heap c')) xs = map (node_entry (lru_heap c)) xs" if "a \<notin> set xs" for xs
    using that by (auto simp: c' node_entry_def)
  have "a \<notin> set bs" "a \<notin> set cs" using W(2) by (auto simp: as)
  moreover have "node_entry (lru_heap c') a = (k, v, e)" using key by (simp add: c' node_entry_def)
  moreover have "node_entry (lru_heap c) a = (k, the (nvalue (lru_heap c a)), nexpires (lru_heap c a))"
    using key by (simp add: node_entry_def)
  ultimately have "od_data (lru_abs c') = AList.update k (v, e) (od_data (lru_abs c))"
    using fresh by (simp add: lru_abs_data[OF wf] lru_abs_data[OF wf'] as other update_in_place image_image)
  then show "lru_abs c' = (lru_abs c)\<lparr>od_data := AList.update k (v, e) (od_data (lru_abs c))\<rparr>"
    by (intro lru_abs_eqI) (simp_all add: c')
qed

text \<open>A new node at the front appends its key.\<close>

lemma insert_refines:
  assumes wf: "lru_wf c as" and miss: "map_of (lru_index c) k = None" and room: "int (length as) < lru_capacity c"
  shows "\<exists>h'. push_front (lru_head c) (lru_fresh c) ((lru_heap c)(lru_fresh c := new_node (Some k) (Some v) e)) = Inr h'
    \<and> lru_wf (c\<lparr>lru_index := AList.update k (lru_fresh c) (lru_index c), lru_heap := h', lru_fresh := lru_fresh c + 1\<rparr>)
         (lru_fresh c # as)
    \<and> lru_abs (c\<lparr>lru_index := AList.update k (lru_fresh c) (lru_index c), lru_heap := h', lru_fresh := lru_fresh c + 1\<rparr>)
         = (lru_abs c)\<lparr>od_data := AList.update k (v, e) (od_data (lru_abs c))\<rparr>"
proof -
  note W = lru_wfD[OF wf]
  let ?a = "lru_fresh c" let ?h = "(lru_heap c)(?a := new_node (Some k) (Some v) e)"
  have new: "?a \<notin> set (lru_head c # as @ [lru_tail c])" using W(3) by auto
  have "linked ?h (lru_head c # as @ [lru_tail c])"
    using W(1) new by (subst linked_cong[where h = "lru_heap c"]) (auto dest: in_set_butlastD)
  then obtain h' where h': "push_front (lru_head c) ?a ?h = Inr h'"
    "linked h' (lru_head c # ?a # as @ [lru_tail c])" "same_data ?h h'"
    using push_front_linked[of ?h "lru_head c" "as @ [lru_tail c]" ?a] new W(2) by auto
  let ?c = "c\<lparr>lru_index := AList.update k ?a (lru_index c), lru_heap := h', lru_fresh := ?a + 1\<rparr>"
  have upd: "AList.update k ?a (lru_index c) = lru_index c @ [(k, ?a)]"
    using miss by (simp add: update_fresh map_of_eq_None_iff)
  have old: "map (index_of h') as = map (index_of (lru_heap c)) as"
    "map (node_entry h') as = map (node_entry (lru_heap c)) as"
    using new by (auto simp: same_data_maps[OF h'(3)] index_of_def node_entry_def)
  have at: "index_of h' ?a = (k, ?a)" "node_entry h' ?a = (k, v, e)" "nkey (h' ?a) = Some k" "nvalue (h' ?a) = Some v"
    using h'(3) by (simp_all add: same_data_def index_of_def node_entry_def new_node_def)
  have wf2: "lru_wf ?c (?a # as)"
    unfolding lru_wf_def
  proof (intro conjI)
    show "\<forall>b \<in> set (?a # as). nkey (lru_heap ?c b) \<noteq> None \<and> nvalue (lru_heap ?c b) \<noteq> None"
      using W(4) h'(3) new at by (auto simp: same_data_def)
    show "mset (lru_index ?c) = mset (map (index_of (lru_heap ?c)) (?a # as))"
      using W(6) by (simp add: upd old at)
    show "wf_dict (lru_index ?c)" using W(5) by simp
    show "\<forall>b \<in> set (lru_head ?c # (?a # as) @ [lru_tail ?c]). b < lru_fresh ?c" using W(3) by force
  qed (use W h' new room in auto)
  have "od_data (lru_abs ?c) = AList.update k (v, e) (od_data (lru_abs c))"
    using miss_lookup[OF wf miss]
    unfolding lru_abs_data[OF wf] lru_abs_data[OF wf2] map_of_eq_None_iff
    by (subst update_fresh) (simp_all add: old at)
  then have "lru_abs ?c = (lru_abs c)\<lparr>od_data := AList.update k (v, e) (od_data (lru_abs c))\<rparr>"
    by (intro lru_abs_eqI) simp_all
  with h'(1) wf2 show ?thesis by blast
qed

lemma linked_last: "linked h (xs @ [a, b]) \<Longrightarrow> nprev (h b) = Some a"
  using linked_append[of h xs a "[b]"] by simp

lemma evict_refines:
  assumes wf: "lru_wf c as" and ne: "as \<noteq> []" and miss: "map_of (lru_index c) k = None"
  obtains c' where "evict_one c now = Inr c'" and "lru_wf c' (butlast as)"
    and "od_evict (lru_abs c) now = Inr (lru_abs c')" and "map_of (lru_index c') k = None"
    and "lru_capacity c' = lru_capacity c"
proof -
  note W = lru_wfD[OF wf]
  obtain bs a where as: "as = bs @ [a]" using ne by (cases as rule: rev_cases) auto
  obtain k' where k': "nkey (lru_heap c a) = Some k'" using W(4) by (auto simp: as)
  obtain v' where v': "nvalue (lru_heap c a) = Some v'" using W(4) by (auto simp: as)
  have "(k', a) \<in> set (lru_index c)"
    using k' unfolding lru_wf_index_set[OF wf] by (simp add: as index_of_def)
  then have hit: "map_of (lru_index c) k' = Some a" using W(5) by (simp add: wf_dict_map_of_in)
  obtain c' where c': "remove_node c a = Inr c'" "lru_wf c' (remove1 a as)" "lru_stats c' = lru_stats c"
      "lru_abs c' = (lru_abs c)\<lparr>od_data := AList.delete k' (od_data (lru_abs c))\<rparr>"
      "lru_index c' = AList.delete k' (lru_index c)" "lru_capacity c' = lru_capacity c"
    using remove_node_refines[OF wf hit] by blast
  have a: "nprev (lru_heap c (lru_tail c)) = Some a" "a \<noteq> lru_head c"
    using W(1,2) linked_last[of "lru_heap c" "lru_head c # bs" a "lru_tail c"] by (auto simp: as)
  have data: "od_data (lru_abs c) = (k', v', nexpires (lru_heap c a)) # rev (map (node_entry (lru_heap c)) bs)"
    using k' v' by (simp add: lru_abs_data[OF wf] as node_entry_def)
  have "k' \<notin> set (keys (map (node_entry (lru_heap c)) bs))"
    using index_hit_at(2)[of c bs a "[]"] wf hit as by simp
  then have rest: "AList.delete k' (od_data (lru_abs c)) = rev (map (node_entry (lru_heap c)) bs)"
    unfolding data by (simp add: delete_fresh image_image)
  have bl: "remove1 a as = butlast as" using W(2) by (simp add: as remove1_append)
  let ?st = "if is_expired c a now then (lru_stats c')\<lparr>expirations := expirations (lru_stats c') + 1\<rparr>
             else (lru_stats c')\<lparr>evictions := evictions (lru_stats c') + 1\<rparr>"
  show ?thesis
  proof (rule that)
    show "evict_one c now = Inr (c'\<lparr>lru_stats := ?st\<rparr>)"
      using a c'(1) by (simp add: evict_one_def Let_def)
    show "lru_wf (c'\<lparr>lru_stats := ?st\<rparr>) (butlast as)" using c'(2) bl by simp
    show "od_evict (lru_abs c) now = Inr (lru_abs (c'\<lparr>lru_stats := ?st\<rparr>))"
      using c'(3,4) rest by (simp add: od_evict_def data is_expired_def)
    show "map_of (lru_index (c'\<lparr>lru_stats := ?st\<rparr>)) k = None"
      using miss c'(5) by (simp add: delete_conv')
    show "lru_capacity (c'\<lparr>lru_stats := ?st\<rparr>) = lru_capacity c"
      using c'(6) by simp
  qed
qed

lemma lru_put_refines:
  assumes wf: "lru_wf c as" and ok: "validate_ttl (effective_ttl (lru_default_ttl c) ttl) = Inr ()"
  shows "\<exists>c' as'. lru_put c k v ttl now now' = Inr c' \<and> lru_wf c' as'
    \<and> od_put (lru_abs c) k v ttl now now' = Inr (lru_abs c')"
proof (cases "map_of (lru_index c) k")
  case (Some a)
  let ?e = "expiry now (effective_ttl (lru_default_ttl c) ttl)"
  let ?c = "c\<lparr>lru_heap := (lru_heap c)(a := (lru_heap c a)\<lparr>nvalue := Some v, nexpires := ?e\<rparr>)\<rparr>"
  note w = write_refines[OF wf Some, where c' = ?c and v = v and e = ?e, OF refl]
  have hit: "map_of (lru_index ?c) k = Some a" using Some by simp
  obtain h' as' where h': "move_to_front (lru_head ?c) a (lru_heap ?c) = Inr h'"
    "lru_wf (?c\<lparr>lru_heap := h'\<rparr>) as'"
    "lru_abs (?c\<lparr>lru_heap := h'\<rparr>) = (lru_abs ?c)\<lparr>od_data := move_to_end k (od_data (lru_abs ?c))\<rparr>"
    using touch_refines[OF w(1) hit] by blast
  obtain u where "map_of (od_data (lru_abs c)) k = Some u" using hit_lookup[OF wf Some] by blast
  then have mem: "k \<in> set (keys (od_data (lru_abs c)))" by (rule map_of_Some_keys)
  have "lru_put c k v ttl now now' = Inr (c\<lparr>lru_heap := h'\<rparr>)"
    using Some ok h'(1) by (simp add: lru_put_def Let_def)
  moreover have "od_put (lru_abs c) k v ttl now now' = Inr (lru_abs (c\<lparr>lru_heap := h'\<rparr>))"
    using ok mem h'(3) w(2) by (simp add: od_put_def Let_def)
  moreover have "lru_wf (c\<lparr>lru_heap := h'\<rparr>) as'" using h'(2) by simp
  ultimately show ?thesis by blast
next
  case None
  let ?e = "expiry now (effective_ttl (lru_default_ttl c) ttl)"
  have nmem: "k \<notin> set (keys (od_data (lru_abs c)))"
    using miss_lookup[OF wf None] by (simp add: map_of_eq_None_iff)
  have len: "length (od_data (lru_abs c)) = length (lru_index c)"
    by (simp add: lru_abs_data[OF wf] lru_wf_length[OF wf])
  obtain c1 as1 where c1:
    "(if int (length (lru_index c)) \<ge> lru_capacity c then evict_one c now' else Inr c) = Inr c1"
    "lru_wf c1 as1" "map_of (lru_index c1) k = None" "int (length as1) < lru_capacity c1"
    "(if int (length (od_data (lru_abs c))) \<ge> od_capacity (lru_abs c)
      then od_evict (lru_abs c) now' else Inr (lru_abs c)) = Inr (lru_abs c1)"
  proof (cases "int (length (lru_index c)) \<ge> lru_capacity c")
    case True
    then have ne: "as \<noteq> []" using lru_wfD(7)[OF wf] lru_wf_length[OF wf] by auto
    obtain c1 where c1: "evict_one c now' = Inr c1" "lru_wf c1 (butlast as)"
      "od_evict (lru_abs c) now' = Inr (lru_abs c1)" "map_of (lru_index c1) k = None"
      "lru_capacity c1 = lru_capacity c"
      using evict_refines[OF wf ne None] by blast
    have "int (length (butlast as)) < lru_capacity c1"
      using c1(5) lru_wfD(7,8)[OF wf] ne by simp
    with that[of c1] c1 True len show ?thesis by simp
  next
    case False
    with that[of c as] wf None len lru_wf_length[OF wf] show ?thesis by simp
  qed
  obtain h' where h':
    "push_front (lru_head c1) (lru_fresh c1) ((lru_heap c1)(lru_fresh c1 := new_node (Some k) (Some v) ?e)) = Inr h'"
    and wf2: "lru_wf (c1\<lparr>lru_index := AList.update k (lru_fresh c1) (lru_index c1), lru_heap := h',
      lru_fresh := lru_fresh c1 + 1\<rparr>) (lru_fresh c1 # as1)"
    and abs2: "lru_abs (c1\<lparr>lru_index := AList.update k (lru_fresh c1) (lru_index c1), lru_heap := h',
      lru_fresh := lru_fresh c1 + 1\<rparr>) = (lru_abs c1)\<lparr>od_data := AList.update k (v, ?e) (od_data (lru_abs c1))\<rparr>"
    using insert_refines[OF c1(2-4)] by blast
  have "lru_put c k v ttl now now' = Inr (c1\<lparr>lru_index := AList.update k (lru_fresh c1) (lru_index c1),
      lru_heap := h', lru_fresh := lru_fresh c1 + 1\<rparr>)"
    unfolding lru_put_def Let_def ok bindE_simps None option.case c1(1) h' ..
  moreover have "od_put (lru_abs c) k v ttl now now' =
      Inr ((lru_abs c1)\<lparr>od_data := AList.update k (v, ?e) (od_data (lru_abs c1))\<rparr>)"
    using nmem ok unfolding od_put_def Let_def lru_abs_simps c1(5)[unfolded lru_abs_simps] by simp
  ultimately show ?thesis using wf2 abs2 by metis
qed

lemma lru_put_invalid:
  "validate_ttl (effective_ttl (lru_default_ttl c) ttl) = Inl e \<Longrightarrow>
   lru_put c k v ttl now now' = Inl ValueError"
  using validate_ttl_error[of _ e] by (auto simp: lru_put_def Let_def)

lemma lru_step_refines:
  assumes "lru_inv c"
  shows "od_step (lru_abs c) x = map_prod id lru_abs (lru_step c x)" and "lru_inv (snd (lru_step c x))"
proof -
  obtain as where wf: "lru_wf c as" using assms by (auto simp: lru_inv_def)
  have "od_step (lru_abs c) x = map_prod id lru_abs (lru_step c x) \<and> lru_inv (snd (lru_step c x))"
  proof (cases x)
    case (Get k d now)
    then show ?thesis using lru_get_refines[OF wf, of k d now] lru_wf_inv by force
  next
    case (Put k v ttl now now')
    show ?thesis
    proof (cases "validate_ttl (effective_ttl (lru_default_ttl c) ttl)")
      case (Inl e)
      then show ?thesis
        using Put assms lru_put_invalid[OF Inl] od_put_invalid[of "lru_abs c" ttl e] by simp
    next
      case (Inr u)
      then show ?thesis
        using Put lru_put_refines[OF wf, of ttl k v now now'] lru_wf_inv by force
    qed
  next
    case (Delete k)
    then show ?thesis using lru_delete_refines[OF wf, of k] lru_wf_inv by force
  qed (use assms lru_contains_refines[OF wf] lru_len_refines[OF wf] in simp_all)
  then show "od_step (lru_abs c) x = map_prod id lru_abs (lru_step c x)" and "lru_inv (snd (lru_step c x))"
    by simp_all
qed

lemma lru_init_wf:
  assumes "lru_init cap dflt = Inr c"
  shows "lru_wf c []"
  using assms by (cases cap) (auto simp: lru_init_def lru_empty_def lru_wf_def bindE_eq_Inr split: if_splits)

lemma lru_init_abs:
  assumes "lru_init cap dflt = Inr c"
  shows "od_init cap dflt = Inr (lru_abs c)"
  using assms by (cases cap)
    (auto simp: lru_init_def lru_empty_def od_init_def lru_abs_def lru_addrs_def bindE_eq_Inr split: if_splits)

section \<open>The contract, for the hand-written cache\<close>

definition lru_view :: "('k, 'v) lru_cache \<Rightarrow> ('k, 'v) ref_cache" where
  "lru_view c = od_view (lru_abs c)"

lemma lru_abs_inv: "lru_inv c \<Longrightarrow> od_inv (lru_abs c)"
proof -
  assume "lru_inv c"
  then obtain as where wf: "lru_wf c as" by (auto simp: lru_inv_def)
  have "wf_dict (od_data (lru_abs c))"
  proof -
    have "keys (map (node_entry (lru_heap c)) as) = keys (map (index_of (lru_heap c)) as)"
      by (simp add: node_entry_def index_of_def)
    moreover have "distinct (keys (map (index_of (lru_heap c)) as))"
      using lru_wfD(5,6)[OF wf] unfolding wf_dict_def by (metis mset_eq_imp_distinct_iff mset_map)
    ultimately show ?thesis unfolding lru_abs_data[OF wf] wf_dict_def by (metis distinct_rev rev_map)
  qed
  then show ?thesis
    using lru_wfD(7-9)[OF wf] lru_abs_data[OF wf] by (simp add: od_inv_def ref_ok_def)
qed

interpretation lru: ttl_cache lru_step lru_inv lru_view
proof unfold_locales
  fix c :: "('a, 'b) lru_cache" and x
  assume inv: "lru_inv c"
  note R = lru_step_refines[OF inv]
  show "lru_inv (snd (lru_step c x))" by (rule R(2))
  show "ref_ok (lru_view c)"
    using lru_abs_inv[OF inv] by (simp add: lru_view_def od_inv_def)
  show "ref_step (lru_view c) x = map_prod id lru_view (lru_step c x)" if "op_comparable x"
    using od.refines[OF lru_abs_inv[OF inv] that] R(1)[of x]
    by (cases "lru_step c x") (simp add: lru_view_def)
  show "lru_step c x = (OErr ValueError, c)" if "\<not> op_comparable x"
    using that by (cases x rule: op_comparable.cases)
      (auto simp: lru_put_def effective_ttl_def Let_def)
qed

section \<open>Properties\<close>

lemma run_ops_refines:
  "lru_inv c \<Longrightarrow> run_ops od_step (lru_abs c) xs = map_prod id lru_abs (run_ops lru_step c xs)"
proof (induction xs arbitrary: c)
  case (Cons x xs)
  then show ?case using lru_step_refines[OF Cons.prems, of x] by (simp add: split_beta)
qed simp

lemma lru_init_inv: "lru_init cap dflt = Inr c \<Longrightarrow> lru_inv c"
  by (rule lru_wf_inv[OF lru_init_wf])

lemma lru_step_errors:
  assumes "lru_inv c" and "fst (lru_step c x) = OErr e"
  shows "e = ValueError"
proof -
  obtain as where wf: "lru_wf c as" using assms(1) by (auto simp: lru_inv_def)
  show ?thesis
  proof (cases x)
    case (Get k d now)
    then show ?thesis using assms(2) lru_get_refines[OF wf, of k d now] by auto
  next
    case (Put k v ttl now now')
    then show ?thesis
      using assms(2) lru_put_refines[OF wf, of ttl k v now now'] lru_put_invalid[of c ttl]
      by (cases "validate_ttl (effective_ttl (lru_default_ttl c) ttl)") auto
  next
    case (Delete k)
    then show ?thesis using assms(2) lru_delete_refines[OF wf, of k] by auto
  qed (use assms(2) in simp_all)
qed

text \<open>C20 The hand-written cache is the linear-scan reference model of the tests, for every session of calls and
  any clock readings: a \<open>put\<close> with an infinite or NaN ttl, which the model would take, raises \<open>ValueError\<close> and
  changes nothing; all other calls get the results of the model, and the session leaves the model's entries in
  the model's order, with its values and expiry times.\<close>

theorem lru_session_refines_reference:
  assumes "lru_init (CapInt n) dflt = Inr c" and "ref_init n dflt = Inr r"
  shows "(\<forall>(x, out) \<in> set (zip xs (fst (run_ops lru_step c xs))). \<not> op_comparable x \<longrightarrow> out = OErr ValueError)
    \<and> run_ops ref_step r (filter op_comparable xs) =
        (map snd (filter (op_comparable \<circ> fst) (zip xs (fst (run_ops lru_step c xs)))), lru_view (snd (run_ops lru_step c xs)))"
proof -
  have "od_init (CapInt n) dflt = Inr (lru_abs c)"
    by (rule lru_init_abs[OF assms(1)])
  then have "lru_abs c = \<lparr>od_capacity = n, od_default_ttl = dflt, od_data = [], od_stats = zero_stats\<rparr>"
    by (auto simp: od_init_def bindE_eq_Inr split: if_splits)
  then have "lru_view c = r"
    using assms(2) by (auto simp: lru_view_def od_view_def ref_init_def simp del: lru_abs_simps split: if_splits)
  then show ?thesis using lru.run_all[OF lru_init_inv[OF assms(1)], of xs] by simp
qed

abbreviation sample_session :: "(nat, nat) cache_op list" where
  "sample_session \<equiv> [Put 1 10 UseDefault 0 0, Put 2 20 (Ttl (Some (Fin 5))) 1 1, Put 2 0 (Ttl (Some PosInf)) 1 1,
     Get 1 None 2, Put 3 30 UseDefault 3 3, Get 2 None 4, Contains 3 4, Len]"

theorem lru_session_refines_reference_witness:
  "\<exists>c. lru_init (CapInt 2) None = Inr c \<and>
     map snd (filter (op_comparable \<circ> fst) (zip sample_session (fst (run_ops lru_step c sample_session))))
       = [OUnit, OUnit, OVal (Some 10), OUnit, OVal None, OBool True, OLen 2] \<and>
     ref_entries (lru_view (snd (run_ops lru_step c sample_session))) = [(1, 10, None), (3, 30, None)]"
proof -
  obtain c :: "(nat, nat) lru_cache" where c: "lru_init (CapInt 2) None = Inr c" by (simp add: lru_init_def)
  obtain r :: "(nat, nat) ref_cache" where r: "ref_init 2 None = Inr r"
    and r': "r = \<lparr>ref_capacity = 2, ref_default_ttl = None, ref_entries = []\<rparr>"
    by (simp add: ref_init_def ref_bad_ttl_def)
  have "fst (run_ops ref_step r (filter op_comparable sample_session)) =
      [OUnit, OUnit, OVal (Some 10), OUnit, OVal None, OBool True, OLen 2]
    \<and> ref_entries (snd (run_ops ref_step r (filter op_comparable sample_session))) = [(1, 10, None), (3, 30, None)]"
    by (simp add: r' ref_put_def ref_get_def ref_delete_def ref_contains_def ref_len_def ref_find_def
        effective_ttl_def ref_bad_ttl_def expiry_def del_at_def)
  then show ?thesis
    unfolding conjunct2[OF lru_session_refines_reference[OF c r, of sample_session]] fst_conv snd_conv
    by (intro exI[of _ c] conjI c) blast+
qed

text \<open>C30 The hand-written linked list and the \<open>OrderedDict\<close> shortcut are the same cache: every
  session, invalid arguments included, gets the same answers and leaves the same entries in the
  same recency order and the same statistics.\<close>

theorem lru_od_equivalent:
  assumes "lru_init cap dflt = Inr c" and "od_init cap dflt = Inr c'"
  shows "run_ops od_step c' xs = map_prod id lru_abs (run_ops lru_step c xs)"
proof -
  have "c' = lru_abs c" using lru_init_abs[OF assms(1)] assms(2) by simp
  then show ?thesis using run_ops_refines[OF lru_init_inv[OF assms(1)]] by simp
qed

theorem lru_od_equivalent_witness:
  "\<exists>c. lru_init (CapInt 1) (Some (Fin 3)) = Inr c \<and>
     fst (run_ops lru_step c [Put (1::nat) (7::nat) UseDefault 0 0, Put 2 8 (Ttl (Some NaN)) 1 1, Put 2 8 UseDefault 4 4])
       = [OUnit, OErr ValueError, OUnit] \<and>
     lru_stats (snd (run_ops lru_step c [Put (1::nat) (7::nat) UseDefault 0 0, Put 2 8 (Ttl (Some NaN)) 1 1, Put 2 8 UseDefault 4 4]))
       = \<lparr>hits = 0, misses = 0, evictions = 0, expirations = 1\<rparr>"
proof -
  obtain c :: "(nat, nat) lru_cache" where c: "lru_init (CapInt 1) (Some (Fin 3)) = Inr c" by (simp add: lru_init_def)
  obtain c' :: "(nat, nat) od_cache" where c': "od_init (CapInt 1) (Some (Fin 3)) = Inr c'"
    and e: "c' = \<lparr>od_capacity = 1, od_default_ttl = Some (Fin 3), od_data = [], od_stats = zero_stats\<rparr>"
    by (simp add: od_init_def)
  let ?xs = "[Put (1::nat) (7::nat) UseDefault 0 0, Put 2 8 (Ttl (Some NaN)) 1 1, Put 2 8 UseDefault 4 4]"
  have "fst (run_ops od_step c' ?xs) = [OUnit, OErr ValueError, OUnit] \<and>
      od_stats (snd (run_ops od_step c' ?xs)) = \<lparr>hits = 0, misses = 0, evictions = 0, expirations = 1\<rparr>"
    by (simp add: e od_put_def od_evict_def effective_ttl_def expiry_def zero_stats_def Let_def)
  then have "fst (run_ops lru_step c ?xs) = [OUnit, OErr ValueError, OUnit]"
    and "lru_stats (snd (run_ops lru_step c ?xs)) = \<lparr>hits = 0, misses = 0, evictions = 0, expirations = 1\<rparr>"
    unfolding lru_od_equivalent[OF c c', of ?xs] fst_map_prod snd_map_prod lru_abs_simps id_apply
    by blast+
  then show ?thesis by (intro exI[of _ c] conjI c)
qed

text \<open>C31 The linked list never corrupts: after any session the heap is well formed (head, nodes
  and tail distinct and linked both ways, dictionary and list in agreement, within capacity),
  and no call ever fails an assertion or a lookup; the only exception is the ttl check's.\<close>

theorem lru_heap_integrity:
  assumes "lru_init cap dflt = Inr c"
  shows "lru_wf (snd (run_ops lru_step c xs)) (lru_addrs (snd (run_ops lru_step c xs)))
    \<and> (\<forall>e. OErr e \<in> set (fst (run_ops lru_step c xs)) \<longrightarrow> e = ValueError)"
proof -
  have "lru_inv c \<Longrightarrow> OErr e \<in> set (fst (run_ops lru_step c xs)) \<Longrightarrow> e = ValueError" for e
  proof (induction xs arbitrary: c)
    case (Cons x xs)
    then show ?case
      using lru_step_errors[of c x] lru_step_refines(2)[of c x] by (auto simp: split_beta)
  qed simp
  with lru.run_inv[OF lru_init_inv[OF assms], of xs] lru_init_inv[OF assms] show ?thesis
    by (auto simp: lru_inv_def)
qed

theorem lru_heap_integrity_witness:
  "\<exists>c. lru_init (CapInt 1) None = Inr c \<and>
     lru_wf (snd (run_ops lru_step c [Put (1::nat) True UseDefault 0 0, Put 2 False UseDefault 1 1, Delete 2]))
            (lru_addrs (snd (run_ops lru_step c [Put (1::nat) True UseDefault 0 0, Put 2 False UseDefault 1 1, Delete 2])))"
proof -
  obtain c :: "(nat, bool) lru_cache" where c: "lru_init (CapInt 1) None = Inr c" by (simp add: lru_init_def)
  from c lru_heap_integrity[OF c] show ?thesis by blast
qed

text \<open>A value stored at clock reading \<open>t\<close> with ttl \<open>x\<close> is served while the clock is below
  \<open>t + x\<close> and is a miss from \<open>t + x\<close> on; without a ttl it is served for ever.\<close>

theorem lru_ttl_boundary:
  assumes "lru_inv c" and "op_comparable (Put k v ttl t t')"
    and "fst (lru_step c (Put k v ttl t t')) = OUnit"
  shows "fst (lru_step (snd (lru_step c (Put k v ttl t t'))) (Get k d now)) =
     (case effective_ttl (lru_default_ttl c) ttl of
        Some (Fin x) \<Rightarrow> if t + x \<le> now then OVal d else OVal (Some v)
      | _ \<Rightarrow> OVal (Some v))"
proof -
  have "validate_ttl (effective_ttl (lru_default_ttl c) ttl) = Inr ()"
    using assms(3) lru_put_invalid[of c ttl]
    by (cases "validate_ttl (effective_ttl (lru_default_ttl c) ttl)") auto
  then have "effective_ttl (lru_default_ttl c) ttl = None \<or>
      (\<exists>x. effective_ttl (lru_default_ttl c) ttl = Some (Fin x))"
    by (auto simp: validate_ttl_Inr)
  with lru.put_then_get[OF assms, of d now] show ?thesis
    by (auto simp: lru_view_def expiry_def)
qed

theorem lru_ttl_boundary_witness:
  "\<exists>c. lru_init (CapInt 1) None = Inr c \<and>
     fst (lru_step (snd (lru_step c (Put (1::nat) (9::nat) (Ttl (Some (Fin 5))) 2 2))) (Get 1 None 7)) = OVal None \<and>
     fst (lru_step (snd (lru_step c (Put (1::nat) (9::nat) (Ttl (Some (Fin 5))) 2 2))) (Get 1 None 6)) = OVal (Some 9)"
proof -
  obtain c :: "(nat, nat) lru_cache" where c: "lru_init (CapInt 1) None = Inr c" by (simp add: lru_init_def)
  have inv: "lru_inv c" by (rule lru_init_inv[OF c])
  let ?p = "Put (1::nat) (9::nat) (Ttl (Some (Fin 5))) 2 2"
  have ok: "fst (lru_step c ?p) = OUnit"
    using c by (auto simp: lru_init_def lru_empty_def lru_put_def effective_ttl_def push_front_def set_prev_def
        set_next_def new_node_def Let_def)
  have cmp: "op_comparable ?p" by simp
  note T = lru_ttl_boundary[OF inv cmp ok, of None]
  show ?thesis using c T[of 7] T[of 6] by (auto simp: effective_ttl_def)
qed

text \<open>C32 The cache never holds more entries than its capacity, and storing a new key in a full
  cache removes exactly the least recently used entry (the last node of the list).\<close>

theorem lru_evicts_least_recent:
  assumes "lru_inv c" and "op_comparable (Put k v ttl t t')"
    and "fst (lru_step c (Put k v ttl t t')) = OUnit" and "map_of (lru_index c) k = None"
  shows "int (lru_len (snd (lru_step c (Put k v ttl t t')))) \<le> lru_capacity c
    \<and> map (\<lambda>a. nkey (lru_heap (snd (lru_step c (Put k v ttl t t'))) a))
          (lru_addrs (snd (lru_step c (Put k v ttl t t'))))
       = Some k # (if int (lru_len c) = lru_capacity c
                   then butlast (map (\<lambda>a. nkey (lru_heap c a)) (lru_addrs c))
                   else map (\<lambda>a. nkey (lru_heap c a)) (lru_addrs c))"
proof -
  let ?c = "snd (lru_step c (Put k v ttl t t'))"
  have keys: "map (\<lambda>a. nkey (lru_heap c a)) (lru_addrs c) = map Some (rev (keys (ref_entries (lru_view c))))"
    if "lru_inv c" for c :: "('a, 'b) lru_cache"
    using that lru_wfD(4)[of c "lru_addrs c"]
    by (auto simp: lru_view_def lru_abs_def lru_inv_def node_entry_def rev_map[symmetric])
  have inv': "lru_inv ?c" by (rule lru.inv_step[OF assms(1)])
  have len: "lru_len c = length (ref_entries (lru_view c))" if "lru_inv c" for c :: "('a, 'b) lru_cache"
    using that lru_len_refines[of c "lru_addrs c"] by (simp add: lru_inv_def lru_view_def od_len_def)
  have "k \<notin> set (keys (ref_entries (lru_view c)))"
    using miss_lookup[OF assms(1)[unfolded lru_inv_def] assms(4)]
    by (simp add: lru_view_def map_of_eq_None_iff)
  note P = lru.put_fresh[OF assms(1-3) this]
  have "int (length (ref_entries (lru_view ?c))) \<le> lru_capacity c"
    using lru.run_bounded[OF assms(1), of "[Put k v ttl t t']"] by (simp add: lru_view_def split_beta)
  then show ?thesis
    using P len[OF assms(1)] len[OF inv'] unfolding keys[OF assms(1)] keys[OF inv']
    by (auto simp: lru_view_def butlast_rev rev_map[symmetric] map_butlast map_tl)
qed

theorem lru_evicts_least_recent_witness:
  "int (lru_len (snd (lru_step (lru_empty 1) (Put (1::nat) True UseDefault 0 0)))) \<le> 1"
proof -
  have inv: "lru_inv (lru_empty 1 :: (nat, bool) lru_cache)"
    by (rule lru_init_inv[of "CapInt 1" None]) (simp add: lru_init_def lru_empty_def)
  have ok: "fst (lru_step (lru_empty 1) (Put (1::nat) True UseDefault 0 0)) = OUnit"
    by (simp add: lru_empty_def lru_put_def effective_ttl_def push_front_def set_prev_def
        set_next_def new_node_def Let_def)
  from lru_evicts_least_recent[OF inv _ ok] show ?thesis by (simp add: lru_empty_def)
qed

end
