(* ===== verification/Lru_Threads.thy ===== *)
theory Lru_Threads
  imports Lru_Dll
begin

text \<open>
  The thread-safe wrapper (\<open>q1_lru_ttl/lru_ttl/threadsafe.py\<close>): every public method, and the
  \<open>stats\<close> property, runs under one lock. Threads interleave freely. What a thread does
  inside the lock is not one step: it reads the shared cache in one step and writes its
  result back in another, so that without the lock an update could be lost.
  Also here: the properties of the cache as a whole.
\<close>

section \<open>Threads over one lock\<close>

text \<open>A call on the wrapper: a cache method, or the \<open>stats\<close> snapshot.\<close>

datatype ('k, 'v) ts_call = Method "('k, 'v) cache_op" | Stats

datatype 'v ts_out = Returned "'v cache_out" | Snapshot cache_stats

fun ts_body :: "('k, 'v) lru_cache \<Rightarrow> ('k, 'v) ts_call \<Rightarrow> 'v ts_out \<times> ('k, 'v) lru_cache" where
  "ts_body c (Method x) = map_prod Returned id (lru_step c x)"
| "ts_body c Stats = (Snapshot (lru_stats c), c)"

text \<open>Where a thread is: outside, waiting for the lock, inside with its call, inside having
  read the cache, or leaving with its result written back.\<close>

datatype ('k, 'v) ts_pc =
    Outside
  | Waiting "('k, 'v) ts_call"
  | Entered "('k, 'v) ts_call"
  | Loaded "('k, 'v) ts_call" "('k, 'v) lru_cache"
  | Leaving

record ('k, 'v) ts_state =
  ts_cache :: "('k, 'v) lru_cache"
  ts_lock :: "nat option"
  ts_pcs :: "nat \<Rightarrow> ('k, 'v) ts_pc"
  ts_log :: "(('k, 'v) ts_call \<times> 'v ts_out) list"

definition ts_init :: "('k, 'v) lru_cache \<Rightarrow> ('k, 'v) ts_state" where
  "ts_init c = \<lparr>ts_cache = c, ts_lock = None, ts_pcs = (\<lambda>_. Outside), ts_log = []\<rparr>"

inductive ts_step :: "('k, 'v) ts_state \<Rightarrow> ('k, 'v) ts_state \<Rightarrow> bool" where
  call: "ts_pcs s i = Outside \<Longrightarrow> ts_step s (s\<lparr>ts_pcs := (ts_pcs s)(i := Waiting x)\<rparr>)"
| acquire: "ts_pcs s i = Waiting x \<Longrightarrow> ts_lock s = None \<Longrightarrow>
    ts_step s (s\<lparr>ts_lock := Some i, ts_pcs := (ts_pcs s)(i := Entered x)\<rparr>)"
| load: "ts_pcs s i = Entered x \<Longrightarrow>
    ts_step s (s\<lparr>ts_pcs := (ts_pcs s)(i := Loaded x (ts_cache s))\<rparr>)"
| commit: "ts_pcs s i = Loaded x c \<Longrightarrow> ts_body c x = (r, c') \<Longrightarrow>
    ts_step s (s\<lparr>ts_cache := c', ts_pcs := (ts_pcs s)(i := Leaving), ts_log := ts_log s @ [(x, r)]\<rparr>)"
| release: "ts_pcs s i = Leaving \<Longrightarrow>
    ts_step s (s\<lparr>ts_lock := None, ts_pcs := (ts_pcs s)(i := Outside)\<rparr>)"

inductive ts_reachable :: "('k, 'v) lru_cache \<Rightarrow> ('k, 'v) ts_state \<Rightarrow> bool" for c0 where
  start: "ts_reachable c0 (ts_init c0)"
| step: "ts_reachable c0 s \<Longrightarrow> ts_step s t \<Longrightarrow> ts_reachable c0 t"

inductive_cases ts_stepE: "ts_step s t"

fun in_lock :: "('k, 'v) ts_pc \<Rightarrow> bool" where
  "in_lock (Entered x) = True"
| "in_lock (Loaded x c) = True"
| "in_lock Leaving = True"
| "in_lock p = False"

text \<open>
  The invariant: whoever is inside holds the lock, a loaded cache is the current one, and
  the log is a sequential session that leads to the current cache.
\<close>

definition ts_inv :: "('k, 'v) lru_cache \<Rightarrow> ('k, 'v) ts_state \<Rightarrow> bool" where
  "ts_inv c0 s \<longleftrightarrow>
     (\<forall>i. in_lock (ts_pcs s i) \<longleftrightarrow> ts_lock s = Some i)
   \<and> (\<forall>i x c. ts_pcs s i = Loaded x c \<longrightarrow> c = ts_cache s)
   \<and> run_ops ts_body c0 (map fst (ts_log s)) = (map snd (ts_log s), ts_cache s)"

lemma ts_inv_init: "ts_inv c (ts_init c)"
  by (simp add: ts_inv_def ts_init_def)

lemma ts_step_inv:
  assumes "ts_step s t" and "ts_inv c0 s"
  shows "ts_inv c0 t"
  using assms
proof (induction rule: ts_step.induct)
  case (call s i x)
  then have "ts_lock s \<noteq> Some i" unfolding ts_inv_def by (metis in_lock.simps(4))
  with call show ?case by (auto simp: ts_inv_def split: if_splits)
next
  case (acquire s i x)
  then show ?case by (auto simp: ts_inv_def split: if_splits)
next
  case (load s i x)
  then show ?case by (auto simp: ts_inv_def split: if_splits)
next
  case (commit s i x c r c')
  then have holder: "\<And>j. in_lock (ts_pcs s j) \<longleftrightarrow> ts_lock s = Some j"
    and loaded: "\<And>j y d. ts_pcs s j = Loaded y d \<Longrightarrow> d = ts_cache s"
    and session: "run_ops ts_body c0 (map fst (ts_log s)) = (map snd (ts_log s), ts_cache s)"
    by (simp_all add: ts_inv_def)
  have lock: "ts_lock s = Some i" using holder[of i] commit.hyps by simp
  have alone: False if "ts_pcs s j = Loaded y d" "j \<noteq> i" for j y d
    using holder[of j] lock that by simp
  show ?case unfolding ts_inv_def
    using holder lock alone session loaded[OF commit.hyps(1)] commit.hyps
    by (auto simp: run_ops_snoc)
next
  case (release s i)
  then have lock: "ts_lock s = Some i" unfolding ts_inv_def by (metis in_lock.simps(3))
  with release show ?case by (auto simp: ts_inv_def split: if_splits)
qed

lemma ts_reachable_inv: "ts_reachable c0 s \<Longrightarrow> ts_inv c0 s"
  by (induction rule: ts_reachable.induct) (auto intro: ts_inv_init ts_step_inv)

text \<open>A thread that finds the lock free can run its call to the end.\<close>

lemma ts_solo:
  assumes reach: "ts_reachable c0 s" and out: "ts_pcs s i = Outside" and free: "ts_lock s = None"
    and body: "ts_body (ts_cache s) x = (r, c')"
  shows "\<exists>t. ts_reachable c0 t \<and> ts_cache t = c' \<and> ts_log t = ts_log s @ [(x, r)]
           \<and> ts_lock t = None \<and> ts_pcs t = ts_pcs s"
proof -
  define s1 where "s1 = s\<lparr>ts_pcs := (ts_pcs s)(i := Waiting x)\<rparr>"
  define s2 where "s2 = s1\<lparr>ts_lock := Some i, ts_pcs := (ts_pcs s1)(i := Entered x)\<rparr>"
  define s3 where "s3 = s2\<lparr>ts_pcs := (ts_pcs s2)(i := Loaded x (ts_cache s2))\<rparr>"
  define s4 where "s4 = s3\<lparr>ts_cache := c', ts_pcs := (ts_pcs s3)(i := Leaving),
      ts_log := ts_log s3 @ [(x, r)]\<rparr>"
  define s5 where "s5 = s4\<lparr>ts_lock := None, ts_pcs := (ts_pcs s4)(i := Outside)\<rparr>"
  have "ts_step s s1" unfolding s1_def by (rule ts_step.call[OF out])
  with reach have "ts_reachable c0 s1" by (rule ts_reachable.step)
  moreover have "ts_step s1 s2" unfolding s2_def
    by (rule ts_step.acquire) (simp_all add: s1_def free)
  ultimately have "ts_reachable c0 s2" by (rule ts_reachable.step)
  moreover have "ts_step s2 s3" unfolding s3_def by (rule ts_step.load) (simp add: s2_def)
  ultimately have "ts_reachable c0 s3" by (rule ts_reachable.step)
  moreover have "ts_step s3 s4" unfolding s4_def
    by (rule ts_step.commit[where c = "ts_cache s"]) (simp_all add: s3_def s2_def s1_def body)
  ultimately have "ts_reachable c0 s4" by (rule ts_reachable.step)
  moreover have "ts_step s4 s5" unfolding s5_def by (rule ts_step.release) (simp add: s4_def)
  ultimately have "ts_reachable c0 s5" by (rule ts_reachable.step)
  moreover have "ts_pcs s5 = ts_pcs s"
    using out by (auto simp: s5_def s4_def s3_def s2_def s1_def fun_eq_iff)
  moreover have "ts_cache s5 = c'" "ts_log s5 = ts_log s @ [(x, r)]" "ts_lock s5 = None"
    by (simp_all add: s5_def s4_def s3_def s2_def s1_def)
  ultimately show ?thesis by blast
qed

section \<open>Properties\<close>

text \<open>C33 Under any interleaving of threads, the calls on the thread-safe cache return exactly
  what one sequential session would return, in the order in which the calls took effect, and
  leave the cache that session leaves: no update is lost.\<close>

theorem threadsafe_serialisable:
  assumes "ts_reachable c0 s"
  shows "run_ops ts_body c0 (map fst (ts_log s)) = (map snd (ts_log s), ts_cache s)"
  using ts_reachable_inv[OF assms] by (simp add: ts_inv_def)

theorem threadsafe_serialisable_witness:
  "\<exists>s :: (bool, nat) ts_state. ts_log s = [(Method (Get True None 0), Returned (OVal None))]
     \<and> run_ops ts_body (lru_empty 1) (map fst (ts_log s)) = (map snd (ts_log s), ts_cache s)
     \<and> misses (lru_stats (ts_cache s)) = 1"
proof -
  let ?c = "lru_empty 1 :: (bool, nat) lru_cache"
  let ?c' = "?c\<lparr>lru_stats := (lru_stats ?c)\<lparr>misses := 1\<rparr>\<rparr>"
  have "ts_body (ts_cache (ts_init ?c)) (Method (Get True None 0)) = (Returned (OVal None), ?c')"
    by (simp add: ts_init_def lru_get_def lru_empty_def zero_stats_def)
  from ts_solo[OF ts_reachable.start _ _ this, of 0]
  obtain s where s: "ts_reachable ?c s" "ts_cache s = ?c'"
      "ts_log s = [(Method (Get True None 0), Returned (OVal None))]"
    by (auto simp: ts_init_def)
  have "misses (lru_stats (ts_cache s)) = 1" using s(2) by simp
  with s(3) threadsafe_serialisable[OF s(1)] show ?thesis by blast
qed

text \<open>Two threads inside the lock at once are impossible.\<close>

lemma threadsafe_mutex:
  assumes "ts_reachable c0 s" and "in_lock (ts_pcs s i)" and "in_lock (ts_pcs s j)"
  shows "i = j"
  using ts_reachable_inv[OF assms(1)] assms(2,3) by (auto simp: ts_inv_def)

end
