(* ===== verification/Recording.thy ===== *)
theory Recording
  imports Canonical_Values
begin

text \<open>
  Recordings (\<open>harness/recording.py\<close>): the verification of sequence numbers and hash chain, and
  the index of definitions and calls that \<open>load\<close> builds. The file is the list of its non-blank
  lines, each with its number and the outcome of \<open>json.loads\<close>. The schema validator is a
  third-party package: \<open>errs\<close> maps an event to its violations; \<open>event_ok\<close> is the schema
  itself (\<open>harness/_schema/recording.schema.json\<close>), what the validator is documented to check.
\<close>

type_synonym event = "(pystr \<times> json) list"

abbreviation eget :: "event \<Rightarrow> string \<Rightarrow> json" where
  "eget ev k \<equiv> dict_get ev (S k) JNull"

text \<open>\<open>event.get(k, "")\<close> of a field that the schema makes a string.\<close>

definition sget :: "event \<Rightarrow> string \<Rightarrow> pystr" where
  "sget ev k = str_of (dict_get ev (S k) (JStr []))"

section \<open>Problems\<close>

text \<open>One constructor per message; an exception is kept by its class.\<close>

datatype problem =
    NotJson nat pystr | NotObject nat | OrphanResponse json
  | EmptyRecording | NoSessionStart
  | SchemaViolation nat json pystr | SessionDiffers nat | AfterEnd nat | DuplicateStart nat
  | WrongSeq nat int json | PrevHashMismatch nat json json json | EventHashMismatch nat json
  | CannotHashEvent nat pyexc | DefHashMismatch nat | CannotHashTool nat pyexc
  | UnknownDefinition nat | DuplicateCall nat | UnknownCall nat | DuplicateResponse nat

section \<open>Verification\<close>

record verify_state =
  v_definitions :: "(pystr \<times> pystr \<times> pystr) set"
  v_calls :: "pystr set"
  v_responses :: "pystr set"
  v_ended :: bool
  v_prev :: json
  v_seq :: int
  v_problems :: "problem list"

definition verify_init :: "problem list \<Rightarrow> verify_state" where
  "verify_init ps = \<lparr>v_definitions = {}, v_calls = {}, v_responses = {}, v_ended = False,
     v_prev = JNull, v_seq = 0, v_problems = ps\<rparr>"

definition event_type :: "event \<Rightarrow> json" where "event_type ev = eget ev ''type''"

abbreviation has_type :: "event \<Rightarrow> string \<Rightarrow> bool" where
  "has_type ev t \<equiv> event_type ev = JStr (S t)"

definition only :: "bool \<Rightarrow> 'a \<Rightarrow> 'a list" where "only b x = (if b then [x] else [])"

text \<open>\<open>seq if isinstance(seq, int) else expected_seq\<close>: a boolean is an integer.\<close>

definition seq_number :: "json \<Rightarrow> int \<Rightarrow> int" where
  "seq_number v expected = (case v of JInt n \<Rightarrow> n | JBool b \<Rightarrow> (if b then 1 else 0) | _ \<Rightarrow> expected)"

definition chain_problems ::
  "(nat list \<Rightarrow> pystr) \<Rightarrow> (event \<Rightarrow> pystr list) \<Rightarrow> json \<Rightarrow> nat \<Rightarrow> event \<Rightarrow> verify_state \<Rightarrow> problem list" where
  "chain_problems sha errs session i ev st =
     (let seq = eget ev ''seq''; stored_prev = eget ev ''prev_hash'' in
      map (SchemaViolation i seq) (errs ev)
      @ only (\<not> py_eq (eget ev ''session_id'') session) (SessionDiffers i)
      @ only (v_ended st) (AfterEnd i)
      @ only (0 < i \<and> has_type ev ''session_start'') (DuplicateStart i)
      @ only (\<not> py_eq seq (JInt (v_seq st))) (WrongSeq i (v_seq st) seq)
      @ only (\<not> py_eq stored_prev (v_prev st)) (PrevHashMismatch i seq stored_prev (v_prev st))
      @ (case event_hash sha ev of
           Inr h \<Rightarrow> only (\<not> py_eq (eget ev ''event_hash'') (JStr h)) (EventHashMismatch i seq)
         | Inl e \<Rightarrow> [CannotHashEvent i e]))"

text \<open>The checks of a well-formed event against what came before it.\<close>

definition semantic_step ::
  "(nat list \<Rightarrow> pystr) \<Rightarrow> nat \<Rightarrow> event \<Rightarrow> verify_state \<Rightarrow> verify_state" where
  "semantic_step sha i ev st =
     (if has_type ev ''tool_definition'' then
        let tool = dict_items (eget ev ''tool''); def_hash = sget ev ''def_hash'' in
        st\<lparr>v_problems := v_problems st @ (case tool_hash sha tool of
              Inr h \<Rightarrow> only (h \<noteq> def_hash) (DefHashMismatch i)
            | Inl e \<Rightarrow> [CannotHashTool i e]),
           v_definitions := insert (sget ev ''server'', sget tool ''name'', def_hash) (v_definitions st)\<rparr>
      else if has_type ev ''tool_call'' then
        let call_id = sget ev ''call_id'' in
        st\<lparr>v_problems := v_problems st
             @ only ((sget ev ''server'', sget ev ''tool_name'', sget ev ''def_hash'') \<notin> v_definitions st)
                 (UnknownDefinition i)
             @ only (call_id \<in> v_calls st) (DuplicateCall i),
           v_calls := insert call_id (v_calls st)\<rparr>
      else if has_type ev ''tool_response'' then
        let call_id = sget ev ''call_id'' in
        st\<lparr>v_problems := v_problems st
             @ only (call_id \<notin> v_calls st) (UnknownCall i)
             @ only (call_id \<in> v_responses st) (DuplicateResponse i),
           v_responses := insert call_id (v_responses st)\<rparr>
      else st)"

definition verify_step ::
  "(nat list \<Rightarrow> pystr) \<Rightarrow> (event \<Rightarrow> pystr list) \<Rightarrow> json \<Rightarrow> verify_state \<Rightarrow> nat \<times> event \<Rightarrow> verify_state" where
  "verify_step sha errs session st p =
     (case p of (i, ev) \<Rightarrow>
        let st1 = st\<lparr>v_problems := v_problems st @ chain_problems sha errs session i ev st,
                     v_ended := (v_ended st \<or> has_type ev ''session_end''),
                     v_seq := seq_number (eget ev ''seq'') (v_seq st) + 1,
                     v_prev := eget ev ''event_hash''\<rparr>
        in if errs ev \<noteq> [] then st1 else semantic_step sha i ev st1)"

definition verify_run ::
  "(nat list \<Rightarrow> pystr) \<Rightarrow> (event \<Rightarrow> pystr list) \<Rightarrow> json \<Rightarrow> verify_state \<Rightarrow> nat \<Rightarrow> event list \<Rightarrow> verify_state" where
  "verify_run sha errs session st k evs =
     foldl (verify_step sha errs session) st (zip [k..<k + length evs] evs)"

definition verify :: "(nat list \<Rightarrow> pystr) \<Rightarrow> (event \<Rightarrow> pystr list) \<Rightarrow> json \<Rightarrow> event list \<Rightarrow> problem list" where
  "verify sha errs session evs =
     (case evs of
        [] \<Rightarrow> [EmptyRecording]
      | ev # rest \<Rightarrow>
          v_problems (verify_run sha errs session
            (verify_init (only (\<not> has_type ev ''session_start'') NoSessionStart)) 0 evs))"

section \<open>Loading\<close>

record tool_version =
  tv_server :: pystr
  tv_name :: pystr
  tv_tool :: "(pystr \<times> json) list"
  tv_def_hash :: pystr
  tv_seq :: json

record call_record =
  cl_call_id :: pystr
  cl_server :: pystr
  cl_tool_name :: pystr
  cl_def_hash :: pystr
  cl_args :: json
  cl_call_seq :: json
  cl_ok :: json
  cl_result :: json
  cl_error :: json
  cl_latency_ms :: json
  cl_response_seq :: json

record recording =
  rc_path :: pystr
  rc_session_id :: json
  rc_agent :: pystr
  rc_events :: "event list"
  rc_tools :: "((pystr \<times> pystr) \<times> tool_version list) list"
  rc_calls :: "call_record list"
  rc_integrity_problems :: "problem list"

definition latest_tool :: "recording \<Rightarrow> pystr \<Rightarrow> pystr \<Rightarrow> tool_version option" where
  "latest_tool r server name =
     (case map_of (rc_tools r) (server, name) of
        Some vs \<Rightarrow> if vs = [] then None else Some (last vs) | None \<Rightarrow> None)"

definition tool_keys :: "recording \<Rightarrow> (pystr \<times> pystr) list" where
  "tool_keys r = keys (rc_tools r)"

definition calls_for :: "recording \<Rightarrow> pystr \<Rightarrow> pystr \<Rightarrow> call_record list" where
  "calls_for r server name = filter (\<lambda>c. cl_server c = server \<and> cl_tool_name c = name) (rc_calls r)"

text \<open>\<open>calls_by_id\<close> and \<open>calls\<close> share the call records, which a response changes in place: the
  dictionary holds positions in the list.\<close>

record load_state =
  ld_agent :: pystr
  ld_tools :: "((pystr \<times> pystr) \<times> tool_version list) list"
  ld_calls_by_id :: "(pystr \<times> nat) list"
  ld_calls :: "call_record list"
  ld_problems :: "problem list"

definition new_call :: "event \<Rightarrow> call_record" where
  "new_call ev =
     \<lparr>cl_call_id = sget ev ''call_id'', cl_server = sget ev ''server'', cl_tool_name = sget ev ''tool_name'',
      cl_def_hash = sget ev ''def_hash'', cl_args = dict_get ev (S ''args'') (JDict []),
      cl_call_seq = eget ev ''seq'', cl_ok = JNull, cl_result = JNull, cl_error = JNull,
      cl_latency_ms = JNull, cl_response_seq = JNull\<rparr>"

definition index_event :: "load_state \<Rightarrow> event \<Rightarrow> load_state" where
  "index_event st ev =
     (if has_type ev ''session_start'' then st\<lparr>ld_agent := sget ev ''agent''\<rparr>
      else if has_type ev ''tool_definition'' then
        let server = sget ev ''server''; tool = dict_items (dict_get ev (S ''tool'') (JDict []));
            name = sget tool ''name'';
            v = \<lparr>tv_server = server, tv_name = name, tv_tool = tool, tv_def_hash = sget ev ''def_hash'',
                 tv_seq = eget ev ''seq''\<rparr>
        in st\<lparr>ld_tools := AList.update (server, name)
               ((case map_of (ld_tools st) (server, name) of Some vs \<Rightarrow> vs | None \<Rightarrow> []) @ [v]) (ld_tools st)\<rparr>
      else if has_type ev ''tool_call'' then
        st\<lparr>ld_calls_by_id := AList.update (sget ev ''call_id'') (length (ld_calls st)) (ld_calls_by_id st),
           ld_calls := ld_calls st @ [new_call ev]\<rparr>
      else if has_type ev ''tool_response'' then
        (case map_of (ld_calls_by_id st) (sget ev ''call_id'') of
           Some n \<Rightarrow> st\<lparr>ld_calls := (ld_calls st)[n := (ld_calls st ! n)
              \<lparr>cl_ok := eget ev ''ok'', cl_result := eget ev ''result'', cl_error := eget ev ''error'',
               cl_latency_ms := eget ev ''latency_ms'', cl_response_seq := eget ev ''seq''\<rparr>]\<rparr>
         | None \<Rightarrow> st\<lparr>ld_problems := ld_problems st @ [OrphanResponse (eget ev ''call_id'')]\<rparr>)
      else st)"

text \<open>A line: its number and the outcome of \<open>json.loads\<close>, which is a \<open>JSONDecodeError\<close> with its message
  or any other exception (\<open>ValueError\<close> for an integer of too many digits, \<open>RecursionError\<close>); the other
  ones are not caught.\<close>

datatype json_failure = DecodeError pystr | OtherError pyexc

type_synonym line = "nat \<times> (json_failure + json)"

definition validate_jsonl_line :: "line \<Rightarrow> pyexc + problem + event" where
  "validate_jsonl_line l =
     (case l of
        (n, Inl (DecodeError msg)) \<Rightarrow> Inr (Inl (NotJson n msg))
      | (n, Inl (OtherError e)) \<Rightarrow> Inl e
      | (n, Inr (JDict d)) \<Rightarrow> Inr (Inr d)
      | (n, Inr v) \<Rightarrow> Inr (Inl (NotObject n)))"

datatype load_error = IntegrityError "problem list" | LoadRaised pyexc

definition load ::
  "(nat list \<Rightarrow> pystr) \<Rightarrow> (event \<Rightarrow> pystr list) \<Rightarrow> pystr \<Rightarrow> line list \<Rightarrow> bool \<Rightarrow> load_error + recording" where
  "load sha errs path lines strict =
     (case mapE validate_jsonl_line lines of Inl e \<Rightarrow> Inl (LoadRaised e) | Inr parsed \<Rightarrow>
      let events = List.map_filter (\<lambda>p. case p of Inr ev \<Rightarrow> Some ev | Inl e \<Rightarrow> None) parsed;
          problems = List.map_filter (\<lambda>p. case p of Inr ev \<Rightarrow> None | Inl e \<Rightarrow> Some e) parsed;
          session_id = (case events of [] \<Rightarrow> JStr [] | ev # rest \<Rightarrow> dict_get ev (S ''session_id'') (JStr []));
          st = foldl index_event \<lparr>ld_agent = [], ld_tools = [], ld_calls_by_id = [], ld_calls = [],
                 ld_problems = problems\<rparr> (filter (\<lambda>ev. errs ev = []) events);
          all_problems = ld_problems st @ verify sha errs session_id events;
          rec = \<lparr>rc_path = path, rc_session_id = session_id, rc_agent = ld_agent st, rc_events = events,
                 rc_tools = ld_tools st, rc_calls = ld_calls st, rc_integrity_problems = all_problems\<rparr>
      in if strict \<and> all_problems \<noteq> [] then Inl (IntegrityError all_problems) else Inr rec)"

section \<open>The schema\<close>

text \<open>\<open>_is_rfc3339_date_time\<close>: the regular expression, then the ranges of
  \<open>datetime.fromisoformat\<close>, which takes ASCII digits only.\<close>

definition is_digit_char :: "nat \<Rightarrow> bool" where "is_digit_char c \<longleftrightarrow> 48 \<le> c \<and> c \<le> 57"

definition num2 :: "pystr \<Rightarrow> nat option" where
  "num2 s = (if s \<noteq> [] \<and> list_all is_digit_char s then Some (foldl (\<lambda>n c. 10 * n + (c - 48)) 0 s) else None)"

definition days_in_month :: "nat \<Rightarrow> nat \<Rightarrow> nat" where
  "days_in_month y m =
     (if m = 2 then (if y mod 4 = 0 \<and> (y mod 100 \<noteq> 0 \<or> y mod 400 = 0) then 29 else 28)
      else if m \<in> {4, 6, 9, 11} then 30 else 31)"

definition offset_ok :: "pystr \<Rightarrow> bool" where
  "offset_ok z \<longleftrightarrow> z = S ''Z'' \<or>
     (length z = 6 \<and> (take 1 z = S ''+'' \<or> take 1 z = S ''-'') \<and> take 1 (drop 3 z) = S '':'' \<and>
      (case (num2 (take 2 (drop 1 z)), num2 (drop 4 z)) of (Some h, Some m) \<Rightarrow> h < 24 \<and> m < 60 | _ \<Rightarrow> False))"

definition is_rfc3339_date_time :: "pystr \<Rightarrow> bool" where
  "is_rfc3339_date_time s \<longleftrightarrow>
     take 1 (drop 4 s) = S ''-'' \<and> take 1 (drop 7 s) = S ''-'' \<and> take 1 (drop 10 s) = S ''T'' \<and>
     take 1 (drop 13 s) = S '':'' \<and> take 1 (drop 16 s) = S '':'' \<and>
     (case (num2 (take 4 s), num2 (take 2 (drop 5 s)), num2 (take 2 (drop 8 s)), num2 (take 2 (drop 11 s)),
            num2 (take 2 (drop 14 s)), num2 (take 2 (drop 17 s))) of
        (Some y, Some mo, Some d, Some h, Some mi, Some sec) \<Rightarrow>
          1 \<le> y \<and> 1 \<le> mo \<and> mo \<le> 12 \<and> 1 \<le> d \<and> d \<le> days_in_month y mo \<and> h < 24 \<and> mi < 60 \<and> sec < 60
      | _ \<Rightarrow> False) \<and>
     (let r = drop 19 s in
      offset_ok r \<or> (take 1 r = S ''.'' \<and> takeWhile is_digit_char (drop 1 r) \<noteq> [] \<and>
        offset_ok (dropWhile is_digit_char (drop 1 r))))"

definition hash_ok :: "json \<Rightarrow> bool" where
  "hash_ok v \<longleftrightarrow> (case v of JStr s \<Rightarrow> hash_re_match s | _ \<Rightarrow> False)"

text \<open>\<open>type: integer\<close> takes a float without fraction; a boolean is no number.\<close>

definition is_number :: "json \<Rightarrow> bool" where
  "is_number v \<longleftrightarrow> (case v of JInt n \<Rightarrow> True | JFloat x \<Rightarrow> True | _ \<Rightarrow> False)"

definition at_least_0 :: "json \<Rightarrow> bool" where
  "at_least_0 v \<longleftrightarrow> is_number v \<and> (case numval v of Some x \<Rightarrow> \<not> num_less x (Rat 0) | None \<Rightarrow> False)"

definition is_integer :: "json \<Rightarrow> bool" where
  "is_integer v \<longleftrightarrow> (case v of JInt n \<Rightarrow> True
     | JFloat x \<Rightarrow> (case numval v of Some (Rat q) \<Rightarrow> q = of_int \<lfloor>q\<rfloor> | _ \<Rightarrow> False) | _ \<Rightarrow> False)"

definition present :: "event \<Rightarrow> string \<Rightarrow> (json \<Rightarrow> bool) \<Rightarrow> bool" where
  "present d k P \<longleftrightarrow> (case map_of d (S k) of Some v \<Rightarrow> P v | None \<Rightarrow> False)"

definition optional :: "event \<Rightarrow> string \<Rightarrow> (json \<Rightarrow> bool) \<Rightarrow> bool" where
  "optional d k P \<longleftrightarrow> (case map_of d (S k) of Some v \<Rightarrow> P v | None \<Rightarrow> True)"

definition one_of_strs :: "string list \<Rightarrow> json \<Rightarrow> bool" where
  "one_of_strs ss v \<longleftrightarrow> v \<in> (JStr \<circ> S) ` set ss"

definition tool_ok :: "json \<Rightarrow> bool" where
  "tool_ok v \<longleftrightarrow> (case v of
     JDict t \<Rightarrow> present t ''name'' is_str \<and> present t ''inputSchema'' is_dict \<and> optional t ''description'' is_str
       \<and> optional t ''outputSchema'' is_dict \<and> optional t ''annotations'' is_dict
   | _ \<Rightarrow> False)"

definition finding_ok :: "json \<Rightarrow> bool" where
  "finding_ok v \<longleftrightarrow> (case v of
     JDict f \<Rightarrow> present f ''severity'' (one_of_strs [''BREAKING'', ''SECURITY'', ''WARN'', ''INFO''])
       \<and> present f ''rule_id'' is_str \<and> present f ''path'' is_str \<and> present f ''message'' is_str
       \<and> optional f ''tool'' is_str
   | _ \<Rightarrow> False)"

definition payload_ok :: "event \<Rightarrow> bool" where
  "payload_ok ev \<longleftrightarrow>
     (has_type ev ''session_start'' \<longrightarrow> present ev ''agent'' is_str \<and> optional ev ''meta'' is_dict) \<and>
     (has_type ev ''tool_definition'' \<longrightarrow>
        present ev ''server'' is_str \<and> present ev ''tool'' tool_ok \<and> present ev ''def_hash'' hash_ok) \<and>
     (has_type ev ''tool_call'' \<longrightarrow>
        present ev ''call_id'' is_str \<and> present ev ''server'' is_str \<and> present ev ''tool_name'' is_str
        \<and> present ev ''def_hash'' hash_ok \<and> present ev ''args'' is_dict) \<and>
     (has_type ev ''tool_response'' \<longrightarrow>
        present ev ''call_id'' is_str \<and> present ev ''ok'' (\<lambda>v. v \<in> {JBool True, JBool False})
        \<and> present ev ''latency_ms'' at_least_0
        \<and> optional ev ''error'' (\<lambda>v. case v of JDict e \<Rightarrow> present e ''message'' is_str | _ \<Rightarrow> False)) \<and>
     (has_type ev ''policy_decision'' \<longrightarrow>
        present ev ''server'' is_str \<and> present ev ''tool_name'' is_str \<and> optional ev ''call_id'' is_str
        \<and> present ev ''action'' (one_of_strs [''allow'', ''warn'', ''block'', ''quarantine''])
        \<and> present ev ''reason'' is_str
        \<and> optional ev ''findings'' (\<lambda>v. case v of JList fs \<Rightarrow> list_all finding_ok fs | _ \<Rightarrow> False)) \<and>
     (has_type ev ''session_end'' \<longrightarrow>
        present ev ''reason'' (one_of_strs [''completed'', ''aborted'', ''error'', ''policy'']))"

definition event_ok :: "event \<Rightarrow> bool" where
  "event_ok ev \<longleftrightarrow>
     present ev ''v'' (\<lambda>v. is_number v \<and> py_eq v (JInt 1)) \<and>
     present ev ''seq'' (\<lambda>v. is_integer v \<and> at_least_0 v) \<and>
     present ev ''ts'' (\<lambda>v. case v of JStr s \<Rightarrow> is_rfc3339_date_time s | _ \<Rightarrow> False) \<and>
     present ev ''session_id'' (\<lambda>v. case v of JStr s \<Rightarrow> s \<noteq> [] | _ \<Rightarrow> False) \<and>
     present ev ''type'' (one_of_strs [''session_start'', ''tool_definition'', ''tool_call'',
       ''tool_response'', ''policy_decision'', ''session_end'']) \<and>
     optional ev ''prev_hash'' (\<lambda>v. v = JNull \<or> hash_ok v) \<and>
     optional ev ''event_hash'' hash_ok \<and> payload_ok ev"

text \<open>What the validator is documented to do with this schema.\<close>

definition validates :: "(event \<Rightarrow> pystr list) \<Rightarrow> bool" where
  "validates errs \<longleftrightarrow> (\<forall>ev. errs ev = [] \<longleftrightarrow> event_ok ev)"

end
