(* ===== verification/Recorder.thy ===== *)
theory Recorder
  imports Recording
begin

text \<open>
  The recorder (\<open>harness/recorder.py\<close>) and its MCP adapter (\<open>harness/adapters/mcp.py\<close>). The
  state holds the sequence number, the hash of the last event, the definitions in force and what
  was written. The clock, the call ids, SHA-256 and the redaction are the environment; the
  outcome of the called function and the measured latency are arguments. What was changed before
  an exception stays changed, as in the code.
\<close>

record env =
  e_sha :: "nat list \<Rightarrow> pystr"
  e_clock :: "nat \<Rightarrow> pystr"
  e_ids :: "nat \<Rightarrow> pystr"
  e_redact :: "json \<Rightarrow> json"

record recorder =
  re_session :: pystr
  re_agent :: pystr
  re_meta :: "json option"
  re_seq :: nat
  re_prev :: json
  re_defs :: "((pystr \<times> json) \<times> (pystr \<times> event)) list"
  re_ids :: nat
  re_ticks :: nat
  re_events :: "event list"
  re_text :: pystr

definition recorder_init :: "pystr \<Rightarrow> pystr \<Rightarrow> json option \<Rightarrow> recorder" where
  "recorder_init session agent meta =
     \<lparr>re_session = session, re_agent = agent, re_meta = meta, re_seq = 0, re_prev = JNull, re_defs = [],
      re_ids = 0, re_ticks = 0, re_events = [], re_text = []\<rparr>"

type_synonym 'a rec_op = "recorder \<Rightarrow> (pyexc + 'a) \<times> recorder"

section \<open>Emission\<close>

definition base_event :: "env \<Rightarrow> string \<Rightarrow> recorder \<Rightarrow> event" where
  "base_event E kd st =
     [(S ''v'', JInt 1), (S ''seq'', JInt (int (re_seq st))), (S ''ts'', JStr (e_clock E (re_ticks st))),
      (S ''session_id'', JStr (re_session st)), (S ''type'', JStr (S kd)), (S ''prev_hash'', re_prev st)]"

text \<open>\<open>_emit\<close>: hash, write, and only then advance.\<close>

definition emit :: "env \<Rightarrow> string \<Rightarrow> event \<Rightarrow> event rec_op" where
  "emit E kd flds st =
     (let ev = dict_merge (base_event E kd st) flds; st1 = st\<lparr>re_ticks := Suc (re_ticks st)\<rparr> in
      case event_hash (e_sha E) ev of
        Inl e \<Rightarrow> (Inl e, st1)
      | Inr h \<Rightarrow>
          let ev' = AList.update (S ''event_hash'') (JStr h) ev in
          (case canonical_json (JDict ev') of
             Inl e \<Rightarrow> (Inl e, st1)
           | Inr t \<Rightarrow> (Inr ev', st1\<lparr>re_seq := Suc (re_seq st), re_prev := JStr h,
               re_events := re_events st @ [ev'], re_text := re_text st @ t @ [10]\<rparr>)))"

definition enter :: "env \<Rightarrow> unit rec_op" where
  "enter E = bindS (getS (\<lambda>st. (S ''agent'', JStr (re_agent st))
        # (case re_meta st of Some m \<Rightarrow> [(S ''meta'', m)] | None \<Rightarrow> [])))
     (\<lambda>flds. bindS (emit E ''session_start'' flds) (\<lambda>_. returnS ()))"

definition leave :: "env \<Rightarrow> bool \<Rightarrow> unit rec_op" where
  "leave E failed = bindS (emit E ''session_end''
       [(S ''reason'', JStr (if failed then S ''error'' else S ''completed''))]) (\<lambda>_. returnS ())"

section \<open>Definitions\<close>

text \<open>A tuple with a list or a dictionary in it cannot be a dictionary key.\<close>

definition record_definition :: "env \<Rightarrow> pystr \<Rightarrow> event \<Rightarrow> unit rec_op" where
  "record_definition E server tool =
     bindS (liftS (case map_of tool (S ''name'') of
              None \<Rightarrow> Inl KeyError | Some name \<Rightarrow> Inr name)) (\<lambda>name.
     bindS (liftS (tool_hash (e_sha E) tool)) (\<lambda>h.
     bindS (liftS (if is_dict name \<or> is_list name then Inl TypeError else Inr ())) (\<lambda>_.
     bindS (getS (\<lambda>st. map_of (re_defs st) (server, name))) (\<lambda>prior.
     if map_option fst prior = Some h then returnS ()
     else
       bindS (modifyS (\<lambda>st. st\<lparr>re_defs := AList.update (server, name) (h, tool) (re_defs st)\<rparr>)) (\<lambda>_.
       bindS (emit E ''tool_definition''
          [(S ''server'', JStr server), (S ''tool'', JDict tool), (S ''def_hash'', JStr h)]) (\<lambda>_. returnS ()))))))"

definition record_definitions :: "env \<Rightarrow> pystr \<Rightarrow> event list \<Rightarrow> unit rec_op" where
  "record_definitions E server tools = forS (record_definition E server) tools"

definition def_hash_for :: "env \<Rightarrow> pystr \<Rightarrow> json \<Rightarrow> event option \<Rightarrow> pystr rec_op" where
  "def_hash_for E server name tool_def =
     bindS (getS (\<lambda>st. map_of (re_defs st) (server, name))) (\<lambda>prior.
       case prior of
         Some (h, tool) \<Rightarrow> returnS h
       | None \<Rightarrow>
           (case tool_def of
              None \<Rightarrow> raiseS KeyError
            | Some d \<Rightarrow>
                bindS (record_definitions E server [d]) (\<lambda>_.
                bindS (getS (\<lambda>st. map_of (re_defs st) (server, name))) (\<lambda>r.
                  liftS (case r of Some (h, tool) \<Rightarrow> Inr h | None \<Rightarrow> Inl KeyError)))))"

definition ensure_def_hash :: "env \<Rightarrow> pystr \<Rightarrow> json \<Rightarrow> pystr rec_op" where
  "ensure_def_hash E server name = def_hash_for E server name None"

section \<open>Calls\<close>

definition emit_call :: "env \<Rightarrow> pystr \<Rightarrow> json \<Rightarrow> pystr \<Rightarrow> json \<Rightarrow> pystr rec_op" where
  "emit_call E server name def_hash args =
     bindS (getS (\<lambda>st. e_ids E (re_ids st))) (\<lambda>call_id.
     bindS (modifyS (\<lambda>st. st\<lparr>re_ids := Suc (re_ids st)\<rparr>)) (\<lambda>_.
     bindS (emit E ''tool_call''
        [(S ''call_id'', JStr call_id), (S ''server'', JStr server), (S ''tool_name'', name),
         (S ''def_hash'', JStr def_hash), (S ''args'', e_redact E args)]) (\<lambda>_. returnS call_id)))"

definition emit_ok_response :: "env \<Rightarrow> pystr \<Rightarrow> json \<Rightarrow> json \<Rightarrow> unit rec_op" where
  "emit_ok_response E call_id result latency_ms =
     bindS (emit E ''tool_response''
        [(S ''call_id'', JStr call_id), (S ''ok'', JBool True), (S ''result'', e_redact E result),
         (S ''latency_ms'', latency_ms)]) (\<lambda>_. returnS ())"

text \<open>An exception of the called function: the name of its class and its message.\<close>

type_synonym failure = "pystr \<times> pystr"

definition emit_error_response :: "env \<Rightarrow> pystr \<Rightarrow> failure \<Rightarrow> json \<Rightarrow> unit rec_op" where
  "emit_error_response E call_id exc latency_ms =
     bindS (emit E ''tool_response''
        [(S ''call_id'', JStr call_id), (S ''ok'', JBool False),
         (S ''error'', JDict [(S ''code'', JStr (fst exc)), (S ''message'', JStr (snd exc))]),
         (S ''latency_ms'', latency_ms)]) (\<lambda>_. returnS ())"

text \<open>\<open>call\<close>: the outcome of the function is passed on after it has been recorded.\<close>

definition call :: "env \<Rightarrow> pystr \<Rightarrow> json \<Rightarrow> json \<Rightarrow> (json \<Rightarrow> failure + json) \<Rightarrow> json \<Rightarrow> event option \<Rightarrow>
    (failure + json) rec_op" where
  "call E server name args fn latency_ms tool_def =
     bindS (def_hash_for E server name tool_def) (\<lambda>def_hash.
     bindS (emit_call E server name def_hash args) (\<lambda>call_id.
       case fn args of
         Inl exc \<Rightarrow> bindS (emit_error_response E call_id exc latency_ms) (\<lambda>_. returnS (Inl exc))
       | Inr result \<Rightarrow> bindS (emit_ok_response E call_id result latency_ms) (\<lambda>_. returnS (Inr result))))"

text \<open>\<open>wrap\<close> makes sure that a definition is on record; the wrapped function is \<open>call\<close>.\<close>

definition wrap :: "env \<Rightarrow> pystr \<Rightarrow> event \<Rightarrow> json rec_op" where
  "wrap E server tool_def =
     bindS (liftS (case map_of tool_def (S ''name'') of None \<Rightarrow> Inl KeyError | Some n \<Rightarrow> Inr n)) (\<lambda>name.
     bindS (def_hash_for E server name (Some tool_def)) (\<lambda>_. returnS name))"

text \<open>The definition that the decorator \<open>tool\<close> wraps.\<close>

definition decorated_tool :: "pystr \<Rightarrow> pystr \<Rightarrow> json option \<Rightarrow> json option \<Rightarrow> json option \<Rightarrow> event" where
  "decorated_tool name description input_schema output_schema annotations =
     [(S ''name'', JStr name), (S ''description'', JStr description),
      (S ''inputSchema'', case input_schema of Some s \<Rightarrow> s
         | None \<Rightarrow> JDict [(S ''type'', JStr (S ''object'')), (S ''properties'', JDict [])])]
     @ (case output_schema of Some s \<Rightarrow> [(S ''outputSchema'', s)] | None \<Rightarrow> [])
     @ (case annotations of Some a \<Rightarrow> [(S ''annotations'', a)] | None \<Rightarrow> [])"

definition policy_decision ::
  "env \<Rightarrow> pystr \<Rightarrow> pystr \<Rightarrow> pystr \<Rightarrow> pystr \<Rightarrow> pystr option \<Rightarrow> json option \<Rightarrow> unit rec_op" where
  "policy_decision E server tool_name action reason call_id findings =
     bindS (emit E ''policy_decision''
        ([(S ''server'', JStr server), (S ''tool_name'', JStr tool_name), (S ''action'', JStr action),
          (S ''reason'', JStr reason)]
         @ (case call_id of Some c \<Rightarrow> [(S ''call_id'', JStr c)] | None \<Rightarrow> [])
         @ (case findings of Some f \<Rightarrow> [(S ''findings'', f)] | None \<Rightarrow> []))) (\<lambda>_. returnS ())"

section \<open>The MCP adapter\<close>

text \<open>\<open>_tool_to_dict\<close> of a model, given as its dump without the flds that are null.\<close>

definition tool_to_dict :: "event \<Rightarrow> pyexc + event" where
  "tool_to_dict d =
     (case map_of d (S ''name'') of
        None \<Rightarrow> Inl KeyError
      | Some name \<Rightarrow> Inr
          ([(S ''name'', name), (S ''description'', dict_get d (S ''description'') (JStr [])),
            (S ''inputSchema'', dict_get d (S ''inputSchema'') (JDict []))]
           @ (case map_of d (S ''outputSchema'') of Some v \<Rightarrow> [(S ''outputSchema'', v)] | None \<Rightarrow> [])
           @ (if eget d ''annotations'' \<noteq> JNull then [(S ''annotations'', eget d ''annotations'')] else [])))"

definition session_list_tools :: "env \<Rightarrow> pystr \<Rightarrow> event list \<Rightarrow> unit rec_op" where
  "session_list_tools E server dumps =
     bindS (liftS (mapE tool_to_dict dumps)) (\<lambda>tools. record_definitions E server tools)"

definition session_call_tool ::
  "env \<Rightarrow> pystr \<Rightarrow> json \<Rightarrow> json option \<Rightarrow> (json \<Rightarrow> failure + json) \<Rightarrow> json \<Rightarrow> (failure + json) rec_op" where
  "session_call_tool E server name arguments fn latency_ms =
     (let args = (case arguments of Some a \<Rightarrow> if truthy a then a else JDict [] | None \<Rightarrow> JDict []) in
      bindS (ensure_def_hash E server name) (\<lambda>def_hash.
      bindS (emit_call E server name def_hash args) (\<lambda>call_id.
        case fn args of
          Inl exc \<Rightarrow> bindS (emit_error_response E call_id exc latency_ms) (\<lambda>_. returnS (Inl exc))
        | Inr result \<Rightarrow> bindS (emit_ok_response E call_id result latency_ms) (\<lambda>_. returnS (Inr result)))))"

section \<open>Sessions\<close>

datatype rec_call =
    Definitions pystr "event list"
  | Call pystr json json "failure + json" json "event option"
  | Decision pystr pystr pystr pystr "pystr option" "json option"
  | McpList pystr "event list"
  | McpCall pystr json "json option" "failure + json" json

fun do_call :: "env \<Rightarrow> rec_call \<Rightarrow> unit rec_op" where
  "do_call E (Definitions server tools) = record_definitions E server tools"
| "do_call E (Call server name args out ms tool_def) =
     bindS (call E server name args (\<lambda>_. out) ms tool_def) (\<lambda>_. returnS ())"
| "do_call E (Decision server tool action reason call_id findings) =
     policy_decision E server tool action reason call_id findings"
| "do_call E (McpList server dumps) = session_list_tools E server dumps"
| "do_call E (McpCall server name args out ms) =
     bindS (session_call_tool E server name args (\<lambda>_. out) ms) (\<lambda>_. returnS ())"

text \<open>The \<open>with\<close> block. An exception of the recorder ends the body; \<open>__exit__\<close> runs in either case and writes
  the reason \<open>error\<close> after an exception. \<open>failed\<close>: the body raises one of its own after these calls.\<close>

definition session :: "env \<Rightarrow> rec_call list \<Rightarrow> bool \<Rightarrow> unit rec_op" where
  "session E ops failed st =
     (case enter E st of
        (Inl e, st1) \<Rightarrow> (Inl e, st1)
      | (Inr _, st1) \<Rightarrow>
          let (r, st2) = forS (do_call E) ops st1 in
          (case leave E (failed \<or> isl r) st2 of
             (Inl e, st3) \<Rightarrow> (Inl e, st3)
           | (Inr _, st3) \<Rightarrow> (r, st3)))"

end
