(* ===== verification/Recording_Facts.thy ===== *)
theory Recording_Facts
  imports Recording
begin

text \<open>
  The hash chain: a recording that verifies is linked event by event, and its last hash commits
  to the whole history. Also here: small integers are exact as doubles, which the comparison of
  sequence numbers needs.
\<close>

declare dict_get.simps [simp del]

section \<open>Small integers as doubles\<close>

lemma round_int: "round_half_even (of_int n) = n"
  by (simp add: round_half_even_def)

lemma bitlen_ge1: "0 < n \<Longrightarrow> 0 \<le> bitlen n - 1"
proof -
  assume n: "0 < n"
  have "bitlen n \<noteq> 0" using bitlen_bounds[OF n] n by auto
  with bitlen_nonneg[of n] show ?thesis by linarith
qed

lemma ilog2_int: "0 < n \<Longrightarrow> ilog2 (of_int n) = bitlen n - 1"
proof -
  assume n: "0 < n"
  have "2 ^ nat (bitlen n - 1) \<le> n" using bitlen_bounds[OF n] by simp
  then have "(2 :: rat) ^ nat (bitlen n - 1) \<le> of_int n" by (metis of_int_le_iff of_int_numeral of_int_power)
  moreover have "0 \<le> bitlen n - 1" by (rule bitlen_ge1[OF n])
  ultimately have "(2 :: rat) powi (bitlen n - 1) \<le> of_int n" by (simp add: power_int_def)
  moreover have "bitlen (1 :: int) = 1" by (simp add: bitlen_alt_def floorlog_def)
  ultimately show ?thesis by (simp add: ilog2_def Let_def)
qed

lemma dbl_int:
  assumes "\<bar>n\<bar> \<le> 2 ^ 53"
  shows "dbl (of_int n) = of_int n"
proof (cases "n = 0")
  case False
  define m where "m = \<bar>n\<bar>"
  have m: "0 < m" "m \<le> 2 ^ 53" using False assms by (simp_all add: m_def)
  have l: "bitlen m - 1 \<le> 53"
  proof (rule ccontr)
    assume "\<not> bitlen m - 1 \<le> 53"
    then have "(2 :: int) ^ 54 \<le> 2 ^ nat (bitlen m - 1)" by (intro power_increasing) simp_all
    also have "\<dots> \<le> m" using bitlen_bounds[OF m(1)] by simp
    finally show False using m(2) by simp
  qed
  have l0: "0 \<le> bitlen m - 1" by (rule bitlen_ge1[OF m(1)])
  define u where "u = (2 :: rat) powi (max (ilog2 (of_int m)) (- 1022) - 52)"
  have u: "u = 2 powi (bitlen m - 53)" using l0 by (simp add: u_def ilog2_int[OF m(1)] max_def)
  obtain k :: int where k: "of_int m / u = of_int k"
  proof (cases "bitlen m \<le> 53")
    case True
    then have "u = inverse (2 ^ nat (53 - bitlen m))"
      unfolding u by (simp add: power_int_def) (simp add: power_one_over inverse_eq_divide)
    then have "of_int m / u = of_int (m * 2 ^ nat (53 - bitlen m))" by (simp only: divide_inverse inverse_inverse_eq of_int_mult of_int_power of_int_numeral)
    then show ?thesis using that by blast
  next
    case False
    with l have "bitlen m = 54" by simp
    then have "u = 2" "2 ^ 53 \<le> m" using bitlen_bounds[OF m(1)] unfolding u by simp_all
    with m(2) have "of_int m / u = of_int (2 ^ 52)" by simp
    then show ?thesis using that by blast
  qed
  have u0: "u \<noteq> 0" by (simp add: u)
  have "\<bar>of_int n :: rat\<bar> = of_int m" by (simp add: m_def)
  then have "dbl (of_int n) = sgn (of_int n) * (of_int k * u)"
    using False k by (simp add: dbl_def Let_def u_def round_int)
  also have "of_int k * u = of_int m" using k u0 by (simp add: field_simps)
  also have "sgn (of_int n) * of_int m = (of_int n :: rat)" by (simp add: m_def sgn_mult_abs)
  finally show ?thesis .
qed (simp add: dbl_def)

section \<open>Looking into equal objects\<close>

lemma same_value_keys:
  assumes "same_value (JDict d) (JDict e)" "wf_dict d" "wf_dict e"
  shows "set (keys d) = set (keys e)"
proof (rule wf_dict_same_keys)
  show "set (keys d) \<subseteq> set (keys e)"
    using assms(1) by (force simp: list_all_iff split: option.splits dest: map_of_SomeD)
qed (use assms in auto)

lemma same_value_get:
  assumes "same_value (JDict d) (JDict e)" "wf_dict d" "wf_dict e"
  shows "same_value (dict_get d k JNull) (dict_get e k JNull)"
proof (cases "map_of d k")
  case None
  then have "map_of e k = None" using same_value_keys[OF assms] by (simp add: map_of_eq_None_keys)
  with None show ?thesis by (simp add: dict_get.simps)
next
  case (Some v)
  then have "(k, v) \<in> set d" by (rule map_of_SomeD)
  with assms(1) obtain w where "map_of e k = Some w" "same_value v w"
    by (fastforce simp: list_all_iff split: option.splits)
  with Some show ?thesis by (simp add: dict_get.simps)
qed

section \<open>A verified recording is a chain\<close>

lemma only_Nil [simp]: "only b x = [] \<longleftrightarrow> \<not> b"
  by (simp add: only_def)

lemma py_eq_JStr [simp]: "py_eq v (JStr s) \<longleftrightarrow> v = JStr s"
  by (cases v) (auto split: option.splits)

lemma py_eq_JNull [simp]: "py_eq v JNull \<longleftrightarrow> v = JNull"
  by (cases v) (auto split: option.splits)

fun linked :: "(nat list \<Rightarrow> pystr) \<Rightarrow> json \<Rightarrow> nat \<Rightarrow> event list \<Rightarrow> bool" where
  "linked sha p n [] \<longleftrightarrow> True"
| "linked sha p n (ev # evs) \<longleftrightarrow>
     py_eq (eget ev ''seq'') (JInt (int n)) \<and> py_eq (eget ev ''prev_hash'') p \<and>
     (\<exists>h. event_hash sha ev = Inr h \<and> eget ev ''event_hash'' = JStr h) \<and>
     linked sha (eget ev ''event_hash'') (Suc n) evs"

lemma linked_snoc:
  "linked sha p n (evs @ [ev]) \<longleftrightarrow> linked sha p n evs \<and>
     py_eq (eget ev ''seq'') (JInt (int (n + length evs))) \<and>
     py_eq (eget ev ''prev_hash'') (if evs = [] then p else eget (last evs) ''event_hash'') \<and>
     (\<exists>h. event_hash sha ev = Inr h \<and> eget ev ''event_hash'' = JStr h)"
  by (induction evs arbitrary: p n) (auto simp: ac_simps)

lemma semantic_step_same [simp]:
  "v_prev (semantic_step sha i ev st) = v_prev st" "v_seq (semantic_step sha i ev st) = v_seq st"
  "v_ended (semantic_step sha i ev st) = v_ended st"
  by (simp_all add: semantic_step_def Let_def)

lemma semantic_step_grows: "\<exists>ps. v_problems (semantic_step sha i ev st) = v_problems st @ ps"
  by (auto simp: semantic_step_def Let_def)

lemma verify_step_grows:
  "\<exists>ps. v_problems (verify_step sha errs session st (i, ev)) =
     v_problems st @ chain_problems sha errs session i ev st @ ps"
proof -
  let ?st = "st\<lparr>v_problems := v_problems st @ chain_problems sha errs session i ev st,
     v_ended := (v_ended st \<or> has_type ev ''session_end''),
     v_seq := seq_number (eget ev ''seq'') (v_seq st) + 1, v_prev := eget ev ''event_hash''\<rparr>"
  obtain ps where "v_problems (semantic_step sha i ev ?st) = v_problems ?st @ ps"
    using semantic_step_grows by blast
  then show ?thesis by (simp add: verify_step_def Let_def)
qed

lemma verify_run_Cons:
  "verify_run sha errs session st k (ev # evs) =
     verify_run sha errs session (verify_step sha errs session st (k, ev)) (Suc k) evs"
proof -
  have "[k..<k + length (ev # evs)] = k # [Suc k..<Suc k + length evs]"
    using upt_conv_Cons[of k "k + length (ev # evs)"] by simp
  then show ?thesis by (simp only: verify_run_def zip_Cons_Cons foldl_Cons)
qed

lemma verify_run_snoc:
  "verify_run sha errs session st k (evs @ [ev]) =
     verify_step sha errs session (verify_run sha errs session st k evs) (k + length evs, ev)"
  by (simp add: verify_run_def)

lemma verify_run_grows: "\<exists>ps. v_problems (verify_run sha errs session st k evs) = v_problems st @ ps"
proof (induction evs arbitrary: st k)
  case Nil
  show ?case by (simp add: verify_run_def)
next
  case (Cons ev evs)
  from Cons.IH[of "verify_step sha errs session st (k, ev)" "Suc k"] verify_step_grows[of sha errs session st k ev]
  show ?case by (auto simp: verify_run_Cons)
qed

lemma seq_number_eq: "py_eq v (JInt n) \<Longrightarrow> seq_number v n = n"
  by (cases v) (auto simp: seq_number_def split: if_splits)

lemma verify_run_linked:
  assumes "v_problems (verify_run sha errs session st k evs) = []" "v_seq st = int n"
  shows "linked sha (v_prev st) n evs"
  using assms
proof (induction evs arbitrary: st k n)
  case (Cons ev evs)
  let ?st = "verify_step sha errs session st (k, ev)"
  have "v_problems ?st = []"
    using Cons.prems(1) verify_run_grows[of sha errs session ?st "Suc k" evs] by (auto simp: verify_run_Cons)
  then have c: "chain_problems sha errs session k ev st = []"
    using verify_step_grows[of sha errs session st k ev] by auto
  then have ev: "py_eq (eget ev ''seq'') (JInt (int n))" "py_eq (eget ev ''prev_hash'') (v_prev st)"
      "\<exists>h. event_hash sha ev = Inr h \<and> eget ev ''event_hash'' = JStr h"
    using Cons.prems(2) by (auto simp: chain_problems_def Let_def split: sum.splits)
  have "v_prev ?st = eget ev ''event_hash''" "v_seq ?st = int (Suc n)"
    using seq_number_eq[OF ev(1)] Cons.prems(2) by (simp_all add: verify_step_def Let_def)
  with Cons.IH[of ?st "Suc k" "Suc n"] Cons.prems(1) ev show ?case by (simp add: verify_run_Cons)
qed simp

lemma verify_linked:
  assumes "verify sha errs session evs = []"
  shows "evs \<noteq> [] \<and> linked sha JNull 0 evs"
proof (cases evs)
  case (Cons ev rest)
  let ?init = "verify_init (only (\<not> has_type ev ''session_start'') NoSessionStart)"
  have "v_problems (verify_run sha errs session ?init 0 evs) = []"
    using assms Cons by (simp add: verify_def)
  from verify_run_linked[OF this, of 0] Cons show ?thesis by (simp add: verify_init_def)
qed (use assms in \<open>simp add: verify_def\<close>)

section \<open>The head commits to the history\<close>

abbreviation strip_hash :: "event \<Rightarrow> event" where
  "strip_hash ev \<equiv> filter (\<lambda>(k, v). k \<noteq> S ''event_hash'') ev"

text \<open>The texts that are hashed.\<close>

definition hashed_texts :: "event list \<Rightarrow> nat list set" where
  "hashed_texts evs = {utf8 t | ev t. ev \<in> set evs \<and> canonical_json (JDict (strip_hash ev)) = Inr t}"

lemma hashed_textsI: "ev \<in> set evs \<Longrightarrow> canonical_json (JDict (strip_hash ev)) = Inr t \<Longrightarrow> utf8 t \<in> hashed_texts evs"
  unfolding hashed_texts_def by blast

lemma hashed_texts_mono: "set es \<subseteq> set fs \<Longrightarrow> hashed_texts es \<subseteq> hashed_texts fs"
  unfolding hashed_texts_def by blast

lemma event_hash_same:
  assumes h: "event_hash sha e = Inr h" "event_hash sha f = Inr h"
    and wf: "wf_json (JDict e)" "wf_json (JDict f)"
    and inj: "inj_on sha T" "hashed_texts [e, f] \<subseteq> T"
  shows "same_value (JDict (strip_hash e)) (JDict (strip_hash f))"
proof -
  obtain s t where st: "canonical_json (JDict (strip_hash e)) = Inr s" "canonical_json (JDict (strip_hash f)) = Inr t"
      "h = hash_prefix @ sha (utf8 s)" "h = hash_prefix @ sha (utf8 t)"
    using h by (auto simp: event_hash_def sha256_hex_def bindE_eq_Inr)
  have wf': "wf_json (JDict (strip_hash e))" "wf_json (JDict (strip_hash f))"
    using wf by (auto simp: wf_dict_def list_all_iff distinct_map_filter)
  have "utf8 s = utf8 t"
  proof (rule inj_onD[OF inj(1)])
    show "sha (utf8 s) = sha (utf8 t)" using st(3,4) by simp
    have "utf8 s \<in> hashed_texts [e, f]" by (rule hashed_textsI[OF _ st(1)]) simp
    then show "utf8 s \<in> T" using inj(2) by blast
    have "utf8 t \<in> hashed_texts [e, f]" by (rule hashed_textsI[OF _ st(2)]) simp
    then show "utf8 t \<in> T" using inj(2) by blast
  qed
  then have "s = t" using utf8_inj[OF wf_text[OF st(1) wf'(1)] wf_text[OF st(2) wf'(2)]] by blast
  then show ?thesis using canonical_text_iff[OF st(1,2) wf'] by blast
qed

lemma strip_get: "k \<noteq> ''event_hash'' \<Longrightarrow> eget (strip_hash ev) k = eget ev k"
  by (induction ev) (auto simp: dict_get.simps)

lemma strip_split:
  assumes "wf_dict ev" "eget ev ''event_hash'' = JStr h"
  shows "length ev = Suc (length (strip_hash ev))" "map_of ev (S ''event_hash'') = Some (JStr h)"
    and "map_of (strip_hash ev) k = (if k = S ''event_hash'' then None else map_of ev k)"
proof -
  have d: "strip_hash ev = AList.delete (S ''event_hash'') ev"
    by (induction ev) auto
  show m: "map_of ev (S ''event_hash'') = Some (JStr h)"
    using assms(2) by (auto simp: dict_get.simps split: option.splits)
  then show "length ev = Suc (length (strip_hash ev))"
    unfolding d using length_delete_wf[OF assms(1)] map_of_Some_keys by metis
  show "map_of (strip_hash ev) k = (if k = S ''event_hash'' then None else map_of ev k)"
    unfolding d by (simp add: delete_conv')
qed

lemma same_value_unstrip:
  assumes "same_value (JDict (strip_hash e)) (JDict (strip_hash f))" "wf_dict e" "wf_dict f"
    and "eget e ''event_hash'' = JStr h" "eget f ''event_hash'' = JStr h"
  shows "same_value (JDict e) (JDict f)"
proof -
  note E = strip_split[OF assms(2,4)] and F = strip_split[OF assms(3,5)]
  have "\<exists>w. map_of f k = Some w \<and> same_value v w" if "(k, v) \<in> set e" for k v
  proof (cases "k = S ''event_hash''")
    case True
    with that E(2) assms(2) have "v = JStr h" by (metis option.inject wf_dict_map_of_in)
    with True F(2) show ?thesis by simp
  next
    case False
    with that have "(k, v) \<in> set (strip_hash e)" by simp
    with assms(1) obtain w where "map_of (strip_hash f) k = Some w" "same_value v w"
      by (fastforce simp: list_all_iff split: option.splits)
    with F(3)[of k] False show ?thesis by (intro exI[of _ w]) simp
  qed
  moreover have "length e = length f" using assms(1) E(1) F(1) by simp
  ultimately show ?thesis by (fastforce simp: list_all_iff)
qed

lemma same_seq:
  assumes "same_value a b" "py_eq a (JInt n)" "py_eq b (JInt m)"
    and "canonical_json a = Inr s" "canonical_json b = Inr t"
  shows "n = m"
proof -
  have fl: "numval (JFloat x) = Some (Rat (dbl y))" if "dec_number (JFloat x) = Some y" for x y
    using that by (cases x) auto
  show ?thesis
    using assms
    by (cases a; cases b) (auto split: option.splits if_splits dest!: fl fl[OF HOL.sym] simp: dbl_int)
qed

lemma chain_commits_aux:
  assumes "linked sha JNull 0 es" "linked sha JNull 0 fs" "es \<noteq> []" "fs \<noteq> []"
    and "eget (last es) ''event_hash'' = eget (last fs) ''event_hash''"
    and "\<forall>ev \<in> set es \<union> set fs. wf_json (JDict ev)"
    and "inj_on sha T" "hashed_texts (es @ fs) \<subseteq> T"
  shows "list_all2 (\<lambda>e f. same_value (JDict e) (JDict f)) es fs"
  using assms
proof (induction es arbitrary: fs rule: rev_induct)
  case (snoc e es)
  obtain gs f where fs: "fs = gs @ [f]" using snoc.prems(4) by (metis append_butlast_last_id)
  let ?prev = "\<lambda>xs. if xs = [] then JNull else eget (last xs) ''event_hash''"
  obtain h where e: "event_hash sha e = Inr h" "eget e ''event_hash'' = JStr h" "linked sha JNull 0 es"
      "py_eq (eget e ''seq'') (JInt (int (length es)))" "py_eq (eget e ''prev_hash'') (?prev es)"
    using snoc.prems(1) by (auto simp: linked_snoc)
  obtain h' where f': "event_hash sha f = Inr h'" "eget f ''event_hash'' = JStr h'" "linked sha JNull 0 gs"
      "py_eq (eget f ''seq'') (JInt (int (length gs)))" "py_eq (eget f ''prev_hash'') (?prev gs)"
    using snoc.prems(2) by (auto simp: fs linked_snoc)
  have f: "event_hash sha f = Inr h" "eget f ''event_hash'' = JStr h"
    using snoc.prems(5) e(2) f'(1,2) by (simp_all add: fs)
  have wf: "wf_json (JDict e)" "wf_json (JDict f)" using snoc.prems(6) by (simp_all add: fs)
  then have d: "wf_dict e" "wf_dict f" "wf_dict (strip_hash e)" "wf_dict (strip_hash f)"
    by (auto simp: wf_dict_def distinct_map_filter)
  have T: "hashed_texts [e, f] \<subseteq> T" "hashed_texts (es @ gs) \<subseteq> T"
    using hashed_texts_mono[of "[e, f]" "(es @ [e]) @ fs"] hashed_texts_mono[of "es @ gs" "(es @ [e]) @ fs"]
      snoc.prems(8) by (simp_all add: fs subset_iff)
  have strip: "same_value (JDict (strip_hash e)) (JDict (strip_hash f))"
    by (rule event_hash_same[OF e(1) f(1) wf snoc.prems(7) T(1)])
  then have same: "same_value (JDict e) (JDict f)" by (rule same_value_unstrip[OF _ d(1,2) e(2) f(2)])
  have get: "same_value (eget e k) (eget f k)" for k by (rule same_value_get[OF same d(1,2)])
  have seq: "length es = length gs"
  proof -
    have "\<exists>t. canonical_json (eget ev ''seq'') = Inr t"
      if ev: "event_hash sha ev = Inr x" "py_eq (eget ev ''seq'') (JInt k)" for ev x k
    proof -
      obtain t where t: "canonical_json (JDict (strip_hash ev)) = Inr t"
        using ev(1) by (auto simp: event_hash_def sha256_hex_def bindE_eq_Inr)
      then have "portable (JDict (strip_hash ev))" using canonical_portable[of "JDict (strip_hash ev)"] by (auto split: if_splits)
      moreover have "eget (strip_hash ev) ''seq'' = eget ev ''seq''" by (simp add: strip_get)
      moreover have "eget ev ''seq'' \<noteq> JNull" using ev(2) by auto
      ultimately have "portable (eget ev ''seq'')"
        by (fastforce simp: dict_get.simps list_all_iff split: option.splits dest!: map_of_SomeD)
      then show ?thesis using canonical_portable[of "eget ev ''seq''"] by auto
    qed
    from this[OF e(1,4)] this[OF f(1) f'(4)] obtain s t where
      "canonical_json (eget e ''seq'') = Inr s" "canonical_json (eget f ''seq'') = Inr t" by blast
    from same_seq[OF get e(4) f'(4) this] show ?thesis by simp
  qed
  show ?case
  proof (cases "es = []")
    case True
    with seq same show ?thesis by (simp add: fs)
  next
    case False
    with seq have gs: "gs \<noteq> []" by auto
    obtain x y where xy: "eget (last es) ''event_hash'' = JStr x" "eget (last gs) ''event_hash'' = JStr y"
      using e(3) f'(3) False gs by (metis append_butlast_last_id linked_snoc)
    then have "eget (last es) ''event_hash'' = eget (last gs) ''event_hash''"
      using e(5) f'(5) False gs get[of "''prev_hash''"] by simp
    moreover have "\<forall>ev \<in> set es \<union> set gs. wf_json (JDict ev)" using snoc.prems(6) by (auto simp: fs)
    ultimately have "list_all2 (\<lambda>e f. same_value (JDict e) (JDict f)) es gs"
      using snoc.IH[OF e(3) f'(3) False gs _ _ snoc.prems(7) T(2)] by blast
    with same show ?thesis by (simp add: fs list_all2_appendI)
  qed
qed simp

text \<open>C34 The last hash of a verified recording commits to its whole history: two recordings that
  verify and end in the same hash hold the same events, one by one, unless two of the texts that
  were hashed collide under SHA-256. So no event can be changed, dropped, added or moved.\<close>

theorem chain_commits:
  assumes "verify sha errs session es = []" and "verify sha errs' session' fs = []"
    and "eget (last es) ''event_hash'' = eget (last fs) ''event_hash''"
    and "\<forall>ev \<in> set es \<union> set fs. wf_json (JDict ev)"
    and "inj_on sha (hashed_texts (es @ fs))"
  shows "list_all2 (\<lambda>e f. same_value (JDict e) (JDict f)) es fs"
  using verify_linked[OF assms(1)] verify_linked[OF assms(2)] chain_commits_aux[OF _ _ _ _ assms(3,4,5)] by blast

end
