(* ===== verification/Recorder_Facts.thy ===== *)
theory Recorder_Facts
  imports Recorder Recording_Facts
begin

text \<open>
  What the recorder writes verifies: every session, also one that an exception of the recorder ends,
  gives a recording without a single problem, whatever the tools return.
\<close>

declare dict_get.simps [simp del]

section \<open>The environment and the arguments\<close>

definition env_ok :: "env \<Rightarrow> bool" where
  "env_ok E \<longleftrightarrow> (\<forall>n. is_rfc3339_date_time (e_clock E n)) \<and> inj (e_ids E)
     \<and> (\<forall>d. is_dict (e_redact E (JDict d)))
     \<and> (\<forall>b. length (e_sha E b) = 64 \<and> list_all is_hex (e_sha E b))"

fun call_ok :: "rec_call \<Rightarrow> bool" where
  "call_ok (Definitions server tools) \<longleftrightarrow> (\<forall>t \<in> set tools. tool_ok (JDict t))"
| "call_ok (Call server name args out ms tool_def) \<longleftrightarrow>
     is_str name \<and> is_dict args \<and> at_least_0 ms \<and> pred_option (\<lambda>t. tool_ok (JDict t)) tool_def"
| "call_ok (Decision server tool action reason call_id findings) \<longleftrightarrow>
     one_of_strs [''allow'', ''warn'', ''block'', ''quarantine''] (JStr action)
     \<and> pred_option (\<lambda>v. case v of JList fs \<Rightarrow> list_all finding_ok fs | _ \<Rightarrow> False) findings"
| "call_ok (McpList server dumps) \<longleftrightarrow> (\<forall>t \<in> set dumps. tool_ok (JDict t))"
| "call_ok (McpCall server name args out ms) \<longleftrightarrow> is_str name \<and> pred_option is_dict args \<and> at_least_0 ms"

section \<open>One event\<close>

definition reserved :: "pystr set" where
  "reserved = {S ''v'', S ''seq'', S ''ts'', S ''session_id'', S ''type'', S ''prev_hash'', S ''event_hash''}"

lemma fold_update_append:
  "distinct (keys e) \<Longrightarrow> set (keys d) \<inter> set (keys e) = {} \<Longrightarrow> fold (\<lambda>(k, v) m. AList.update k v m) e d = d @ e"
  by (induction e arbitrary: d) (auto simp: update_fresh)

lemma emit_shape:
  assumes "emit E kd flds st = (Inr ev, st')" "distinct (keys flds)" "set (keys flds) \<inter> reserved = {}"
  shows "\<exists>h. ev = base_event E kd st @ flds @ [(S ''event_hash'', JStr h)] \<and> event_hash (e_sha E) ev = Inr h
     \<and> (\<exists>b. h = hash_prefix @ e_sha E b)
     \<and> st' = st\<lparr>re_ticks := Suc (re_ticks st), re_seq := Suc (re_seq st), re_prev := JStr h,
               re_events := re_events st @ [ev], re_text := re_text st'\<rparr>"
proof -
  let ?b = "base_event E kd st"
  have m: "dict_merge ?b flds = ?b @ flds"
    unfolding dict_merge_def by (rule fold_update_append) (use assms in \<open>auto simp: base_event_def reserved_def\<close>)
  have fresh: "S ''event_hash'' \<notin> set (keys (?b @ flds))"
    using assms(3) by (auto simp: base_event_def reserved_def)
  obtain h where h: "event_hash (e_sha E) (?b @ flds) = Inr h"
    using assms(1) by (auto simp: emit_def Let_def m split: sum.splits)
  have ev: "ev = (?b @ flds) @ [(S ''event_hash'', JStr h)]"
    using assms(1) h update_fresh[OF fresh] by (auto simp: emit_def Let_def m split: sum.splits)
  have "strip_hash ((?b @ flds) @ [(S ''event_hash'', JStr h)]) = strip_hash (?b @ flds)" by simp
  then have "event_hash (e_sha E) ev = Inr h" using h unfolding ev event_hash_def by (simp only:)
  moreover have "\<exists>b. h = hash_prefix @ e_sha E b" using h by (auto simp: event_hash_def sha256_hex_def bindE_eq_Inr)
  moreover have "st' = st\<lparr>re_ticks := Suc (re_ticks st), re_seq := Suc (re_seq st), re_prev := JStr h,
               re_events := re_events st @ [ev], re_text := re_text st'\<rparr>"
    using assms(1) h by (auto simp: emit_def Let_def m split: sum.splits)
  ultimately show ?thesis using ev by auto
qed

lemma hash_matches: "env_ok E \<Longrightarrow> hash_re_match (hash_prefix @ e_sha E b)"
  by (simp add: env_ok_def hash_re_match_def hash_prefix_def)

abbreviation seen :: "env \<Rightarrow> (event \<Rightarrow> pystr list) \<Rightarrow> recorder \<Rightarrow> verify_state" where
  "seen E errs st \<equiv> verify_run (e_sha E) errs (JStr (re_session st)) (verify_init []) 0 (re_events st)"

definition core_inv :: "env \<Rightarrow> (event \<Rightarrow> pystr list) \<Rightarrow> recorder \<Rightarrow> bool" where
  "core_inv E errs st \<longleftrightarrow> v_problems (seen E errs st) = [] \<and> v_seq (seen E errs st) = int (re_seq st)
     \<and> v_prev (seen E errs st) = re_prev st \<and> \<not> v_ended (seen E errs st)
     \<and> length (re_events st) = re_seq st \<and> (re_prev st = JNull \<or> hash_ok (re_prev st)) \<and> re_session st \<noteq> []"

lemma emit_verifies:
  assumes em: "emit E kd flds st = (Inr ev, st')" and keys: "distinct (keys flds)" "set (keys flds) \<inter> reserved = {}"
    and ok: "env_ok E" "validates errs" "core_inv E errs st"
    and kd: "kd \<in> {''session_start'', ''tool_definition'', ''tool_call'', ''tool_response'', ''policy_decision'', ''session_end''}"
      "kd = ''session_start'' \<longrightarrow> re_seq st = 0"
    and pay: "\<And>h. payload_ok (base_event E kd st @ flds @ [(S ''event_hash'', JStr h)])"
  shows "seen E errs st' = semantic_step (e_sha E) (re_seq st) ev ((seen E errs st)
      \<lparr>v_problems := [], v_ended := (kd = ''session_end''), v_seq := int (re_seq st'), v_prev := re_prev st'\<rparr>)
    \<and> hash_ok (re_prev st') \<and> re_seq st' = Suc (re_seq st) \<and> length (re_events st') = re_seq st'
    \<and> re_session st' = re_session st \<and> re_defs st' = re_defs st \<and> re_ids st' = re_ids st
    \<and> re_events st' = re_events st @ [ev]"
proof -
  obtain h b where ev: "ev = base_event E kd st @ flds @ [(S ''event_hash'', JStr h)]"
    and h: "event_hash (e_sha E) ev = Inr h" "h = hash_prefix @ e_sha E b"
    and st': "st' = st\<lparr>re_ticks := Suc (re_ticks st), re_seq := Suc (re_seq st), re_prev := JStr h,
               re_events := re_events st @ [ev], re_text := re_text st'\<rparr>"
    using emit_shape[OF em keys] by blast
  have hm: "hash_re_match h" using hash_matches[OF ok(1)] h(2) by simp
  have f: "map_of flds k = None" if "k \<in> reserved" for k
    using keys(2) that by (auto simp: map_of_eq_None_keys)
  have get: "eget ev ''v'' = JInt 1" "eget ev ''seq'' = JInt (int (re_seq st))"
      "eget ev ''ts'' = JStr (e_clock E (re_ticks st))" "eget ev ''session_id'' = JStr (re_session st)"
      "event_type ev = JStr (S kd)" "eget ev ''prev_hash'' = re_prev st" "eget ev ''event_hash'' = JStr h"
    by (simp_all add: ev base_event_def event_type_def dict_get.simps f reserved_def map_add_def)
  have core: "v_problems (seen E errs st) = []" "v_seq (seen E errs st) = int (re_seq st)"
      "v_prev (seen E errs st) = re_prev st" "\<not> v_ended (seen E errs st)" "length (re_events st) = re_seq st"
      "re_prev st = JNull \<or> hash_ok (re_prev st)" "re_session st \<noteq> []"
    using ok(3) by (auto simp: core_inv_def)
  have "event_ok ev"
    unfolding event_ok_def
  proof (intro conjI)
    show "payload_ok ev" using pay[of h] by (simp only: ev)
  qed (use ok(1) core kd(1) hm in \<open>auto simp: ev base_event_def present_def optional_def f reserved_def map_add_def
      is_number_def is_integer_def at_least_0_def env_ok_def one_of_strs_def hash_ok_def\<close>)
  then have errs: "errs ev = []" using ok(2) by (simp add: validates_def)
  have prev: "py_eq (re_prev st) (re_prev st)" using core(6) by (auto simp: hash_ok_def split: json.splits)
  have "chain_problems (e_sha E) errs (JStr (re_session st)) (re_seq st) ev (seen E errs st) = []"
    using kd(2) by (auto simp: chain_problems_def Let_def errs core get h prev)
  then have step: "verify_step (e_sha E) errs (JStr (re_session st)) (seen E errs st) (re_seq st, ev) =
      semantic_step (e_sha E) (re_seq st) ev ((seen E errs st)
        \<lparr>v_problems := [], v_ended := (kd = ''session_end''), v_seq := int (re_seq st'), v_prev := re_prev st'\<rparr>)"
    by (subst (1 2) st') (simp add: verify_step_def Let_def errs core get seq_number_def add.commute)
  have "seen E errs st' = verify_step (e_sha E) errs (JStr (re_session st)) (seen E errs st) (re_seq st, ev)"
    by (subst st', subst (2) st') (simp add: verify_run_snoc core(5))
  moreover have "re_prev st' = JStr h" "re_seq st' = Suc (re_seq st)" "re_session st' = re_session st"
      "re_defs st' = re_defs st" "re_ids st' = re_ids st" "re_events st' = re_events st @ [ev]"
    by (subst st', simp)+
  ultimately show ?thesis using step hm core(5) by (simp add: hash_ok_def)
qed

section \<open>A session\<close>

definition sess_inv :: "env \<Rightarrow> (event \<Rightarrow> pystr list) \<Rightarrow> recorder \<Rightarrow> bool" where
  "sess_inv E errs st \<longleftrightarrow> core_inv E errs st \<and> re_events st \<noteq> [] \<and> has_type (hd (re_events st)) ''session_start''
     \<and> (\<forall>s n h t. map_of (re_defs st) (s, JStr n) = Some (h, t) \<longrightarrow>
          hash_re_match h \<and> (s, n, h) \<in> v_definitions (seen E errs st))
     \<and> v_calls (seen E errs st) \<subseteq> e_ids E ` {..<re_ids st}
     \<and> v_responses (seen E errs st) \<subseteq> v_calls (seen E errs st)"

lemma core_inv_cong:
  "re_session st' = re_session st \<Longrightarrow> re_events st' = re_events st \<Longrightarrow> re_seq st' = re_seq st \<Longrightarrow>
   re_prev st' = re_prev st \<Longrightarrow> core_inv E errs st' = core_inv E errs st"
  by (simp add: core_inv_def)

lemma get_string: "present d k is_str \<Longrightarrow> \<exists>s. map_of d (S k) = Some (JStr s)"
  by (auto simp: present_def split: option.splits elim: is_str.elims)

lemma tool_name_of: "tool_ok (JDict t) \<Longrightarrow> \<exists>n. map_of t (S ''name'') = Some (JStr n) \<and> sget t ''name'' = n"
  using get_string[of t "''name''"] by (auto simp: tool_ok_def sget_def dict_get.simps)

lemma record_definition_inv:
  assumes ok: "env_ok E" "validates errs" and inv: "sess_inv E errs st" and t: "tool_ok (JDict tool)"
    and run: "record_definition E server tool st = (Inr (), st')"
  shows "sess_inv E errs st' \<and> re_ids st' = re_ids st"
proof -
  obtain n where n: "map_of tool (S ''name'') = Some (JStr n)" "sget tool ''name'' = n" using tool_name_of[OF t] by blast
  obtain h where h: "tool_hash (e_sha E) tool = Inr h" using run n(1) by (auto simp: record_definition_def bindS_Inr)
  show ?thesis
  proof (cases "map_option fst (map_of (re_defs st) (server, JStr n)) = Some h")
    case True
    with run n(1) h have "st' = st" by (auto simp: record_definition_def bindS_Inr)
    with inv show ?thesis by simp
  next
    case False
    let ?st = "st\<lparr>re_defs := AList.update (server, JStr n) (h, tool) (re_defs st)\<rparr>"
    let ?f = "[(S ''server'', JStr server), (S ''tool'', JDict tool), (S ''def_hash'', JStr h)]"
    obtain ev where em: "emit E ''tool_definition'' ?f ?st = (Inr ev, st')"
      using run n(1) h False by (auto simp: record_definition_def bindS_Inr)
    have core: "core_inv E errs ?st" using inv by (simp add: sess_inv_def core_inv_def)
    have hm: "hash_re_match h"
      using h hash_matches[OF ok(1)] by (auto simp: tool_hash_def sha256_hex_def bindE_eq_Inr)
    note keys = emit_shape[OF em]
    obtain h' where ev: "ev = base_event E ''tool_definition'' ?st @ ?f @ [(S ''event_hash'', JStr h')]"
      using keys by (auto simp: reserved_def)
    have e: "seen E errs st' = semantic_step (e_sha E) (re_seq ?st) ev ((seen E errs ?st)
        \<lparr>v_problems := [], v_ended := (''tool_definition'' = ''session_end''), v_seq := int (re_seq st'), v_prev := re_prev st'\<rparr>)
      \<and> hash_ok (re_prev st') \<and> re_seq st' = Suc (re_seq ?st) \<and> length (re_events st') = re_seq st'
      \<and> re_session st' = re_session ?st \<and> re_defs st' = re_defs ?st \<and> re_ids st' = re_ids ?st
      \<and> re_events st' = re_events ?st @ [ev]"
      by (rule emit_verifies[OF em _ _ ok core])
        (use t hm in \<open>auto simp: reserved_def payload_ok_def event_type_def dict_get.simps base_event_def present_def hash_ok_def\<close>)
    have get: "event_type ev = JStr (S ''tool_definition'')" "eget ev ''tool'' = JDict tool"
        "sget ev ''def_hash'' = h" "sget ev ''server'' = server"
      by (simp_all add: ev base_event_def event_type_def dict_get.simps sget_def)
    have step: "seen E errs st' = (seen E errs st)\<lparr>v_ended := False, v_seq := int (re_seq st'), v_prev := re_prev st',
        v_problems := [], v_definitions := insert (server, n, h) (v_definitions (seen E errs st))\<rparr>"
      unfolding e[THEN conjunct1] by (simp add: semantic_step_def get h n(2) Let_def)
    show ?thesis
      using inv e[THEN conjunct2] hm unfolding sess_inv_def core_inv_def step by (auto simp: update_conv' split: if_splits)
  qed
qed

lemma emit_call_inv:
  assumes ok: "env_ok E" "validates errs" and inv: "sess_inv E errs st" and args: "is_dict args"
    and def_hash: "hash_re_match h" "(server, n, h) \<in> v_definitions (seen E errs st)"
    and run: "emit_call E server (JStr n) h args st = (Inr call_id, st')"
  shows "sess_inv E errs st' \<and> call_id \<in> v_calls (seen E errs st') \<and> call_id \<notin> v_responses (seen E errs st')"
proof -
  let ?st = "st\<lparr>re_ids := Suc (re_ids st)\<rparr>"
  let ?f = "[(S ''call_id'', JStr call_id), (S ''server'', JStr server), (S ''tool_name'', JStr n),
         (S ''def_hash'', JStr h), (S ''args'', e_redact E args)]"
  obtain ev where em: "emit E ''tool_call'' ?f ?st = (Inr ev, st')" and id: "call_id = e_ids E (re_ids st)"
    using run by (auto simp: emit_call_def bindS_Inr)
  have core: "core_inv E errs ?st" using inv by (simp add: sess_inv_def core_inv_def)
  have red: "is_dict (e_redact E args)" using args ok(1) by (cases args) (auto simp: env_ok_def)
  obtain h' where ev: "ev = base_event E ''tool_call'' ?st @ ?f @ [(S ''event_hash'', JStr h')]"
    using emit_shape[OF em] by (auto simp: reserved_def)
  have e: "seen E errs st' = semantic_step (e_sha E) (re_seq ?st) ev ((seen E errs ?st)
      \<lparr>v_problems := [], v_ended := (''tool_call'' = ''session_end''), v_seq := int (re_seq st'), v_prev := re_prev st'\<rparr>)
    \<and> hash_ok (re_prev st') \<and> re_seq st' = Suc (re_seq ?st) \<and> length (re_events st') = re_seq st'
    \<and> re_session st' = re_session ?st \<and> re_defs st' = re_defs ?st \<and> re_ids st' = re_ids ?st
    \<and> re_events st' = re_events ?st @ [ev]"
    by (rule emit_verifies[OF em _ _ ok core])
      (use red def_hash in \<open>auto simp: reserved_def payload_ok_def event_type_def dict_get.simps base_event_def present_def hash_ok_def\<close>)
  have get: "event_type ev = JStr (S ''tool_call'')" "sget ev ''call_id'' = call_id" "sget ev ''server'' = server"
      "sget ev ''tool_name'' = n" "sget ev ''def_hash'' = h"
    by (simp_all add: ev base_event_def event_type_def dict_get.simps sget_def)
  have fresh: "call_id \<notin> v_calls (seen E errs st)"
    using inv ok(1) id by (auto simp: sess_inv_def env_ok_def inj_eq)
  have step: "seen E errs st' = (seen E errs st)\<lparr>v_ended := False, v_seq := int (re_seq st'), v_prev := re_prev st',
      v_problems := [], v_calls := insert call_id (v_calls (seen E errs st))\<rparr>"
    unfolding e[THEN conjunct1] using def_hash(2) fresh by (simp add: semantic_step_def get only_def Let_def)
  show ?thesis
    using inv e[THEN conjunct2] id fresh unfolding sess_inv_def core_inv_def step by auto
qed

lemma emit_response_inv:
  assumes ok: "env_ok E" "validates errs" and inv: "sess_inv E errs st"
    and id: "call_id \<in> v_calls (seen E errs st)" "call_id \<notin> v_responses (seen E errs st)"
    and flds: "flds = [(S ''call_id'', JStr call_id), (S ''ok'', JBool b), p, (S ''latency_ms'', ms)]"
      "p = (S ''result'', v) \<or> p = (S ''error'', JDict [(S ''code'', w), (S ''message'', JStr m)])" "at_least_0 ms"
    and em: "emit E ''tool_response'' flds st = (Inr ev, st')"
  shows "sess_inv E errs st'"
proof -
  have core: "core_inv E errs st" using inv by (simp add: sess_inv_def)
  have keys: "distinct (keys flds)" "set (keys flds) \<inter> reserved = {}"
    using flds(1,2) by (auto simp: reserved_def)
  obtain h' where ev: "ev = base_event E ''tool_response'' st @ flds @ [(S ''event_hash'', JStr h')]"
    using emit_shape[OF em keys] by blast
  have e: "seen E errs st' = semantic_step (e_sha E) (re_seq st) ev ((seen E errs st)
      \<lparr>v_problems := [], v_ended := (''tool_response'' = ''session_end''), v_seq := int (re_seq st'), v_prev := re_prev st'\<rparr>)
    \<and> hash_ok (re_prev st') \<and> re_seq st' = Suc (re_seq st) \<and> length (re_events st') = re_seq st'
    \<and> re_session st' = re_session st \<and> re_defs st' = re_defs st \<and> re_ids st' = re_ids st
    \<and> re_events st' = re_events st @ [ev]"
    by (rule emit_verifies[OF em keys ok core])
      (use flds in \<open>auto simp: payload_ok_def event_type_def dict_get.simps base_event_def present_def optional_def\<close>)
  have get: "event_type ev = JStr (S ''tool_response'')" "sget ev ''call_id'' = call_id"
    by (simp_all add: ev flds(1) base_event_def event_type_def dict_get.simps sget_def)
  have step: "seen E errs st' = (seen E errs st)\<lparr>v_ended := False, v_seq := int (re_seq st'), v_prev := re_prev st',
      v_problems := [], v_responses := insert call_id (v_responses (seen E errs st))\<rparr>"
    unfolding e[THEN conjunct1] using id by (simp add: semantic_step_def get only_def Let_def)
  show ?thesis
    using inv e[THEN conjunct2] id(1) unfolding sess_inv_def core_inv_def step by auto
qed

lemma record_definitions_inv:
  assumes "env_ok E" "validates errs" "sess_inv E errs st" "\<forall>t \<in> set tools. tool_ok (JDict t)"
    and "record_definitions E server tools st = (Inr (), st')"
  shows "sess_inv E errs st'"
  using forS_invariant[of "record_definition E server" tools st st' "sess_inv E errs"] assms record_definition_inv
  unfolding record_definitions_def by blast

lemma def_hash_for_inv:
  assumes ok: "env_ok E" "validates errs" and inv: "sess_inv E errs st" and t: "pred_option (\<lambda>t. tool_ok (JDict t)) tool_def"
    and run: "def_hash_for E server (JStr n) tool_def st = (Inr h, st')"
  shows "sess_inv E errs st' \<and> hash_re_match h \<and> (server, n, h) \<in> v_definitions (seen E errs st')"
proof -
  have "sess_inv E errs st' \<and> (\<exists>t. map_of (re_defs st') (server, JStr n) = Some (h, t))"
  proof (cases "map_of (re_defs st) (server, JStr n)")
    case (Some p)
    with run inv show ?thesis by (cases p) (auto simp: def_hash_for_def bindS_Inr)
  next
    case None
    with run obtain d where d: "tool_def = Some d" by (cases tool_def) (auto simp: def_hash_for_def bindS_Inr)
    obtain st1 where r: "record_definitions E server [d] st = (Inr (), st1)" "st' = st1"
        "\<exists>t. map_of (re_defs st1) (server, JStr n) = Some (h, t)"
      using run None d by (auto simp: def_hash_for_def bindS_Inr split: option.splits)
    with record_definitions_inv[OF ok inv _ r(1)] t d show ?thesis by simp
  qed
  then show ?thesis unfolding sess_inv_def by blast
qed

lemma call_responds_inv:
  assumes ok: "env_ok E" "validates errs" and inv: "sess_inv E errs st"
    and id: "call_id \<in> v_calls (seen E errs st)" "call_id \<notin> v_responses (seen E errs st)" and ms: "at_least_0 ms"
    and run: "(case out of
         Inl exc \<Rightarrow> bindS (emit_error_response E call_id exc ms) (\<lambda>_. returnS (Inl exc))
       | Inr result \<Rightarrow> bindS (emit_ok_response E call_id result ms) (\<lambda>_. returnS (Inr result))) st = (Inr r, st')"
  shows "sess_inv E errs st'"
proof (cases out)
  case (Inl exc)
  with run obtain ev where "emit E ''tool_response'' [(S ''call_id'', JStr call_id), (S ''ok'', JBool False),
         (S ''error'', JDict [(S ''code'', JStr (fst exc)), (S ''message'', JStr (snd exc))]), (S ''latency_ms'', ms)] st = (Inr ev, st')"
    by (auto simp: emit_error_response_def bindS_Inr)
  from emit_response_inv[OF ok inv id refl _ ms this] show ?thesis by blast
next
  case (Inr result)
  with run obtain ev where "emit E ''tool_response'' [(S ''call_id'', JStr call_id), (S ''ok'', JBool True),
         (S ''result'', e_redact E result), (S ''latency_ms'', ms)] st = (Inr ev, st')"
    by (auto simp: emit_ok_response_def bindS_Inr)
  from emit_response_inv[OF ok inv id refl _ ms this] show ?thesis by blast
qed

lemma decision_inv:
  assumes ok: "env_ok E" "validates errs" and inv: "sess_inv E errs st"
    and c: "call_ok (Decision server tool action why call_id findings)"
    and run: "policy_decision E server tool action why call_id findings st = (Inr (), st')"
  shows "sess_inv E errs st'"
proof -
  define flds where "flds = [(S ''server'', JStr server), (S ''tool_name'', JStr tool), (S ''action'', JStr action),
          (S ''reason'', JStr why)]
         @ (case call_id of Some c \<Rightarrow> [(S ''call_id'', JStr c)] | None \<Rightarrow> [])
         @ (case findings of Some f \<Rightarrow> [(S ''findings'', f)] | None \<Rightarrow> [])"
  have core: "core_inv E errs st" using inv by (simp add: sess_inv_def)
  obtain ev where em: "emit E ''policy_decision'' flds st = (Inr ev, st')"
    using run by (auto simp: policy_decision_def bindS_Inr flds_def)
  have keys: "distinct (keys flds)" "set (keys flds) \<inter> reserved = {}"
    by (auto simp: reserved_def flds_def split: option.splits)
  obtain h' where ev: "ev = base_event E ''policy_decision'' st @ flds @ [(S ''event_hash'', JStr h')]"
    using emit_shape[OF em keys] by blast
  have e: "seen E errs st' = semantic_step (e_sha E) (re_seq st) ev ((seen E errs st)
      \<lparr>v_problems := [], v_ended := (''policy_decision'' = ''session_end''), v_seq := int (re_seq st'), v_prev := re_prev st'\<rparr>)
    \<and> hash_ok (re_prev st') \<and> re_seq st' = Suc (re_seq st) \<and> length (re_events st') = re_seq st'
    \<and> re_session st' = re_session st \<and> re_defs st' = re_defs st \<and> re_ids st' = re_ids st
    \<and> re_events st' = re_events st @ [ev]"
    by (rule emit_verifies[OF em keys ok core])
      (use c in \<open>auto simp: flds_def payload_ok_def event_type_def dict_get.simps base_event_def present_def optional_def split: option.splits\<close>)
  have get: "event_type ev = JStr (S ''policy_decision'')"
    by (simp add: ev base_event_def event_type_def dict_get.simps)
  have step: "seen E errs st' = (seen E errs st)\<lparr>v_ended := False, v_seq := int (re_seq st'), v_prev := re_prev st', v_problems := []\<rparr>"
    unfolding e[THEN conjunct1] by (simp add: semantic_step_def get)
  show ?thesis
    using inv e[THEN conjunct2] unfolding sess_inv_def core_inv_def step by auto
qed

text \<open>No operation touches the session id.\<close>

definition keeps_session :: "(recorder \<Rightarrow> (pyexc + 'a) \<times> recorder) \<Rightarrow> bool" where
  "keeps_session m \<longleftrightarrow> (\<forall>s. re_session (snd (m s)) = re_session s)"

lemma keeps_bind: "keeps_session m \<Longrightarrow> (\<And>x. keeps_session (f x)) \<Longrightarrow> keeps_session (bindS m f)"
  unfolding keeps_session_def bindS_def by (auto split: prod.splits sum.splits) (metis snd_conv)+

lemma keeps_basic: "keeps_session (returnS x)" "keeps_session (raiseS e)" "keeps_session (liftS r)" "keeps_session (getS g)"
    "(\<And>s. re_session (f s) = re_session s) \<Longrightarrow> keeps_session (modifyS f)" "keeps_session (emit E kd flds)"
  by (auto simp: keeps_session_def returnS_def raiseS_def liftS_def getS_def modifyS_def emit_def Let_def split: sum.splits)

lemma keeps_for: "(\<And>x. keeps_session (f x)) \<Longrightarrow> keeps_session (forS f xs)"
proof (induction xs)
  case (Cons x xs)
  have "keeps_session (forS f xs)" using Cons by blast
  with Cons.prems have "keeps_session (bindS (f x) (\<lambda>_. forS f xs))" by (intro keeps_bind)
  then show ?case by (simp add: keeps_session_def)
qed (simp add: keeps_session_def)

lemmas keeps = keeps_basic keeps_bind keeps_for

lemma keeps_ops: "keeps_session (record_definitions E server tools)" "keeps_session (def_hash_for E server name td)"
    "keeps_session (emit_call E server name h args)" "keeps_session (emit_error_response E cid exc ms)"
    "keeps_session (emit_ok_response E cid r ms)"
  by (auto simp: record_definitions_def record_definition_def def_hash_for_def emit_call_def emit_error_response_def
      emit_ok_response_def intro!: keeps split: option.split)

lemma keeps_do_call: "keeps_session (do_call E op)"
  by (cases op) (auto simp: call_def policy_decision_def session_list_tools_def session_call_tool_def
      ensure_def_hash_def Let_def intro!: keeps keeps_ops split: sum.split)

lemma session_id_kept: "session E ops failed s = (r, t) \<Longrightarrow> re_session t = re_session s"
proof -
  have m: "keeps_session (enter E)" "keeps_session (forS (do_call E) ops)" "keeps_session (leave E b)" for b
    unfolding enter_def leave_def by (intro keeps keeps_do_call)+
  have k: "re_session t = re_session s" if "keeps_session m" "m s = (r, t)" for m :: "recorder \<Rightarrow> (pyexc + 'a) \<times> recorder" and s r t
    using that unfolding keeps_session_def by (metis snd_conv)
  assume "session E ops failed s = (r, t)"
  then show ?thesis
    by (auto simp: session_def Let_def split: prod.splits sum.splits dest!: k[OF m(1)] k[OF m(2)] k[OF m(3)])
qed

lemma tool_to_dict_ok:
  assumes "tool_ok (JDict d)" "tool_to_dict d = Inr t"
  shows "tool_ok (JDict t)"
proof -
  obtain n i where n: "map_of d (S ''name'') = Some (JStr n)" "map_of d (S ''inputSchema'') = Some i" "is_dict i"
    using assms(1) get_string[of d "''name''"] by (auto simp: tool_ok_def present_def split: option.splits)
  define ds where "ds = dict_get d (S ''description'') (JStr [])"
  define os where "os = (case map_of d (S ''outputSchema'') of Some v \<Rightarrow> [(S ''outputSchema'', v)] | None \<Rightarrow> [])"
  define an where "an = (if eget d ''annotations'' \<noteq> JNull then [(S ''annotations'', eget d ''annotations'')] else [])"
  have ds: "is_str ds"
    using assms(1) by (cases "map_of d (S ''description'')") (simp_all add: ds_def dict_get.simps tool_ok_def optional_def)
  have os: "pred_option is_dict (map_of os (S ''outputSchema''))" "keys os \<in> {[], [S ''outputSchema'']}"
    using assms(1) by (cases "map_of d (S ''outputSchema'')"; simp add: os_def tool_ok_def optional_def)+
  have an: "pred_option is_dict (map_of an (S ''annotations''))" "keys an \<in> {[], [S ''annotations'']}"
    using assms(1) by (cases "map_of d (S ''annotations'')"; simp add: an_def dict_get.simps tool_ok_def optional_def)+
  have t: "t = [(S ''name'', JStr n), (S ''description'', ds), (S ''inputSchema'', i)] @ os @ an"
    using assms(2) n by (simp add: tool_to_dict_def ds_def os_def an_def dict_get.simps)
  have no: "map_of os k = None" if "k \<noteq> S ''outputSchema''" for k
    using os(2) that by (auto simp: map_of_eq_None_keys)
  have na: "map_of an k = None" if "k \<noteq> S ''annotations''" for k
    using an(2) that by (auto simp: map_of_eq_None_keys)
  show ?thesis
    unfolding tool_ok_def t
    using n(3) ds os(1) an(1)
    by (auto simp: present_def optional_def map_add_def no na split: option.splits)
qed

lemma do_call_inv:
  assumes ok: "env_ok E" "validates errs" and inv: "sess_inv E errs st" and c: "call_ok op"
    and run: "do_call E op st = (Inr (), st')"
  shows "sess_inv E errs st'"
proof (cases op)
  case (Definitions server tools)
  with record_definitions_inv[OF ok inv] c run show ?thesis by simp
next
  case (Call server name args out ms tool_def)
  obtain n where n: "name = JStr n" using c Call by (auto elim: is_str.elims)
  obtain h st1 id st2 r where r: "def_hash_for E server (JStr n) tool_def st = (Inr h, st1)"
      "emit_call E server (JStr n) h args st1 = (Inr id, st2)"
      "(case out of
         Inl exc \<Rightarrow> bindS (emit_error_response E id exc ms) (\<lambda>_. returnS (Inl exc))
       | Inr result \<Rightarrow> bindS (emit_ok_response E id result ms) (\<lambda>_. returnS (Inr result))) st2 = (Inr r, st')"
    using run unfolding Call n do_call.simps call_def bindS_Inr by auto
  have d: "sess_inv E errs st1 \<and> hash_re_match h \<and> (server, n, h) \<in> v_definitions (seen E errs st1)"
    by (rule def_hash_for_inv[OF ok inv _ r(1)]) (use c Call in simp)
  have e: "sess_inv E errs st2 \<and> id \<in> v_calls (seen E errs st2) \<and> id \<notin> v_responses (seen E errs st2)"
    by (rule emit_call_inv[OF ok _ _ _ _ r(2)]) (use c Call d in auto)
  show ?thesis by (rule call_responds_inv[OF ok _ _ _ _ r(3)]) (use c Call e in auto)
next
  case (Decision server tool action why call_id findings)
  with decision_inv[OF ok inv] c run show ?thesis by simp
next
  case (McpList server dumps)
  obtain tools where t: "mapE tool_to_dict dumps = Inr tools" "record_definitions E server tools st = (Inr (), st')"
    using run McpList by (auto simp: session_list_tools_def bindS_Inr)
  have "\<forall>t \<in> set tools. tool_ok (JDict t)"
    using mapE_mem[OF t(1)] tool_to_dict_ok c McpList by fastforce
  from record_definitions_inv[OF ok inv this t(2)] show ?thesis .
next
  case (McpCall server name arguments out ms)
  obtain n where n: "name = JStr n" using c McpCall by (auto elim: is_str.elims)
  define args where "args = (case arguments of Some a \<Rightarrow> if truthy a then a else JDict [] | None \<Rightarrow> JDict [])"
  have args: "is_dict args" using c McpCall by (cases arguments) (auto simp: args_def)
  obtain h st1 id st2 r where r: "def_hash_for E server (JStr n) None st = (Inr h, st1)"
      "emit_call E server (JStr n) h args st1 = (Inr id, st2)"
      "(case out of
         Inl exc \<Rightarrow> bindS (emit_error_response E id exc ms) (\<lambda>_. returnS (Inl exc))
       | Inr result \<Rightarrow> bindS (emit_ok_response E id result ms) (\<lambda>_. returnS (Inr result))) st2 = (Inr r, st')"
    using run unfolding McpCall n do_call.simps session_call_tool_def ensure_def_hash_def args_def[symmetric] Let_def bindS_Inr
    by auto
  have d: "sess_inv E errs st1 \<and> hash_re_match h \<and> (server, n, h) \<in> v_definitions (seen E errs st1)"
    by (rule def_hash_for_inv[OF ok inv _ r(1)]) simp
  have e: "sess_inv E errs st2 \<and> id \<in> v_calls (seen E errs st2) \<and> id \<notin> v_responses (seen E errs st2)"
    by (rule emit_call_inv[OF ok _ args _ _ r(2)]) (use d in auto)
  show ?thesis by (rule call_responds_inv[OF ok _ _ _ _ r(3)]) (use c McpCall e in auto)
qed

lemma enter_inv:
  assumes ok: "env_ok E" "validates errs" and id: "sid \<noteq> []" and m: "pred_option is_dict meta"
    and run: "enter E (recorder_init sid agent meta) = (Inr (), st')"
  shows "sess_inv E errs st'"
proof -
  let ?st = "recorder_init sid agent meta"
  define flds where "flds = (S ''agent'', JStr agent) # (case meta of Some m \<Rightarrow> [(S ''meta'', m)] | None \<Rightarrow> [])"
  have nil: "seen E errs ?st = verify_init []" by (simp add: recorder_init_def verify_run_def)
  have core: "core_inv E errs ?st" unfolding core_inv_def nil using id by (simp add: recorder_init_def verify_init_def)
  obtain ev where em: "emit E ''session_start'' flds ?st = (Inr ev, st')"
    using run by (auto simp: enter_def bindS_Inr flds_def recorder_init_def)
  have keys: "distinct (keys flds)" "set (keys flds) \<inter> reserved = {}"
    by (auto simp: reserved_def flds_def split: option.splits)
  obtain h' where ev: "ev = base_event E ''session_start'' ?st @ flds @ [(S ''event_hash'', JStr h')]"
    using emit_shape[OF em keys] by blast
  have e: "seen E errs st' = semantic_step (e_sha E) (re_seq ?st) ev ((seen E errs ?st)
      \<lparr>v_problems := [], v_ended := (''session_start'' = ''session_end''), v_seq := int (re_seq st'), v_prev := re_prev st'\<rparr>)
    \<and> hash_ok (re_prev st') \<and> re_seq st' = Suc (re_seq ?st) \<and> length (re_events st') = re_seq st'
    \<and> re_session st' = re_session ?st \<and> re_defs st' = re_defs ?st \<and> re_ids st' = re_ids ?st
    \<and> re_events st' = re_events ?st @ [ev]"
    by (rule emit_verifies[OF em keys ok core])
      (use m in \<open>auto simp: flds_def payload_ok_def event_type_def dict_get.simps base_event_def present_def optional_def
        recorder_init_def split: option.splits\<close>)
  have get: "event_type ev = JStr (S ''session_start'')"
    by (simp add: ev base_event_def event_type_def dict_get.simps)
  have step: "seen E errs st' = (verify_init [])\<lparr>v_ended := False, v_seq := int (re_seq st'), v_prev := re_prev st', v_problems := []\<rparr>"
    unfolding e[THEN conjunct1] nil by (simp add: semantic_step_def get)
  show ?thesis
    using e[THEN conjunct2] id get unfolding sess_inv_def core_inv_def step
    by (simp add: recorder_init_def verify_init_def)
qed

section \<open>Sessions that an exception ends\<close>

text \<open>What has been written is a recording without a problem, which goes on.\<close>

definition written :: "env \<Rightarrow> (event \<Rightarrow> pystr list) \<Rightarrow> recorder \<Rightarrow> bool" where
  "written E errs st \<longleftrightarrow> core_inv E errs st \<and> re_events st \<noteq> [] \<and> has_type (hd (re_events st)) ''session_start''"

lemma sess_written: "sess_inv E errs st \<Longrightarrow> written E errs st"
  by (simp add: sess_inv_def written_def)

lemma written_verifies: "written E errs st \<Longrightarrow> verify (e_sha E) errs (JStr (re_session st)) (re_events st) = []"
  by (cases "re_events st") (auto simp: written_def core_inv_def verify_def only_def)

text \<open>An operation that raises leaves the log as it was before its last emission.\<close>

definition same_log :: "recorder \<Rightarrow> recorder \<Rightarrow> bool" where
  "same_log st st' \<longleftrightarrow> re_session st' = re_session st \<and> re_events st' = re_events st \<and> re_seq st' = re_seq st
     \<and> re_prev st' = re_prev st"

lemma same_log_written: "same_log st st' \<Longrightarrow> written E errs st \<Longrightarrow> written E errs st'"
  using core_inv_cong[of st' st E errs] by (simp add: same_log_def written_def)

lemma bindS_Inl: "bindS m f s = (Inl e, u) \<longleftrightarrow> m s = (Inl e, u) \<or> (\<exists>x t. m s = (Inr x, t) \<and> f x t = (Inl e, u))"
  by (auto simp: bindS_def split: prod.splits sum.splits)

lemma stateS_Inl [simp]:
  "returnS x s \<noteq> (Inl e, t)" "liftS r s = (Inl e, t) \<longleftrightarrow> r = Inl e \<and> t = s" "modifyS f s \<noteq> (Inl e, t)" "getS g s \<noteq> (Inl e, t)"
  "raiseS e' s = (Inl e, t) \<longleftrightarrow> e' = e \<and> t = s"
  by (auto simp: returnS_def liftS_def modifyS_def getS_def raiseS_def)

lemma emit_raises: "emit E kd flds st = (Inl e, st') \<Longrightarrow> same_log st st'"
  by (auto simp: emit_def Let_def same_log_def split: sum.splits)

lemma record_definition_raises: "record_definition E server tool st = (Inl e, st') \<Longrightarrow> same_log st st'"
  by (auto simp: record_definition_def bindS_Inl same_log_def split: if_splits dest!: emit_raises)

lemma record_definitions_raises:
  assumes ok: "env_ok E" "validates errs"
  shows "sess_inv E errs st \<Longrightarrow> \<forall>t \<in> set tools. tool_ok (JDict t) \<Longrightarrow>
    record_definitions E server tools st = (Inl e, st') \<Longrightarrow> written E errs st'"
proof (induction tools arbitrary: st)
  case (Cons t tools)
  from Cons.prems(3) consider "record_definition E server t st = (Inl e, st')"
    | st1 where "record_definition E server t st = (Inr (), st1)" "record_definitions E server tools st1 = (Inl e, st')"
    by (auto simp: record_definitions_def bindS_Inl)
  then show ?case
  proof cases
    case 1
    then show ?thesis using record_definition_raises same_log_written sess_written Cons.prems(1) by blast
  next
    case 2
    have "sess_inv E errs st1" using record_definition_inv[OF ok Cons.prems(1) _ 2(1)] Cons.prems(2) by simp
    then show ?thesis using Cons.IH 2(2) Cons.prems(2) by simp
  qed
qed (simp add: record_definitions_def)

lemma def_hash_for_raises:
  assumes ok: "env_ok E" "validates errs" and inv: "sess_inv E errs st" and t: "pred_option (\<lambda>t. tool_ok (JDict t)) tool_def"
    and run: "def_hash_for E server name tool_def st = (Inl e, st')"
  shows "written E errs st'"
proof -
  from run consider "st' = st"
    | d where "tool_def = Some d" "record_definitions E server [d] st = (Inl e, st')"
    | d where "tool_def = Some d" "record_definitions E server [d] st = (Inr (), st')"
    by (auto simp: def_hash_for_def bindS_Inl split: option.splits)
  then show ?thesis
  proof cases
    case (2 d)
    then show ?thesis using record_definitions_raises[OF ok inv _ 2(2)] t by simp
  next
    case (3 d)
    then show ?thesis using record_definitions_inv[OF ok inv _ 3(2)] t sess_written by simp
  qed (use inv sess_written in blast)
qed

lemma emissions_raise:
  "emit_call E server name h args st = (Inl e, st') \<Longrightarrow> same_log st st'"
  "emit_ok_response E cid v ms st = (Inl e, st') \<Longrightarrow> same_log st st'"
  "emit_error_response E cid exc ms st = (Inl e, st') \<Longrightarrow> same_log st st'"
  "policy_decision E server tool action why call_id findings st = (Inl e, st') \<Longrightarrow> same_log st st'"
  by (auto simp: emit_call_def emit_ok_response_def emit_error_response_def policy_decision_def bindS_Inl same_log_def
      dest!: emit_raises)

lemma answered_call_raises:
  assumes ok: "env_ok E" "validates errs" and inv: "sess_inv E errs st" and n: "name = JStr n" and args: "is_dict args"
    and t: "pred_option (\<lambda>t. tool_ok (JDict t)) tool_def"
    and run: "bindS (def_hash_for E server name tool_def) (\<lambda>h. bindS (emit_call E server name h args) (\<lambda>id. case out of
         Inl exc \<Rightarrow> bindS (emit_error_response E id exc ms) (\<lambda>_. returnS (Inl exc))
       | Inr result \<Rightarrow> bindS (emit_ok_response E id result ms) (\<lambda>_. returnS (Inr result)))) st = (Inl e, st')"
  shows "written E errs st'"
proof -
  from run consider "def_hash_for E server name tool_def st = (Inl e, st')"
    | h st1 where "def_hash_for E server name tool_def st = (Inr h, st1)" "emit_call E server name h args st1 = (Inl e, st')"
    | h st1 id st2 where "def_hash_for E server name tool_def st = (Inr h, st1)" "emit_call E server name h args st1 = (Inr id, st2)"
      "same_log st2 st'"
    by (cases out) (auto simp: bindS_Inl dest: emissions_raise)
  then show ?thesis
  proof cases
    case 1
    then show ?thesis using def_hash_for_raises[OF ok inv t] by blast
  next
    case (2 h st1)
    then show ?thesis
      using def_hash_for_inv[OF ok inv t] emissions_raise(1) same_log_written sess_written unfolding n by blast
  next
    case (3 h st1 id st2)
    have d: "sess_inv E errs st1 \<and> hash_re_match h \<and> (server, n, h) \<in> v_definitions (seen E errs st1)"
      using def_hash_for_inv[OF ok inv t] 3(1) unfolding n by blast
    have "sess_inv E errs st2" using emit_call_inv[OF ok _ args _ _ 3(2)[unfolded n]] d by blast
    then show ?thesis using same_log_written[OF 3(3)] sess_written by blast
  qed
qed

lemma do_call_raises:
  assumes ok: "env_ok E" "validates errs" and inv: "sess_inv E errs st" and c: "call_ok op"
    and run: "do_call E op st = (Inl e, st')"
  shows "written E errs st'"
proof (cases op)
  case (Definitions server tools)
  with record_definitions_raises[OF ok inv] c run show ?thesis by simp
next
  case (Call server name args out ms tool_def)
  obtain n where n: "name = JStr n" using c Call by (auto elim: is_str.elims)
  show ?thesis
    by (rule answered_call_raises[OF ok inv n, where args = args and tool_def = tool_def and server = server and out = out and ms = ms and e = e])
      (use c run Call in \<open>auto simp: call_def bindS_assoc bindS_Inl\<close>)
next
  case (Decision server tool action why call_id findings)
  with run emissions_raise(4) same_log_written sess_written inv show ?thesis by fastforce
next
  case (McpList server dumps)
  from run McpList consider "st' = st"
    | tools where "mapE tool_to_dict dumps = Inr tools" "record_definitions E server tools st = (Inl e, st')"
    by (auto simp: session_list_tools_def bindS_Inl)
  then show ?thesis
  proof cases
    case (2 tools)
    have "\<forall>t \<in> set tools. tool_ok (JDict t)"
      using mapE_mem[OF 2(1)] tool_to_dict_ok c McpList by fastforce
    from record_definitions_raises[OF ok inv this 2(2)] show ?thesis .
  qed (use inv sess_written in blast)
next
  case (McpCall server name arguments out ms)
  obtain n where n: "name = JStr n" using c McpCall by (auto elim: is_str.elims)
  define args where "args = (case arguments of Some a \<Rightarrow> if truthy a then a else JDict [] | None \<Rightarrow> JDict [])"
  have args: "is_dict args" using c McpCall by (cases arguments) (auto simp: args_def)
  show ?thesis
    by (rule answered_call_raises[OF ok inv n args, where tool_def = None and server = server and out = out and ms = ms and e = e])
      (use c run McpCall in \<open>auto simp: session_call_tool_def ensure_def_hash_def args_def Let_def bindS_assoc bindS_Inl\<close>)
qed

text \<open>The body of the block ends in a written recording, with or without an exception.\<close>

lemma body_written:
  assumes ok: "env_ok E" "validates errs"
  shows "sess_inv E errs st \<Longrightarrow> list_all call_ok ops \<Longrightarrow> forS (do_call E) ops st = (r, st') \<Longrightarrow> written E errs st'"
proof (induction ops arbitrary: st)
  case Nil
  then show ?case using sess_written by simp
next
  case (Cons op ops)
  obtain r1 st1 where d: "do_call E op st = (r1, st1)" by force
  show ?case
  proof (cases r1)
    case (Inl e)
    then have "st' = st1" using Cons.prems(3) d by (simp add: bindS_def)
    then show ?thesis using do_call_raises[OF ok Cons.prems(1), of op e st1] Cons.prems(2) d Inl by simp
  next
    case (Inr u)
    have "sess_inv E errs st1" using do_call_inv[OF ok Cons.prems(1), of op st1] Cons.prems(2) d Inr by simp
    then show ?thesis using Cons.IH Cons.prems(2,3) d Inr by (simp add: bindS_def)
  qed
qed

lemma leave_verifies:
  assumes ok: "env_ok E" "validates errs" and inv: "written E errs st" and run: "leave E failed st = (r, st')"
  shows "verify (e_sha E) errs (JStr (re_session st')) (re_events st') = []"
proof (cases r)
  case (Inl e)
  then have "same_log st st'" using run by (auto simp: leave_def bindS_Inl dest: emit_raises)
  from written_verifies[OF same_log_written[OF this inv]] show ?thesis .
next
  case (Inr u)
  let ?f = "[(S ''reason'', JStr (if failed then S ''error'' else S ''completed''))]"
  have core: "core_inv E errs st" using inv by (simp add: written_def)
  obtain ev where em: "emit E ''session_end'' ?f st = (Inr ev, st')"
    using run Inr by (auto simp: leave_def bindS_Inr)
  obtain h' where ev: "ev = base_event E ''session_end'' st @ ?f @ [(S ''event_hash'', JStr h')]"
    using emit_shape[OF em] by (auto simp: reserved_def)
  have e: "seen E errs st' = semantic_step (e_sha E) (re_seq st) ev ((seen E errs st)
      \<lparr>v_problems := [], v_ended := (''session_end'' = ''session_end''), v_seq := int (re_seq st'), v_prev := re_prev st'\<rparr>)
    \<and> hash_ok (re_prev st') \<and> re_seq st' = Suc (re_seq st) \<and> length (re_events st') = re_seq st'
    \<and> re_session st' = re_session st \<and> re_defs st' = re_defs st \<and> re_ids st' = re_ids st
    \<and> re_events st' = re_events st @ [ev]"
    by (rule emit_verifies[OF em _ _ ok core])
      (auto simp: reserved_def payload_ok_def event_type_def dict_get.simps base_event_def present_def one_of_strs_def)
  have get: "event_type ev = JStr (S ''session_end'')"
    by (simp add: ev base_event_def event_type_def dict_get.simps)
  have "v_problems (seen E errs st') = []"
    unfolding e[THEN conjunct1] by (simp add: semantic_step_def get)
  moreover obtain a rest where "re_events st = a # rest" "has_type a ''session_start''"
    using inv by (cases "re_events st") (auto simp: written_def)
  ultimately show ?thesis using e[THEN conjunct2] by (simp add: verify_def only_def)
qed


section \<open>A sample session\<close>

lemma emit_total:
  assumes "distinct (keys flds)" "set (keys flds) \<inter> reserved = {}" "portable (JDict (base_event E kd st @ flds))"
    and "\<And>b. \<not> list_ex is_surrogate (e_sha E b)"
  shows "\<exists>ev st'. emit E kd flds st = (Inr ev, st')"
proof -
  let ?b = "base_event E kd st"
  have m: "dict_merge ?b flds = ?b @ flds"
    unfolding dict_merge_def by (rule fold_update_append) (use assms in \<open>auto simp: base_event_def reserved_def\<close>)
  have fresh: "S ''event_hash'' \<notin> set (keys (?b @ flds))"
    using assms(2) by (auto simp: base_event_def reserved_def)
  then have strip: "strip_hash (?b @ flds) = ?b @ flds"
    by (intro filter_True) (force simp: image_iff)
  obtain s where s: "canonical_json (JDict (?b @ flds)) = Inr s"
    using canonical_portable[of "JDict (?b @ flds)"] assms(3) by (simp only: if_True) blast
  have h: "event_hash (e_sha E) (?b @ flds) = Inr (hash_prefix @ e_sha E (utf8 s))"
    unfolding event_hash_def strip sha256_hex_def s by simp
  let ?ev = "(?b @ flds) @ [(S ''event_hash'', JStr (hash_prefix @ e_sha E (utf8 s)))]"
  have "portable (JDict ?ev)"
    using assms(3,4) by (auto simp: keys_encodable_def hash_prefix_def S_def is_surrogate_def)
  then obtain t where "canonical_json (JDict ?ev) = Inr t"
    using canonical_portable[of "JDict ?ev"] by (simp only: if_True) blast
  then show ?thesis
    unfolding emit_def Let_def m h using update_fresh[OF fresh] by (simp del: canonical_json.simps)
qed

definition sample_env :: env where
  "sample_env = \<lparr>e_sha = (\<lambda>_. replicate 64 48), e_clock = (\<lambda>_. S ''2024-01-01T00:00:00Z''), e_ids = (\<lambda>n. [n]),
     e_redact = (\<lambda>v. v)\<rparr>"

definition sample_errs :: "event \<Rightarrow> pystr list" where
  "sample_errs ev = (if event_ok ev then [] else [[]])"

lemma sample_ok: "env_ok sample_env" "validates sample_errs" "\<not> list_ex is_surrogate (e_sha sample_env b)"
proof -
  have "is_rfc3339_date_time (S ''2024-01-01T00:00:00Z'')" by code_simp
  then show "env_ok sample_env" by (simp add: env_ok_def sample_env_def is_hex_def list_all_iff inj_def)
qed (simp_all add: validates_def sample_errs_def sample_env_def is_surrogate_def list_ex_iff)

lemma sample_portable:
  assumes "re_session st = S ''s''" "re_prev st = JNull \<or> re_prev st = JStr (hash_prefix @ replicate 64 48)" "re_seq st < 10"
    and "list_all (\<lambda>(k, v). \<not> list_ex is_surrogate k \<and> portable v) flds" "list_all (\<lambda>c. c < 128) (S kd)"
  shows "portable (JDict (base_event sample_env kd st @ flds))"
proof -
  have asc: "\<not> list_ex is_surrogate s" if "list_all (\<lambda>c. c < 128) s" for s
    using that by (auto simp: list_ex_iff list_all_iff is_surrogate_def)
  have "list_all (\<lambda>c. c < 128) (S s)" if "list_all (\<lambda>c. (of_char c :: nat) < 128) s" for s
    using that by (simp add: S_def list_all_iff)
  then show ?thesis
    using assms by (auto simp: base_event_def sample_env_def keys_encodable_def hash_prefix_def list_all_iff
        intro!: asc simp: S_def list_ex_iff is_surrogate_def)
qed

definition sample_state :: "nat \<Rightarrow> recorder \<Rightarrow> bool" where
  "sample_state n st \<longleftrightarrow> re_session st = S ''s'' \<and> re_seq st = n \<and> re_agent st = S ''a'' \<and> re_meta st = None
     \<and> (re_prev st = JNull \<or> re_prev st = JStr (hash_prefix @ replicate 64 48))"

lemma sample_emit:
  assumes "sample_state n st" "n < 10" "distinct (keys flds)" "set (keys flds) \<inter> reserved = {}"
    and "list_all (\<lambda>(k, v). \<not> list_ex is_surrogate k \<and> portable v) flds" "list_all (\<lambda>c. c < 128) (S kd)"
  shows "\<exists>ev st'. emit sample_env kd flds st = (Inr ev, st') \<and> sample_state (Suc n) st'"
proof -
  have "portable (JDict (base_event sample_env kd st @ flds))"
    by (rule sample_portable) (use assms in \<open>auto simp: sample_state_def\<close>)
  from emit_total[OF assms(3,4) this sample_ok(3)]
  obtain ev st' where e: "emit sample_env kd flds st = (Inr ev, st')" by blast
  from emit_shape[OF e assms(3,4)] obtain h where
    "st' = st\<lparr>re_ticks := Suc (re_ticks st), re_seq := Suc (re_seq st), re_prev := JStr h,
               re_events := re_events st @ [ev], re_text := re_text st'\<rparr>" "h = hash_prefix @ replicate 64 48"
    by (auto simp: sample_env_def)
  then have "re_session st' = re_session st \<and> re_seq st' = Suc (re_seq st) \<and> re_agent st' = re_agent st
      \<and> re_meta st' = re_meta st \<and> re_prev st' = JStr (hash_prefix @ replicate 64 48)"
    by (metis recorder.select_convs recorder.surjective recorder.update_convs)
  with e assms(1) show ?thesis by (auto simp: sample_state_def)
qed

text \<open>A tool with a NaN outside the contract fields: it has a hash, but an event with it has none.\<close>

definition odd_tool :: event where
  "odd_tool = [(S ''name'', JStr (S ''t'')), (S ''inputSchema'', JDict []), (S ''x'', JFloat FNan)]"

lemma odd_hash: "\<exists>h. tool_hash (e_sha sample_env) odd_tool = Inr h"
proof -
  let ?m = "JDict [(S ''name'', JStr (S ''t'')), (S ''description'', JStr []), (S ''inputSchema'', JDict [])]"
  have norm: "normalize_tool odd_tool = Inr ?m"
    by (simp add: odd_tool_def normalize_tool_def normalize_JDict norm_required_def dict_get.simps)
  have "portable ?m" by (simp add: keys_encodable_def S_def is_surrogate_def)
  then obtain s where "canonical_json ?m = Inr s" using canonical_portable[of ?m] by (simp only: if_True) blast
  then show ?thesis using norm by (simp add: tool_hash_def sha256_hex_def del: canonical_json.simps)
qed

lemma odd_raises:
  assumes "re_defs st = []"
  shows "\<exists>h. tool_hash (e_sha sample_env) odd_tool = Inr h \<and> record_definition sample_env (S ''s'') odd_tool st
    = (Inl ValueError, st\<lparr>re_defs := [((S ''s'', JStr (S ''t'')), (h, odd_tool))], re_ticks := Suc (re_ticks st)\<rparr>)"
proof -
  obtain h where h: "tool_hash (e_sha sample_env) odd_tool = Inr h" using odd_hash by blast
  let ?st = "st\<lparr>re_defs := [((S ''s'', JStr (S ''t'')), (h, odd_tool))]\<rparr>"
  let ?f = "[(S ''server'', JStr (S ''s'')), (S ''tool'', JDict odd_tool), (S ''def_hash'', JStr h)]"
  have "dict_merge (base_event sample_env ''tool_definition'' ?st) ?f = base_event sample_env ''tool_definition'' ?st @ ?f"
    unfolding dict_merge_def by (rule fold_update_append) (auto simp: base_event_def)
  moreover have "\<not> portable (JDict (strip_hash (base_event sample_env ''tool_definition'' ?st @ ?f)))"
    by (simp add: odd_tool_def)
  then have "event_hash (e_sha sample_env) (base_event sample_env ''tool_definition'' ?st @ ?f) = Inl ValueError"
    using canonical_portable[of "JDict (strip_hash (base_event sample_env ''tool_definition'' ?st @ ?f))"]
    unfolding event_hash_def sha256_hex_def by (simp only: if_False) simp
  ultimately have "emit sample_env ''tool_definition'' ?f ?st = (Inl ValueError, ?st\<lparr>re_ticks := Suc (re_ticks ?st)\<rparr>)"
    by (simp add: emit_def Let_def)
  then show ?thesis
    using h assms by (simp add: record_definition_def bindS_def liftS_def getS_def modifyS_def odd_tool_def)
qed


text \<open>A recording of one event, for the chain of hashes.\<close>

lemma sample_chain:
  "\<exists>ev. verify (e_sha sample_env) sample_errs (JStr (S ''s'')) [ev] = [] \<and> wf_json (JDict ev)"
proof -
  let ?s0 = "recorder_init (S ''s'') (S ''a'') None" and ?f = "[(S ''agent'', JStr (S ''a''))]"
  have "sample_state 0 ?s0" by (simp add: sample_state_def recorder_init_def)
  from sample_emit[OF this, of ?f "''session_start''"]
  obtain ev s1 where 1: "emit sample_env ''session_start'' ?f ?s0 = (Inr ev, s1)"
    by (auto simp: reserved_def S_def list_ex_iff is_surrogate_def)
  then have "enter sample_env ?s0 = (Inr (), s1)"
    by (simp add: enter_def bindS_def getS_def returnS_def recorder_init_def)
  from enter_inv[OF sample_ok(1,2) _ _ this] have inv: "sess_inv sample_env sample_errs s1" by simp
  have keys: "distinct (keys ?f)" "set (keys ?f) \<inter> reserved = {}" by (auto simp: reserved_def)
  obtain h b where ev: "ev = base_event sample_env ''session_start'' ?s0 @ ?f @ [(S ''event_hash'', JStr h)]"
    "h = hash_prefix @ e_sha sample_env b"
    "s1 = ?s0\<lparr>re_ticks := Suc (re_ticks ?s0), re_seq := Suc (re_seq ?s0), re_prev := JStr h,
               re_events := re_events ?s0 @ [ev], re_text := re_text s1\<rparr>"
    using emit_shape[OF 1 keys] by blast
  have "re_events s1 = [ev]" using arg_cong[OF ev(3), of re_events] by (simp add: recorder_init_def)
  moreover have "re_session s1 = S ''s''" using arg_cong[OF ev(3), of re_session] by (simp add: recorder_init_def)
  ultimately have one: "re_events s1 = [ev]" "re_session s1 = S ''s''" by blast+
  from inv one have "verify (e_sha sample_env) sample_errs (JStr (S ''s'')) [ev] = []"
    by (auto simp: sess_inv_def core_inv_def verify_def only_def)
  moreover have "wf_json (JDict ev)"
    by (simp add: ev(1,2) base_event_def recorder_init_def sample_env_def hash_prefix_def wf_str_def S_def list_all_iff)
  ultimately show ?thesis by blast
qed

theorem chain_commits_witness:
  "\<exists>(ev :: event). verify (e_sha sample_env) sample_errs (JStr (S ''s'')) [ev] = []
     \<and> list_all2 (\<lambda>e f. same_value (JDict e) (JDict f)) [ev] [ev]"
proof -
  obtain ev where ev: "verify (e_sha sample_env) sample_errs (JStr (S ''s'')) [ev] = []" "wf_json (JDict ev)"
    using sample_chain by blast
  have "inj_on (e_sha sample_env) (hashed_texts ([ev] @ [ev]))"
  proof (cases "canonical_json (JDict (strip_hash ev))")
    case (Inr t)
    then have "hashed_texts ([ev] @ [ev]) \<subseteq> {utf8 t}" unfolding hashed_texts_def by force
    moreover have "inj_on (e_sha sample_env) {utf8 t}" by simp
    ultimately show ?thesis by (rule inj_on_subset[rotated])
  next
    case (Inl e)
    then have "hashed_texts ([ev] @ [ev]) = {}" unfolding hashed_texts_def by force
    then show ?thesis by simp
  qed
  from chain_commits[OF ev(1) ev(1) refl _ this] ev show ?thesis by auto
qed

section \<open>A definition that cannot be written\<close>

text \<open>A definition whose hash is defined but whose event is not (a value outside the contract
  fields has no canonical form) is taken as recorded although nothing was written: the second
  attempt is skipped in silence, and later calls refer to a definition that is not there.\<close>

theorem failed_definition_kept:
  assumes "map_of tool (S ''name'') = Some (JStr n)" and "tool_hash (e_sha E) tool = Inr h"
    and "record_definition E server tool st = (Inl e, st')"
  shows "re_events st' = re_events st \<and> map_of (re_defs st') (server, JStr n) = Some (h, tool)
     \<and> record_definition E server tool st' = (Inr (), st')"
proof -
  let ?st = "st\<lparr>re_defs := AList.update (server, JStr n) (h, tool) (re_defs st)\<rparr>"
  have "bindS (emit E ''tool_definition''
          [(S ''server'', JStr server), (S ''tool'', JDict tool), (S ''def_hash'', JStr h)]) (\<lambda>_. returnS ()) ?st = (Inl e, st')"
    using assms by (auto simp: record_definition_def bindS_def liftS_def getS_def modifyS_def returnS_def split: if_splits)
  then have "emit E ''tool_definition''
          [(S ''server'', JStr server), (S ''tool'', JDict tool), (S ''def_hash'', JStr h)] ?st = (Inl e, st')"
    by (auto simp: bindS_def returnS_def split: prod.splits sum.splits)
  then have "st' = ?st\<lparr>re_ticks := Suc (re_ticks st)\<rparr>"
    by (auto simp: emit_def Let_def split: sum.splits)
  then have *: "re_events st' = re_events st" "map_of (re_defs st') (server, JStr n) = Some (h, tool)"
    by (simp_all add: update_conv')
  moreover have "record_definition E server tool st' = (Inr (), st')"
    using assms(1,2) *(2) by (simp add: record_definition_def bindS_def liftS_def getS_def returnS_def)
  ultimately show ?thesis by blast
qed

theorem failed_definition_kept_witness:
  "\<exists>h (st' :: recorder). record_definition sample_env (S ''s'') odd_tool (recorder_init (S ''s'') (S ''a'') None) = (Inl ValueError, st')
     \<and> re_events st' = [] \<and> map_of (re_defs st') (S ''s'', JStr (S ''t'')) = Some (h, odd_tool)"
proof -
  let ?s0 = "recorder_init (S ''s'') (S ''a'') None"
  obtain h st' where h: "tool_hash (e_sha sample_env) odd_tool = Inr h"
    and run: "record_definition sample_env (S ''s'') odd_tool ?s0 = (Inl ValueError, st')"
    using odd_raises[of ?s0] by (auto simp: recorder_init_def)
  have "map_of odd_tool (S ''name'') = Some (JStr (S ''t''))" by (simp add: odd_tool_def)
  from failed_definition_kept[OF this h run] run show ?thesis by (auto simp: recorder_init_def)
qed

end
