(* ===== verification/Redact.thy ===== *)
theory Redact
  imports Patterns Recorder_Facts
begin

text \<open>
  The default redaction (\<open>harness/redact.py\<close>), which the recorder applies to arguments and
  results before they are written, and what it gives a recording: what stands under a secret
  key leaves no trace in what is written. A tuple is not a JSON value.
\<close>

definition default_secret_key_pattern :: "unidata \<Rightarrow> rx" where
  "default_secret_key_pattern u =
     alts [lit u ''password'', lit u ''token'', lit u ''secret'',
           seqs [lit u ''api'', opt (Cls (one_of ''_-'')), lit u ''key''], lit u ''authorization'']"

definition redacted :: pystr where "redacted = S ''***REDACTED***''"

text \<open>\<open>key_pattern.search(k)\<close>; a key of a JSON object is always a string.\<close>

definition matches_key :: "unidata \<Rightarrow> rx \<Rightarrow> pystr \<Rightarrow> bool" where
  "matches_key u key_pattern k \<longleftrightarrow> search (u_word u) k key_pattern \<noteq> None"

fun redact_with :: "unidata \<Rightarrow> rx \<Rightarrow> json \<Rightarrow> json" where
  "redact_with u p (JDict d) =
     JDict (map (\<lambda>(k, v). (k, if matches_key u p k then JStr redacted else redact_with u p v)) d)"
| "redact_with u p (JList xs) = JList (map (redact_with u p) xs)"
| "redact_with u p v = v"

definition default_redact :: "unidata \<Rightarrow> json \<Rightarrow> json" where
  "default_redact u = redact_with u (default_secret_key_pattern u)"

definition secret_key :: "unidata \<Rightarrow> pystr \<Rightarrow> bool" where
  "secret_key u = matches_key u (default_secret_key_pattern u)"

section \<open>Which keys are secret\<close>

lemma wf_secret_pattern: "wf_rx (default_secret_key_pattern u)"
  by (simp add: default_secret_key_pattern_def wf_alts)

text \<open>A key that contains one of the words, in any case, is secret.\<close>

lemma secret_key_word:
  assumes "w \<in> {''password'', ''token'', ''secret'', ''authorization''}" "map (u_fold u) t = map (u_fold u) (S w)"
  shows "secret_key u (x @ t @ y)"
proof -
  have "mt (u_word u) (x @ t @ y) (default_secret_key_pattern u) (length x) (length x + length t)"
    unfolding default_secret_key_pattern_def
    by (rule mt_alts[of "lit u w"]) (use assms mt_chars[OF assms(2)] in \<open>auto simp: lit_def\<close>)
  moreover have "length x \<le> length (x @ t @ y)" by simp
  ultimately show ?thesis
    using search_None_iff[OF wf_secret_pattern, of "u_word u" "x @ t @ y"] unfolding secret_key_def matches_key_def by blast
qed

section \<open>Non-interference\<close>

lemma size_zip_entry [termination_simp]:
  "((k, v), y) \<in> set (zip d e) \<Longrightarrow> size v < Suc (size_list (\<lambda>x. Suc (size (snd x))) d)"
  by (drule set_zip_leftD, induction d) auto

text \<open>Two values that differ at most in what stands under keys of the pattern.\<close>

fun agree :: "(pystr \<Rightarrow> bool) \<Rightarrow> json \<Rightarrow> json \<Rightarrow> bool" where
  "agree hid (JDict d) b = (case b of
     JDict e \<Rightarrow> length d = length e \<and>
       list_all (\<lambda>((k, v), (l, w)). k = l \<and> (\<not> hid k \<longrightarrow> agree hid v w)) (zip d e)
   | _ \<Rightarrow> False)"
| "agree hid (JList xs) b = (case b of
     JList ys \<Rightarrow> length xs = length ys \<and> list_all (\<lambda>(x, y). agree hid x y) (zip xs ys)
   | _ \<Rightarrow> False)"
| "agree hid a b = (a = b)"

lemma map_zip_eq:
  "length xs = length ys \<Longrightarrow> (\<And>x y. (x, y) \<in> set (zip xs ys) \<Longrightarrow> f x = f y) \<Longrightarrow> map f xs = map f ys"
  by (induction xs ys rule: list_induct2) auto

lemma redact_agree: "agree (matches_key u p) a b \<Longrightarrow> redact_with u p a = redact_with u p b"
proof (induction a arbitrary: b)
  case (JDict d)
  then obtain e where e: "b = JDict e" "length d = length e"
      "\<forall>((k, v), (l, w)) \<in> set (zip d e). k = l \<and> (\<not> matches_key u p k \<longrightarrow> agree (matches_key u p) v w)"
    by (auto split: json.splits simp: list_all_iff)
  have "(case x of (k, v) \<Rightarrow> (k, if matches_key u p k then JStr redacted else redact_with u p v))
      = (case y of (k, v) \<Rightarrow> (k, if matches_key u p k then JStr redacted else redact_with u p v))"
    if "(x, y) \<in> set (zip d e)" for x y
    using e(3) that JDict.IH[of x "snd x" "snd y"] set_zip_leftD[OF that] by (cases x; cases y) fastforce
  from map_zip_eq[OF e(2) this] show ?case using e(1) by simp
next
  case (JList xs)
  then obtain ys where ys: "b = JList ys" "length xs = length ys" "\<forall>(x, y) \<in> set (zip xs ys). agree (matches_key u p) x y"
    by (auto split: json.splits simp: list_all_iff)
  have "redact_with u p x = redact_with u p y" if "(x, y) \<in> set (zip xs ys)" for x y
    using ys(3) that JList.IH[OF set_zip_leftD[OF that]] by auto
  from map_zip_eq[OF ys(2) this] ys(1) show ?case by simp
qed auto

lemma agree_truthy: "agree hid a b \<Longrightarrow> truthy a = truthy b"
  by (cases a) (auto split: json.splits)

fun agree_out :: "(pystr \<Rightarrow> bool) \<Rightarrow> failure + json \<Rightarrow> failure + json \<Rightarrow> bool" where
  "agree_out hid (Inr a) (Inr b) = agree hid a b"
| "agree_out hid r s = (r = s)"

fun agree_call :: "(pystr \<Rightarrow> bool) \<Rightarrow> rec_call \<Rightarrow> rec_call \<Rightarrow> bool" where
  "agree_call hid (Call server name args out ms tool_def) c = (case c of
     Call server' name' args' out' ms' tool_def' \<Rightarrow> server' = server \<and> name' = name \<and> ms' = ms
       \<and> tool_def' = tool_def \<and> agree hid args args' \<and> agree_out hid out out'
   | _ \<Rightarrow> False)"
| "agree_call hid (McpCall server name args out ms) c = (case c of
     McpCall server' name' args' out' ms' \<Rightarrow> server' = server \<and> name' = name \<and> ms' = ms
       \<and> rel_option (agree hid) args args' \<and> agree_out hid out out'
   | _ \<Rightarrow> False)"
| "agree_call hid a b = (a = b)"

lemma emit_call_redacts: "e_redact E a = e_redact E b \<Longrightarrow> emit_call E server name h a = emit_call E server name h b"
  by (simp add: emit_call_def)

lemma emit_ok_redacts: "e_redact E a = e_redact E b \<Longrightarrow> emit_ok_response E c a ms = emit_ok_response E c b ms"
  by (simp add: emit_ok_response_def)

lemma bindS_returnS [simp]: "bindS (returnS x) f = f x"
  by (rule ext) (simp add: bindS_def returnS_def)

lemma response_agree:
  assumes "e_redact E = redact_with u p" "agree_out (matches_key u p) out out'"
  shows "bindS (case out of
           Inl exc \<Rightarrow> bindS (emit_error_response E c exc ms) (\<lambda>_. returnS (Inl exc))
         | Inr r \<Rightarrow> bindS (emit_ok_response E c r ms) (\<lambda>_. returnS (Inr r))) (\<lambda>_. returnS ())
     = bindS (case out' of
           Inl exc \<Rightarrow> bindS (emit_error_response E c exc ms) (\<lambda>_. returnS (Inl exc))
         | Inr r \<Rightarrow> bindS (emit_ok_response E c r ms) (\<lambda>_. returnS (Inr r))) (\<lambda>_. returnS ())"
proof (cases out)
  case (Inr a)
  with assms(2) obtain b where b: "out' = Inr b" "agree (matches_key u p) a b" by (cases out') auto
  with Inr emit_ok_redacts[of E a b] redact_agree[OF b(2)] assms(1) show ?thesis by (simp add: bindS_assoc)
qed (use assms(2) in simp)

lemma do_call_agree:
  assumes "e_redact E = redact_with u p" "agree_call (matches_key u p) a b"
  shows "do_call E a = do_call E b"
proof (cases a)
  case (Call server name args out ms tool_def)
  then obtain args' out' where b: "b = Call server name args' out' ms tool_def"
      "agree (matches_key u p) args args'" "agree_out (matches_key u p) out out'"
    using assms(2) by (cases b) auto
  have "emit_call E server name h args = emit_call E server name h args'" for h
    by (rule emit_call_redacts) (simp add: assms(1) redact_agree[OF b(2)])
  then show ?thesis
    using response_agree[OF assms(1) b(3)] by (simp add: Call b(1) call_def bindS_assoc)
next
  case (McpCall server name args out ms)
  then obtain args' out' where b: "b = McpCall server name args' out' ms"
      "rel_option (agree (matches_key u p)) args args'" "agree_out (matches_key u p) out out'"
    using assms(2) by (cases b) auto
  define f where "f x = (case x of Some v \<Rightarrow> if truthy v then v else JDict [] | None \<Rightarrow> JDict [])" for x
  have "agree (matches_key u p) (f args) (f args')"
    using b(2) by (cases args; cases args') (auto simp: f_def dest: agree_truthy)
  then have "emit_call E server name h (f args) = emit_call E server name h (f args')" for h
    by (intro emit_call_redacts) (simp add: assms(1) redact_agree)
  then show ?thesis
    using response_agree[OF assms(1) b(3)] unfolding f_def
    by (simp add: McpCall b(1) session_call_tool_def Let_def bindS_assoc)
qed (use assms(2) in auto)

lemma forS_cong: "list_all2 (\<lambda>x y. f x = g y) xs ys \<Longrightarrow> forS f xs = forS g ys"
  by (induction rule: list_all2_induct) (auto simp: fun_eq_iff bindS_def split: prod.splits sum.splits)


definition login :: "string \<Rightarrow> rec_call" where
  "login pw = Call (S ''s'') (JStr (S ''login'')) (JDict [(S ''user'', JStr (S ''ann'')), (S ''db_Password'', JStr (S pw))])
     (Inr (JDict [(S ''ok'', JBool True), (S ''sessionToken'', JStr (S pw))])) (JInt 1) None"


end
