(* ===== verification/Behavior_Diff.thy ===== *)
theory Behavior_Diff
  imports Description_Facts Recording
begin

text \<open>
  The behaviour layer (\<open>harness/diff/behavior_diff.py\<close>): the shape of the recorded responses,
  the error rate, and injection-like content in responses. A shape maps a path to the set of
  JSON types seen there. Rates are doubles; \<open>shortest\<close> is their \<open>repr\<close>.
\<close>

section \<open>Shapes\<close>

fun json_type :: "json \<Rightarrow> pystr" where
  "json_type JNull = S ''null''"
| "json_type (JBool b) = S ''boolean''"
| "json_type (JInt n) = S ''integer''"
| "json_type (JFloat x) = S ''number''"
| "json_type (JStr s) = S ''string''"
| "json_type (JList xs) = S ''array''"
| "json_type (JDict d) = S ''object''"

type_synonym shape = "(pystr \<times> pystr set) list"

definition types_at :: "shape \<Rightarrow> pystr \<Rightarrow> pystr set" where
  "types_at sh p = (case map_of sh p of Some ts \<Rightarrow> ts | None \<Rightarrow> {})"

definition add_type :: "shape \<Rightarrow> pystr \<Rightarrow> pystr \<Rightarrow> shape" where
  "add_type sh p t = AList.update p (insert t (types_at sh p)) sh"

fun walk :: "json \<Rightarrow> pystr \<Rightarrow> shape \<Rightarrow> shape" where
  "walk (JDict d) p sh = fold (\<lambda>(k, v) s. walk v (p @ S ''/'' @ k) s) d (add_type sh p (S ''object''))"
| "walk (JList xs) p sh = fold (\<lambda>v s. walk v (p @ S ''/[]'') s) xs (add_type sh p (S ''array''))"
| "walk v p sh = add_type sh p (json_type v)"

definition infer_shape :: "call_record list \<Rightarrow> shape" where
  "infer_shape calls = fold (\<lambda>c sh. if truthy (cl_ok c) then walk (cl_result c) [] sh else sh) calls []"

definition sorted_types :: "pystr set \<Rightarrow> json" where
  "sorted_types ts = JList (map JStr (sorted_list_of_set ts))"

definition shape_finding :: "pystr \<Rightarrow> pystr \<Rightarrow> pystr set \<Rightarrow> pystr set \<Rightarrow> finding" where
  "shape_finding tool pointer before_types after_types =
     (let path = S ''/result'' @ pointer; b = sorted_types before_types; a = sorted_types after_types in
      \<lparr>f_severity = WARN, f_rule = ''RESPONSE_SHAPE_CHANGED'', f_path = path,
       f_message = [Lit ''response shape at '', Rep (JStr path), Lit '' changed: '', Shown b, Lit '' -> '', Shown a],
       f_tool = Some tool, f_before = b, f_after = a\<rparr>)"

definition compare_shapes :: "pystr \<Rightarrow> shape \<Rightarrow> shape \<Rightarrow> finding list" where
  "compare_shapes tool before_shape after_shape =
     map (\<lambda>p. shape_finding tool p (types_at before_shape p) (types_at after_shape p))
       (filter (\<lambda>p. types_at before_shape p \<noteq> types_at after_shape p)
         (sorted_list_of_set (set (keys before_shape) \<union> set (keys after_shape))))"

section \<open>Error rates\<close>

text \<open>The shortest decimal that reads back as the double \<open>q\<close> of the unit interval, and the nearest
  one of that length: what \<open>repr\<close> prints. No double needs more than 400 decimal places here.\<close>

definition decimals :: "rat \<Rightarrow> nat \<Rightarrow> jfloat list" where
  "decimals q k =
     (let x = q * 10 ^ k; lo = \<lfloor>x\<rfloor>; below = x - of_int lo;
          near = (if below < 1 / 2 \<or> below = 1 / 2 \<and> even lo then [lo, lo + 1] else [lo + 1, lo])
      in filter (\<lambda>f. numval (JFloat f) = Some (Rat q)) (map (\<lambda>d. Dec False (nat d) (- int k)) near))"

fun first_decimal :: "rat \<Rightarrow> nat \<Rightarrow> nat \<Rightarrow> jfloat" where
  "first_decimal q 0 k = FNan"
| "first_decimal q (Suc n) k = (case decimals q k of f # _ \<Rightarrow> f | [] \<Rightarrow> first_decimal q n (Suc k))"

definition shortest :: "rat \<Rightarrow> jfloat" where "shortest q = first_decimal q 400 0"

text \<open>\<open>f"{x:.0%}"\<close>\<close>

definition percent0 :: "rat \<Rightarrow> pystr" where
  "percent0 q = str_int (round_half_even (fl_mul q 100)) @ S ''%''"

definition default_min_calls_for_error_rate :: nat where "default_min_calls_for_error_rate = 3"
definition default_error_rate_delta :: rat where "default_error_rate_delta = dbl (2 / 10)"

definition error_rate :: "call_record list \<Rightarrow> rat option" where
  "error_rate calls =
     (if calls = [] then None
      else Some (fl_div (of_nat (length (filter (\<lambda>c. cl_ok c = JBool False) calls))) (of_nat (length calls))))"

definition diff_error_rate ::
  "pystr \<Rightarrow> call_record list \<Rightarrow> call_record list \<Rightarrow> nat \<Rightarrow> rat \<Rightarrow> finding list" where
  "diff_error_rate tool before_calls after_calls min_calls delta_threshold =
     (if length before_calls < min_calls \<or> length after_calls < min_calls then []
      else case (error_rate before_calls, error_rate after_calls) of
        (Some b, Some a) \<Rightarrow>
          if \<bar>dbl (a - b)\<bar> < delta_threshold then []
          else [\<lparr>f_severity = WARN, f_rule = ''ERROR_RATE_CHANGED'', f_path = S ''/responses/error_rate'',
                 f_message = [Lit ''error rate changed from '', Txt (percent0 b), Lit '' ('',
                   Txt (str_nat (length before_calls)), Lit '' calls) to '', Txt (percent0 a), Lit '' ('',
                   Txt (str_nat (length after_calls)), Lit '' calls)''],
                 f_tool = Some tool, f_before = JFloat (shortest b), f_after = JFloat (shortest a)\<rparr>]
      | _ \<Rightarrow> [])"

section \<open>Responses\<close>

text \<open>\<open>json.dumps(value, ensure_ascii=False)\<close>: it writes NaN and the infinities too.\<close>

definition dumps_char :: "nat \<Rightarrow> pystr" where
  "dumps_char c = (case map_of escapes c of
     Some l \<Rightarrow> [92, l] | None \<Rightarrow> if c < 0x20 then [92, 117] @ hex_pad 4 c else [c])"

definition dumps_str :: "pystr \<Rightarrow> pystr" where
  "dumps_str s = [34] @ concat (map dumps_char s) @ [34]"

definition dumps_float :: "jfloat \<Rightarrow> pystr" where
  "dumps_float x = (case x of FNan \<Rightarrow> S ''NaN'' | FInf s \<Rightarrow> (if s then S ''-Infinity'' else S ''Infinity'')
     | Dec s d e \<Rightarrow> repr_float x)"

fun json_dumps :: "json \<Rightarrow> pystr" where
  "json_dumps JNull = S ''null''"
| "json_dumps (JBool b) = (if b then S ''true'' else S ''false'')"
| "json_dumps (JInt n) = str_int n"
| "json_dumps (JFloat x) = dumps_float x"
| "json_dumps (JStr s) = dumps_str s"
| "json_dumps (JList xs) = S ''['' @ join (S '', '') (map json_dumps xs) @ S '']''"
| "json_dumps (JDict d) =
     S ''{'' @ join (S '', '') (map (\<lambda>(k, v). dumps_str k @ S '': '' @ json_dumps v) d) @ S ''}''"

definition stringify :: "json \<Rightarrow> pystr" where
  "stringify v = (case v of JStr s \<Rightarrow> s | _ \<Rightarrow> json_dumps v)"

definition response_text :: "call_record list \<Rightarrow> pystr" where
  "response_text calls = join [10] (map (\<lambda>c. stringify (cl_result c)) (filter (\<lambda>c. truthy (cl_ok c)) calls))"

definition injection_finding :: "pystr \<Rightarrow> pattern_match \<Rightarrow> finding" where
  "injection_finding tool m =
     \<lparr>f_severity = SECURITY, f_rule = ''RESPONSE_INJECTION_PATTERN'', f_path = S ''/responses'',
      f_message = [Lit ''tool responses now contain '', Rep (JStr (pm_category m)),
        Lit ''-like content not present in the baseline's responses: '', Rep (JStr (pm_snippet m))],
      f_tool = Some tool, f_before = JNull, f_after = JStr (pm_snippet m)\<rparr>"

definition diff_response_injection ::
  "unidata \<Rightarrow> pystr \<Rightarrow> call_record list \<Rightarrow> call_record list \<Rightarrow> pystr list \<Rightarrow> finding list" where
  "diff_response_injection u tool before_calls after_calls other_tool_names =
     map (injection_finding tool)
       (new_matches u (response_text before_calls) (response_text after_calls) other_tool_names)"

definition diff_behavior ::
  "unidata \<Rightarrow> pystr \<Rightarrow> call_record list \<Rightarrow> call_record list \<Rightarrow> nat \<Rightarrow> rat \<Rightarrow> pystr list \<Rightarrow> finding list" where
  "diff_behavior u tool before_calls after_calls min_calls delta other_tool_names =
     compare_shapes tool (infer_shape before_calls) (infer_shape after_calls)
     @ diff_error_rate tool before_calls after_calls min_calls delta
     @ diff_response_injection u tool before_calls after_calls other_tool_names"

section \<open>Nothing changed, nothing found\<close>

lemma compare_same: "compare_shapes tool sh sh = []"
  by (simp add: compare_shapes_def)

lemma dbl_0 [simp]: "dbl 0 = 0"
  by (simp add: dbl_def)

lemma error_rate_same: "0 < delta \<Longrightarrow> diff_error_rate tool cs cs n delta = []"
  by (simp add: diff_error_rate_def split: option.split)

lemma new_matches_same: "new_matches u tx tx names = []"
  by (auto simp: new_matches_def Let_def filter_empty_conv)

lemma behavior_same: "0 < delta \<Longrightarrow> diff_behavior u tool cs cs n delta names = []"
  by (simp add: diff_behavior_def compare_same error_rate_same diff_response_injection_def new_matches_same)

section \<open>What a shape records\<close>

text \<open>The declarative meaning: the value \<open>v\<close> at path \<open>p\<close> inside a value at path \<open>q\<close>.\<close>

inductive located :: "json \<Rightarrow> pystr \<Rightarrow> pystr \<Rightarrow> json \<Rightarrow> bool" where
  here: "located v p p v"
| field: "(k, v) \<in> set d \<Longrightarrow> located v (p @ S ''/'' @ k) q w \<Longrightarrow> located (JDict d) p q w"
| element: "v \<in> set xs \<Longrightarrow> located v (p @ S ''/[]'') q w \<Longrightarrow> located (JList xs) p q w"

inductive_simps located_simps: "located JNull p q w" "located (JBool b) p q w" "located (JInt n) p q w"
  "located (JFloat x) p q w" "located (JStr s) p q w" "located (JList xs) p q w" "located (JDict d) p q w"

lemma types_at_add: "types_at (add_type sh p t) q = (if q = p then insert t (types_at sh p) else types_at sh q)"
  by (simp add: types_at_def add_type_def update_conv')

lemma fold_types:
  assumes "\<And>x s. x \<in> set xs \<Longrightarrow> types_at (f x s) q = types_at s q \<union> g x"
  shows "types_at (fold f xs s) q = types_at s q \<union> (\<Union>x \<in> set xs. g x)"
  using assms by (induction xs arbitrary: s) auto

definition seen_in :: "json \<Rightarrow> pystr \<Rightarrow> pystr \<Rightarrow> pystr set" where
  "seen_in v p q = {json_type w | w. located v p q w}"

lemma seen_in_simps:
  "seen_in (JDict d) p q = (if p = q then {S ''object''} else {}) \<union> (\<Union>x \<in> set d. seen_in (snd x) (p @ S ''/'' @ fst x) q)"
  "seen_in (JList xs) p q = (if p = q then {S ''array''} else {}) \<union> (\<Union>v \<in> set xs. seen_in v (p @ S ''/[]'') q)"
  "seen_in JNull p q = (if p = q then {S ''null''} else {})" "seen_in (JBool b) p q = (if p = q then {S ''boolean''} else {})"
  "seen_in (JInt n) p q = (if p = q then {S ''integer''} else {})" "seen_in (JFloat x) p q = (if p = q then {S ''number''} else {})"
  "seen_in (JStr s) p q = (if p = q then {S ''string''} else {})"
  by (force simp: seen_in_def located_simps)+

lemma walk_types: "types_at (walk v p sh) q = types_at sh q \<union> seen_in v p q"
proof (induction v arbitrary: p sh)
  case (JDict d)
  have "types_at ((\<lambda>(k, v) s. walk v (p @ S ''/'' @ k) s) x s) q = types_at s q \<union> seen_in (snd x) (p @ S ''/'' @ fst x) q"
    if "x \<in> set d" for x s
    using JDict.IH[OF that, of "snd x"] by (cases x) simp
  from fold_types[of d _ q, OF this] show ?case by (auto simp: types_at_add seen_in_simps)
next
  case (JList xs)
  from fold_types[of xs _ q, OF JList.IH] show ?case by (auto simp: types_at_add seen_in_simps)
qed (auto simp: types_at_add seen_in_simps)

text \<open>The types observed at a path in the successful responses of the calls.\<close>

definition observed :: "call_record list \<Rightarrow> pystr \<Rightarrow> pystr set" where
  "observed calls q = (\<Union>c \<in> {c \<in> set calls. truthy (cl_ok c)}. seen_in (cl_result c) [] q)"

lemma infer_types: "types_at (infer_shape calls) q = observed calls q"
proof -
  have "types_at (infer_shape calls) q = types_at [] q \<union> (\<Union>c \<in> set calls. if truthy (cl_ok c) then seen_in (cl_result c) [] q else {})"
    unfolding infer_shape_def by (rule fold_types) (simp add: walk_types)
  then show ?thesis by (auto simp: observed_def types_at_def split: if_splits)
qed

lemma types_at_keys: "types_at sh p \<noteq> {} \<Longrightarrow> p \<in> set (keys sh)"
  by (auto simp: types_at_def map_of_eq_None_keys[symmetric] simp del: set_map split: option.splits dest: map_of_Some_keys)

lemma f_path_shape [simp]: "f_path (shape_finding tool q x y) = S ''/result'' @ q"
  by (simp add: shape_finding_def Let_def)

lemma compare_shapes_mem:
  "f \<in> set (compare_shapes tool a b) \<longleftrightarrow> (\<exists>q. q \<in> set (keys a) \<union> set (keys b) \<and> types_at a q \<noteq> types_at b q
     \<and> f = shape_finding tool q (types_at a q) (types_at b q))"
proof -
  have "set (sorted_list_of_set (set (keys a) \<union> set (keys b))) = set (keys a) \<union> set (keys b)"
    by (rule set_sorted_list_of_set) simp
  then show ?thesis unfolding compare_shapes_def set_map set_filter by (simp only: image_iff) blast
qed

lemma compare_shapes_iff:
  "(\<exists>f \<in> set (compare_shapes tool a b). f_path f = S ''/result'' @ p) \<longleftrightarrow> types_at a p \<noteq> types_at b p" (is "?L \<longleftrightarrow> ?R")
proof
  assume ?L
  then obtain f where f: "f \<in> set (compare_shapes tool a b)" "f_path f = S ''/result'' @ p" ..
  obtain q where "types_at a q \<noteq> types_at b q" "f = shape_finding tool q (types_at a q) (types_at b q)"
    using compare_shapes_mem[THEN iffD1, OF f(1)] by (elim exE conjE)
  with f(2) show ?R by simp
next
  assume r: ?R
  then have "p \<in> set (keys a) \<union> set (keys b)" using types_at_keys[of a p] types_at_keys[of b p] by blast
  with r have "shape_finding tool p (types_at a p) (types_at b p) \<in> set (compare_shapes tool a b)"
    unfolding compare_shapes_mem by blast
  then show ?L by (rule bexI[rotated]) simp
qed

text \<open>C40 The behaviour layer warns of a shape at a path exactly when the sets of JSON types that
  the successful responses carry there differ, whatever the order and number of the calls.\<close>

theorem shape_warning_iff:
  "(\<exists>f \<in> set (diff_behavior u tool b a n delta names). f_rule f = ''RESPONSE_SHAPE_CHANGED'' \<and> f_path f = S ''/result'' @ p)
   \<longleftrightarrow> observed b p \<noteq> observed a p"
proof -
  have "f_rule f \<noteq> ''RESPONSE_SHAPE_CHANGED''" if "f \<in> set (diff_error_rate tool b a n delta @ diff_response_injection u tool b a names)" for f
    using that by (auto simp: diff_error_rate_def diff_response_injection_def injection_finding_def split: option.splits if_splits)
  moreover have "f_rule f = ''RESPONSE_SHAPE_CHANGED''" if "f \<in> set (compare_shapes tool (infer_shape b) (infer_shape a))" for f
    using that by (auto simp: compare_shapes_def shape_finding_def Let_def)
  ultimately show ?thesis
    using compare_shapes_iff[of tool "infer_shape b" "infer_shape a" p] unfolding infer_types diff_behavior_def
    by (auto simp: infer_types)
qed

end
