(* ===== verification/Differ.thy ===== *)
theory Differ
  imports Control_Differ Behavior_Diff
begin

text \<open>
  The differ of two recordings (\<open>harness/diff/differ.py\<close>): tools that came or went, every
  definition of the current recording that is new against the baseline's last, and the
  behaviour of every tool. The order in which Python walks a frozenset of strings is the
  parameter \<open>set_order\<close>.
\<close>

declare dict_get.simps [simp del]

record report =
  rp_baseline :: pystr
  rp_current :: pystr
  rp_findings :: "finding list"

definition by_severity :: "report \<Rightarrow> severity \<Rightarrow> finding list" where
  "by_severity r sev = filter (\<lambda>f. f_severity f = sev) (rp_findings r)"

definition max_severity :: "report \<Rightarrow> severity option" where
  "max_severity r = find (\<lambda>s. s \<in> f_severity ` set (rp_findings r)) severity_order"

definition tool_or_empty :: "finding \<Rightarrow> pystr" where
  "tool_or_empty f = (case f_tool f of Some t \<Rightarrow> t | None \<Rightarrow> [])"

definition sorted_findings :: "report \<Rightarrow> finding list" where
  "sorted_findings r = sort_key (\<lambda>f. (severity_rank (f_severity f), tool_or_empty f, f_path f)) (rp_findings r)"

section \<open>The key that tells findings apart\<close>

text \<open>\<open>json.dumps\<close> of a string, ASCII only: a character beyond the BMP is a surrogate pair.\<close>

definition u_escape :: "nat \<Rightarrow> pystr" where "u_escape c = [92, 117] @ hex_pad 4 c"

definition ascii_char :: "nat \<Rightarrow> pystr" where
  "ascii_char c = (case map_of escapes c of
     Some l \<Rightarrow> [92, l]
   | None \<Rightarrow> if 32 \<le> c \<and> c \<le> 126 then [c]
             else if c < 0x10000 then u_escape c
             else u_escape (0xD800 + (c - 0x10000) div 1024) @ u_escape (0xDC00 + (c - 0x10000) mod 1024))"

definition ascii_str :: "pystr \<Rightarrow> pystr" where
  "ascii_str s = [34] @ concat (map ascii_char s) @ [34]"

definition dedup_key :: "unidata \<Rightarrow> finding \<Rightarrow> pystr" where
  "dedup_key u f = S ''['' @ join (S '', '')
     (map ascii_str [S (f_rule f), f_path f, render (u_printable u) (f_message f)]) @ S '']''"

section \<open>Two recordings\<close>

record diff_options =
  do_embedder :: "embedding option"
  do_judge :: "judge option"
  do_semantic_threshold :: jfloat
  do_min_calls :: nat
  do_delta :: rat

definition default_options :: diff_options where
  "default_options = \<lparr>do_embedder = None, do_judge = None, do_semantic_threshold = default_semantic_threshold,
     do_min_calls = default_min_calls_for_error_rate, do_delta = default_error_rate_delta\<rparr>"

definition version_findings ::
  "unidata \<Rightarrow> diff_options \<Rightarrow> pystr list \<Rightarrow> pystr \<Rightarrow> event \<Rightarrow> event \<Rightarrow> pyexc + finding list" where
  "version_findings u opts others name prior after =
     bindE (diff_tool u name prior after) (\<lambda>fs.
     bindE (diff_description_values u name (dict_get prior (S ''description'') (JStr []))
              (dict_get after (S ''description'') (JStr [])) others (do_embedder opts) (do_judge opts)
              (do_semantic_threshold opts)) (\<lambda>gs. Inr (fs @ gs)))"

record version_state =
  vs_hashes :: "pystr list"
  vs_keys :: "pystr list"
  vs_findings :: "finding list"

definition add_finding :: "unidata \<Rightarrow> finding \<Rightarrow> version_state \<Rightarrow> version_state" where
  "add_finding u f st =
     (let key = dedup_key u f in
      if key \<in> set (vs_keys st) then st
      else st\<lparr>vs_keys := vs_keys st @ [key], vs_findings := vs_findings st @ [f]\<rparr>)"

definition check_version ::
  "unidata \<Rightarrow> diff_options \<Rightarrow> pystr list \<Rightarrow> pystr \<Rightarrow> tool_version \<Rightarrow> version_state \<Rightarrow> tool_version \<Rightarrow>
   pyexc + version_state" where
  "check_version u opts others name prior st v =
     (if tv_def_hash v = tv_def_hash prior \<or> tv_def_hash v \<in> set (vs_hashes st) then Inr st
      else bindE (version_findings u opts others name (tv_tool prior) (tv_tool v)) (\<lambda>fs.
        Inr (fold (add_finding u) fs (st\<lparr>vs_hashes := vs_hashes st @ [tv_def_hash v]\<rparr>))))"

definition presence_finding :: "severity \<Rightarrow> string \<Rightarrow> string \<Rightarrow> pystr \<Rightarrow> pystr \<Rightarrow> json \<Rightarrow> json \<Rightarrow> finding" where
  "presence_finding sev rule what server name b a =
     \<lparr>f_severity = sev, f_rule = rule, f_path = S ''/'',
      f_message = [Lit ''tool '', Rep (JStr name), Lit '' (server '', Rep (JStr server), Lit '') is '', Lit what],
      f_tool = Some name, f_before = b, f_after = a\<rparr>"

definition definition_findings ::
  "unidata \<Rightarrow> diff_options \<Rightarrow> pystr list \<Rightarrow> recording \<Rightarrow> recording \<Rightarrow> pystr \<times> pystr \<Rightarrow> pyexc + finding list" where
  "definition_findings u opts others baseline current key =
     (case key of (server, name) \<Rightarrow>
      case (latest_tool baseline server name, latest_tool current server name) of
        (None, Some a) \<Rightarrow>
          Inr [presence_finding INFO ''TOOL_ADDED'' ''new in this recording'' server name JNull (JDict (tv_tool a))]
      | (Some b, None) \<Rightarrow>
          Inr [presence_finding BREAKING ''TOOL_REMOVED'' ''no longer offered'' server name (JDict (tv_tool b)) JNull]
      | (Some b, Some a) \<Rightarrow>
          bindE (foldE (check_version u opts others name b) \<lparr>vs_hashes = [], vs_keys = [], vs_findings = []\<rparr>
                  (case map_of (rc_tools current) key of Some vs \<Rightarrow> vs | None \<Rightarrow> []))
            (\<lambda>st. Inr (vs_findings st))
      | (None, None) \<Rightarrow> Inr [])"

definition all_keys :: "recording \<Rightarrow> recording \<Rightarrow> (pystr \<times> pystr) list" where
  "all_keys baseline current = sort (remdups (tool_keys baseline @ tool_keys current))"

definition other_names :: "(pystr list \<Rightarrow> pystr list) \<Rightarrow> (pystr \<times> pystr) list \<Rightarrow> pystr \<Rightarrow> pystr list" where
  "other_names set_order ks name = set_order (filter (\<lambda>n. n \<noteq> name) (remdups (map snd ks)))"

definition key_findings ::
  "unidata \<Rightarrow> (pystr list \<Rightarrow> pystr list) \<Rightarrow> diff_options \<Rightarrow> recording \<Rightarrow> recording \<Rightarrow> pystr \<times> pystr \<Rightarrow>
   pyexc + finding list" where
  "key_findings u set_order opts baseline current key =
     (let others = other_names set_order (all_keys baseline current) (snd key) in
      bindE (definition_findings u opts others baseline current key) (\<lambda>fs.
      Inr (fs @ diff_behavior u (snd key) (calls_for baseline (fst key) (snd key))
                  (calls_for current (fst key) (snd key)) (do_min_calls opts) (do_delta opts) others)))"

definition diff_recordings ::
  "unidata \<Rightarrow> (pystr list \<Rightarrow> pystr list) \<Rightarrow> diff_options \<Rightarrow> recording \<Rightarrow> recording \<Rightarrow> pyexc + report" where
  "diff_recordings u set_order opts baseline current =
     bindE (mapE (key_findings u set_order opts baseline current) (all_keys baseline current)) (\<lambda>fss.
     Inr \<lparr>rp_baseline = rc_path baseline, rp_current = rc_path current, rp_findings = concat fss\<rparr>)"

end
