(* ===== verification/Differ_Facts.thy ===== *)
theory Differ_Facts
  imports Differ
begin

text \<open>
  What a diff of two recordings cannot miss: every definition the current session showed is
  compared, and dropping duplicates never drops a severity, because the rule of a finding
  determines its severity (two rules apart) and is part of the key.
\<close>

section \<open>Rules and severities\<close>

definition rule_table :: "(string \<times> severity option) list" where
  "rule_table =
     [(''TYPE_CHANGED'', None), (''ANNOTATION_CHANGED'', None),
      (''ENUM_VALUE_REMOVED'', Some BREAKING), (''ENUM_VALUE_ADDED'', Some INFO),
      (''CONSTRAINT_TIGHTENED'', Some WARN), (''DEFAULT_CHANGED'', Some WARN),
      (''ADDITIONAL_PROPERTIES_RESTRICTED'', Some BREAKING),
      (''PARAM_RENAMED'', Some BREAKING), (''PARAM_REMOVED'', Some BREAKING),
      (''PARAM_ADDED_REQUIRED'', Some BREAKING), (''PARAM_ADDED_OPTIONAL'', Some INFO),
      (''REQUIRED_ADDED'', Some BREAKING), (''REQUIRED_REMOVED'', Some INFO),
      (''DESC_INJECTION_INSTRUCTION'', Some SECURITY), (''DESC_EXFIL_PATTERN'', Some SECURITY),
      (''DESC_SENSITIVE_PATTERN'', Some SECURITY), (''DESC_HIDDEN_TEXT'', Some SECURITY),
      (''DESC_CROSS_TOOL_REFERENCE'', Some SECURITY), (''DESC_SEMANTIC_CHANGE'', Some WARN),
      (''DESC_REWORDED'', Some INFO)]"

definition consistent :: "finding \<Rightarrow> bool" where
  "consistent f \<longleftrightarrow> map_of rule_table (f_rule f) \<in> {Some None, Some (Some (f_severity f))}"

definition determined :: "finding \<Rightarrow> bool" where
  "determined f \<longleftrightarrow> map_of rule_table (f_rule f) = Some (Some (f_severity f))"

lemma determined_consistent: "determined f \<Longrightarrow> consistent f"
  by (simp add: determined_def consistent_def)

lemma breaks_determined: "breaks f \<Longrightarrow> determined f"
  by (auto simp: breaks_def loss_rules_def determined_def rule_table_def)

lemma consistent_fnd:
  "consistent (fnd sev rule tool path msg b a) \<longleftrightarrow> map_of rule_table rule \<in> {Some None, Some (Some sev)}"
  by (simp add: consistent_def)

lemma consistent_rules:
  "f \<in> set (diff_type t p b a) \<Longrightarrow> consistent f"
  "diff_enum u t p b a = Inr fs \<Longrightarrow> f \<in> set fs \<Longrightarrow> consistent f"
  "diff_bound l t p b a k = Inr fs \<Longrightarrow> f \<in> set fs \<Longrightarrow> consistent f"
  "f \<in> set (diff_text_constraint t p b a k) \<Longrightarrow> consistent f"
  "f \<in> set (diff_default t p b a) \<Longrightarrow> consistent f"
  "f \<in> set (diff_additional_properties t p b a) \<Longrightarrow> consistent f"
  "f \<in> set (required_finding t p br ar n) \<Longrightarrow> consistent f"
  "f \<in> set (annotation_finding t x y n) \<Longrightarrow> consistent f"
  by (auto simp: diff_type_def diff_enum_def diff_bound_def diff_text_constraint_def diff_default_def
      diff_additional_properties_def required_finding_def annotation_finding_def consistent_fnd rule_table_def
      Let_def bindE_eq_Inr split: option.splits if_splits)

lemma consistent_constraints: "diff_constraints t p b a = Inr fs \<Longrightarrow> f \<in> set fs \<Longrightarrow> consistent f"
  by (auto simp: diff_constraints_def bindE_eq_Inr dest!: mapE_mem dest: consistent_rules(3,4))

lemma consistent_presence: "f \<in> set (presence_findings u t p bp ap r) \<Longrightarrow> consistent f"
  by (auto simp: presence_findings_def Let_def renamed_finding_def removed_finding_def added_finding_def
      consistent_fnd rule_table_def split: prod.splits if_splits)

text \<open>The parts of the findings of a node.\<close>

definition objectish :: "json \<Rightarrow> json \<Rightarrow> bool" where
  "objectish b a \<longleftrightarrow> S ''object'' \<in> set (type_set (dict_items b)) \<or> S ''object'' \<in> set (type_set (dict_items a))
     \<or> has_key (dict_items b) ''properties'' \<or> has_key (dict_items a) ''properties''"

definition arrayish :: "json \<Rightarrow> json \<Rightarrow> bool" where
  "arrayish b a \<longleftrightarrow> (S ''array'' \<in> set (type_set (dict_items b)) \<or> S ''array'' \<in> set (type_set (dict_items a))
     \<or> has_key (dict_items b) ''items'' \<or> has_key (dict_items a) ''items'')
     \<and> (is_dict (get (dict_items b) ''items'') \<or> is_dict (get (dict_items a) ''items''))"

lemma diff_node_eq:
  "diff_node u t p b a =
     bindE (diff_enum u t p (dict_items b) (dict_items a)) (\<lambda>en.
     bindE (diff_constraints t p (dict_items b) (dict_items a)) (\<lambda>co.
     bindE (if objectish b a then bindE (diff_properties u t p (dict_items b) (dict_items a))
         (\<lambda>x. Inr (x @ diff_additional_properties t p (dict_items b) (dict_items a))) else Inr []) (\<lambda>ob.
     bindE (if arrayish b a then diff_node u t (p @ S ''/items'') (get (dict_items b) ''items'') (get (dict_items a) ''items'')
         else Inr []) (\<lambda>it.
     Inr (diff_type t p (dict_items b) (dict_items a) @ en @ co
         @ diff_default t p (dict_items b) (dict_items a) @ ob @ it)))))"
  unfolding objectish_def arrayish_def diff_node.simps[of u t p b a] Let_def ..

lemma consistent_node:
  "diff_node u t p b a = Inr fs \<Longrightarrow> \<forall>f \<in> set fs. consistent f"
  "diff_properties u t p d e = Inr gs \<Longrightarrow> \<forall>f \<in> set gs. consistent f"
proof (induction u t p b a and u t p d e arbitrary: fs and gs rule: diff_node_diff_properties.induct)
  case (1 u t p b a)
  let ?b = "dict_items b" and ?a = "dict_items a"
  note ih = 1(1)[OF refl refl refl refl refl refl, folded objectish_def] 1(2)[OF refl refl refl refl refl refl, folded arrayish_def]
  obtain en co ob it where r: "diff_enum u t p ?b ?a = Inr en" "diff_constraints t p ?b ?a = Inr co"
    and ob: "(if objectish b a then bindE (diff_properties u t p ?b ?a)
         (\<lambda>x. Inr (x @ diff_additional_properties t p ?b ?a)) else Inr []) = Inr ob"
    and it: "(if arrayish b a then diff_node u t (p @ S ''/items'') (get ?b ''items'') (get ?a ''items'') else Inr []) = Inr it"
    and fs: "fs = diff_type t p ?b ?a @ en @ co @ diff_default t p ?b ?a @ ob @ it"
    using 1(3) unfolding diff_node_eq[of u t p b a] bindE_eq_Inr by (elim exE conjE) simp
  have "\<forall>f \<in> set ob. consistent f"
  proof (cases "objectish b a")
    case True
    with ob obtain x where x: "diff_properties u t p ?b ?a = Inr x" "ob = x @ diff_additional_properties t p ?b ?a"
      by (auto simp: bindE_eq_Inr)
    from ih(1)[OF r True x(1)] show ?thesis unfolding x(2) using consistent_rules(6) by auto
  qed (use ob in simp)
  moreover have "\<forall>f \<in> set it. consistent f"
  proof (cases "arrayish b a")
    case True
    with it have x: "diff_node u t (p @ S ''/items'') (get ?b ''items'') (get ?a ''items'') = Inr it" by simp
    from ih(2)[OF r ob[unfolded objectish_def] True x] show ?thesis .
  qed (use it in simp)
  ultimately show ?case
    unfolding fs using consistent_rules(1,5) consistent_rules(2)[OF r(1)] consistent_constraints[OF r(2)] by auto
next
  case (2 u t p d e)
  obtain bp ap br ar cs where pr: "props_of d = Inr bp" "props_of e = Inr ap" "required_of d = Inr br" "required_of e = Inr ar"
    and cs: "mapE (\<lambda>name. bindE (diff_node u t (prop_path p name) (JDict (prop_of bp name)) (JDict (prop_of ap name)))
                  (\<lambda>fs. Inr (required_finding t p br ar name @ fs)))
              (filter (\<lambda>n. n \<in> set (keys ap)) (keys bp)) = Inr cs"
    and gs: "gs = presence_findings u t p bp ap ar @ concat cs"
    using 2(2) by (auto simp: diff_properties.simps bindE_eq_Inr)
  have "\<forall>f \<in> set c. consistent f" if mem: "c \<in> set cs" for c
  proof -
    obtain n fs where n: "n \<in> set (filter (\<lambda>n. n \<in> set (keys ap)) (keys bp))"
      and fs: "diff_node u t (prop_path p n) (JDict (prop_of bp n)) (JDict (prop_of ap n)) = Inr fs"
      and c: "c = required_finding t p br ar n @ fs"
      using mapE_mem[OF cs mem] by (auto simp: bindE_eq_Inr)
    from 2(1)[OF pr n fs] show ?thesis unfolding c using consistent_rules(7) by auto
  qed
  then show ?case unfolding gs using consistent_presence by auto
qed

lemma consistent_tool: "diff_tool u t b a = Inr fs \<Longrightarrow> f \<in> set fs \<Longrightarrow> consistent f"
  using consistent_node(1) consistent_rules(8)
  by (auto simp: diff_tool_def diff_json_schema_def diff_annotations_def bindE_eq_Inr split: if_splits)

lemma determined_match: "match_finding tool prior after m = Inr f \<Longrightarrow> determined f"
proof (cases "take (length cross_tool_prefix) (pm_category m) = cross_tool_prefix")
  case False
  assume "match_finding tool prior after m = Inr f"
  with False obtain rule where r: "map_of category_rule_ids (pm_category m) = Some rule" "f_rule f = rule" "f_severity f = SECURITY"
    by (auto simp: match_finding_def Let_def desc_finding_def split: option.splits)
  from map_of_SomeD[OF r(1)] r(2,3) show ?thesis
    by (auto simp: category_rule_ids_def determined_def rule_table_def)
qed (auto simp: match_finding_def Let_def desc_finding_def determined_def rule_table_def)

lemma determined_semantic: "f \<in> set (semantic_finding u tool prior after fl meth sc th) \<Longrightarrow> determined f"
  unfolding semantic_finding_def Let_def desc_finding_def by (auto simp: determined_def rule_table_def split: if_splits)

lemma determined_description:
  assumes "diff_description u tool prior after names emb None th = Inr fs" "f \<in> set fs"
  shows "determined f"
proof (cases "normalize u prior = normalize u after")
  case False
  obtain ms where m: "mapE (match_finding tool prior after) (new_matches u prior after names) = Inr ms"
      and e: "\<exists>fl meth sc. fs = ms @ semantic_finding u tool prior after fl meth sc th"
    using assms(1) unfolding diff_description_def bindE_eq_Inr Let_def if_not_P[OF False]
    by (elim exE conjE) auto
  then obtain fl meth sc where ms: "mapE (match_finding tool prior after) (new_matches u prior after names) = Inr ms"
      "fs = ms @ semantic_finding u tool prior after fl meth sc th" by blast
  from assms(2) consider "f \<in> set ms" | "f \<in> set (semantic_finding u tool prior after fl meth sc th)" unfolding ms(2) by auto
  then show ?thesis
  proof cases
    case 1
    from mapE_mem[OF ms(1) this] determined_match show ?thesis by blast
  qed (rule determined_semantic)
qed (use assms in \<open>simp add: diff_description_def\<close>)

lemma consistent_version:
  assumes "version_findings u opts others name prior after = Inr fs" "do_judge opts = None" "f \<in> set fs"
  shows "consistent f"
  using assms consistent_tool determined_description determined_consistent
  by (auto simp: version_findings_def bindE_eq_Inr diff_description_values_def)

section \<open>Duplicates\<close>

lemma rule_plain: "(r, x) \<in> set rule_table \<Longrightarrow> \<forall>c \<in> set (S r). 65 \<le> c \<and> c \<le> 95 \<and> c \<noteq> 92"
proof -
  have "list_all (\<lambda>p. list_all (\<lambda>c. 65 \<le> c \<and> c \<le> 95 \<and> c \<noteq> 92) (S (fst p))) rule_table"
    by code_simp
  then show "(r, x) \<in> set rule_table \<Longrightarrow> \<forall>c \<in> set (S r). 65 \<le> c \<and> c \<le> 95 \<and> c \<noteq> 92"
    unfolding list_all_iff by force
qed

lemma ascii_plain: "\<forall>c \<in> set s. 65 \<le> c \<and> c \<le> 95 \<and> c \<noteq> 92 \<Longrightarrow> concat (map ascii_char s) = s"
  by (induction s) (auto simp: ascii_char_def escapes_def)

lemma cut_at_quote: "xs @ 34 # x = ys @ 34 # y \<Longrightarrow> 34 \<notin> set xs \<Longrightarrow> 34 \<notin> set ys \<Longrightarrow> xs = (ys :: pystr)"
proof (induction xs arbitrary: ys)
  case Nil
  then show ?case by (cases ys) auto
next
  case (Cons a xs)
  then show ?case by (cases ys) auto
qed

lemma key_rule:
  assumes "consistent f" "consistent g" "dedup_key u f = dedup_key u g"
  shows "f_rule f = f_rule g"
proof -
  have p: "\<forall>c \<in> set (S (f_rule h)). 65 \<le> c \<and> c \<le> 95 \<and> c \<noteq> 92" if "consistent h" for h
    using that rule_plain map_of_SomeD unfolding consistent_def by fast
  have e: "\<exists>x. dedup_key u h = S ''['' @ [34] @ S (f_rule h) @ 34 # x" if "consistent h" for h
    unfolding dedup_key_def by (simp add: ascii_str_def ascii_plain[OF p[OF that]])
  obtain x y where "S (f_rule f) @ 34 # x = S (f_rule g) @ 34 # y"
  proof -
    obtain x y where "dedup_key u f = S ''['' @ [34] @ S (f_rule f) @ 34 # x" "dedup_key u g = S ''['' @ [34] @ S (f_rule g) @ 34 # y"
      using e[OF assms(1)] e[OF assms(2)] by (elim exE)
    with assms(3) that[of x y] show thesis by simp
  qed
  then have "S (f_rule f) = S (f_rule g)"
    by (rule cut_at_quote) (use p[OF assms(1)] p[OF assms(2)] in auto)
  then show ?thesis by simp
qed

lemma key_determined:
  assumes "determined f" "consistent g" "dedup_key u g = dedup_key u f"
  shows "f_rule g = f_rule f \<and> f_severity g = f_severity f"
  using key_rule[OF assms(2) determined_consistent[OF assms(1)] assms(3)] assms(1,2)
  by (simp add: determined_def consistent_def)

section \<open>The loop over the versions\<close>

definition vs_ok :: "unidata \<Rightarrow> version_state \<Rightarrow> bool" where
  "vs_ok u st \<longleftrightarrow> vs_keys st = map (dedup_key u) (vs_findings st) \<and> (\<forall>f \<in> set (vs_findings st). consistent f)"

definition covers :: "unidata \<Rightarrow> finding list \<Rightarrow> finding list \<Rightarrow> bool" where
  "covers u gs fs \<longleftrightarrow> (\<forall>f \<in> set fs. \<exists>g \<in> set gs. dedup_key u g = dedup_key u f)"

lemma add_findings:
  "vs_ok u st \<Longrightarrow> \<forall>f \<in> set fs. consistent f \<Longrightarrow>
   vs_ok u (fold (add_finding u) fs st) \<and> covers u (vs_findings (fold (add_finding u) fs st)) fs
   \<and> set (vs_findings st) \<subseteq> set (vs_findings (fold (add_finding u) fs st))
   \<and> vs_hashes (fold (add_finding u) fs st) = vs_hashes st"
proof (induction fs arbitrary: st)
  case (Cons f fs)
  let ?t = "add_finding u f st"
  have t: "vs_ok u ?t" "vs_hashes ?t = vs_hashes st" "set (vs_findings st) \<subseteq> set (vs_findings ?t)"
    using Cons.prems by (auto simp: add_finding_def vs_ok_def Let_def)
  have "dedup_key u f \<in> dedup_key u ` set (vs_findings ?t)"
    using Cons.prems by (auto simp: add_finding_def vs_ok_def Let_def)
  with Cons.IH[OF t(1)] Cons.prems(2) t show ?case by (fastforce simp: covers_def)
qed (simp add: covers_def)

lemma check_version_ok:
  assumes "check_version u opts others name prior st v = Inr st'" "do_judge opts = None" "vs_ok u st"
  shows "vs_ok u st' \<and> set (vs_findings st) \<subseteq> set (vs_findings st') \<and> set (vs_hashes st') \<subseteq> insert (tv_def_hash v) (set (vs_hashes st))
    \<and> (tv_def_hash v \<noteq> tv_def_hash prior \<longrightarrow> tv_def_hash v \<notin> set (vs_hashes st) \<longrightarrow>
       (\<exists>fs. version_findings u opts others name (tv_tool prior) (tv_tool v) = Inr fs \<and> covers u (vs_findings st') fs))"
proof (cases "tv_def_hash v = tv_def_hash prior \<or> tv_def_hash v \<in> set (vs_hashes st)")
  case False
  then obtain fs where fs: "version_findings u opts others name (tv_tool prior) (tv_tool v) = Inr fs"
      "st' = fold (add_finding u) fs (st\<lparr>vs_hashes := vs_hashes st @ [tv_def_hash v]\<rparr>)"
    using assms(1) by (auto simp: check_version_def bindE_eq_Inr)
  have "vs_ok u (st\<lparr>vs_hashes := vs_hashes st @ [tv_def_hash v]\<rparr>)" using assms(3) by (simp add: vs_ok_def)
  from add_findings[OF this, of fs] consistent_version[OF fs(1) assms(2)] fs show ?thesis by auto
qed (use assms in \<open>auto simp: check_version_def\<close>)

lemma covers_mono: "covers u gs fs \<Longrightarrow> set gs \<subseteq> set hs \<Longrightarrow> covers u hs fs"
  by (auto simp: covers_def)

lemma versions_mono:
  "foldE (check_version u opts others name prior) st vs = Inr st' \<Longrightarrow> do_judge opts = None \<Longrightarrow> vs_ok u st \<Longrightarrow>
   vs_ok u st' \<and> set (vs_findings st) \<subseteq> set (vs_findings st')"
proof (induction vs arbitrary: st)
  case (Cons v vs)
  then obtain t where t: "check_version u opts others name prior st v = Inr t" "foldE (check_version u opts others name prior) t vs = Inr st'"
    by (auto simp: bindE_eq_Inr)
  from check_version_ok[OF t(1) Cons.prems(2,3)] Cons.IH[OF t(2) Cons.prems(2)] show ?case by blast
qed simp

lemma versions_cover:
  assumes "foldE (check_version u opts others name prior) st vs = Inr st'" "do_judge opts = None" "vs_ok u st"
    and "find (\<lambda>w. tv_def_hash w = h) vs = Some v" "h \<noteq> tv_def_hash prior" "h \<notin> set (vs_hashes st)"
  shows "\<exists>fs. version_findings u opts others name (tv_tool prior) (tv_tool v) = Inr fs \<and> covers u (vs_findings st') fs"
  using assms
proof (induction vs arbitrary: st)
  case (Cons w vs)
  then obtain t where t: "check_version u opts others name prior st w = Inr t" "foldE (check_version u opts others name prior) t vs = Inr st'"
    by (auto simp: bindE_eq_Inr)
  note ok = check_version_ok[OF t(1) Cons.prems(2,3)]
  show ?case
  proof (cases "tv_def_hash w = h")
    case True
    with Cons.prems ok versions_mono[OF t(2) Cons.prems(2)] show ?thesis by (auto intro: covers_mono)
  next
    case False
    with Cons.prems ok Cons.IH[OF t(2)] show ?thesis by auto
  qed
qed simp

section \<open>What a diff cannot miss\<close>

text \<open>The first definition with a hash other than the baseline's last is compared in full.\<close>

lemma diff_covers:
  assumes diff: "diff_recordings u set_order opts baseline current = Inr r" and j: "do_judge opts = None"
    and b: "latest_tool baseline server name = Some b" and vs: "map_of (rc_tools current) (server, name) = Some vs"
    and v: "find (\<lambda>w. tv_def_hash w = h) vs = Some v" "h \<noteq> tv_def_hash b"
  shows "\<exists>fs. version_findings u opts (other_names set_order (all_keys baseline current) name) name (tv_tool b) (tv_tool v) = Inr fs
     \<and> (\<forall>f \<in> set fs. determined f \<longrightarrow> (\<exists>g \<in> set (rp_findings r). f_rule g = f_rule f \<and> f_severity g = f_severity f))"
proof -
  let ?o = "other_names set_order (all_keys baseline current) name"
  have "(server, name) \<in> set (all_keys baseline current)"
    using vs by (auto simp: all_keys_def tool_keys_def simp del: set_map dest: map_of_Some_keys)
  moreover obtain fss where fss: "mapE (key_findings u set_order opts baseline current) (all_keys baseline current) = Inr fss"
      "rp_findings r = concat fss"
    using diff by (auto simp: diff_recordings_def bindE_eq_Inr)
  ultimately obtain gs where gs: "gs \<in> set fss" "key_findings u set_order opts baseline current (server, name) = Inr gs"
    using mapE_mem_result by metis
  have "vs \<noteq> []" using v(1) by auto
  then have "latest_tool current server name = Some (last vs)" using vs by (simp add: latest_tool_def)
  with gs(2) b vs obtain st where st: "foldE (check_version u opts ?o name b) \<lparr>vs_hashes = [], vs_keys = [], vs_findings = []\<rparr> vs = Inr st"
      "set (vs_findings st) \<subseteq> set gs"
    by (auto simp: key_findings_def Let_def definition_findings_def bindE_eq_Inr)
  have ok0: "vs_ok u \<lparr>vs_hashes = [], vs_keys = [], vs_findings = []\<rparr>" by (simp add: vs_ok_def)
  obtain fs where fs: "version_findings u opts ?o name (tv_tool b) (tv_tool v) = Inr fs" "covers u (vs_findings st) fs"
    using versions_cover[OF st(1) j ok0 v] by auto
  have cons: "\<forall>g \<in> set (vs_findings st). consistent g" using versions_mono[OF st(1) j ok0] by (simp add: vs_ok_def)
  have "\<exists>g \<in> set (rp_findings r). f_rule g = f_rule f \<and> f_severity g = f_severity f" if f: "f \<in> set fs" "determined f" for f
  proof -
    obtain g where g: "g \<in> set (vs_findings st)" "dedup_key u g = dedup_key u f" using fs(2) f(1) by (auto simp: covers_def)
    from key_determined[OF f(2) _ g(2)] cons g(1) st(2) gs(1) show ?thesis unfolding fss(2) by auto
  qed
  with fs(1) show ?thesis by blast
qed

definition alarming :: "finding \<Rightarrow> bool" where
  "alarming f \<longleftrightarrow> f_severity f \<in> {SECURITY, BREAKING}"

lemma version_alarm:
  assumes diff: "diff_recordings u set_order opts baseline current = Inr r" and j: "do_judge opts = None"
    and b: "latest_tool baseline server name = Some b" and vs: "map_of (rc_tools current) (server, name) = Some vs"
    and v: "find (\<lambda>w. tv_def_hash w = h) vs = Some v" "h \<noteq> tv_def_hash b"
    and bad: "lossy_change u (tv_tool b) (tv_tool v)"
  shows "\<exists>g \<in> set (rp_findings r). f_severity g = BREAKING"
proof -
  from diff_covers[OF assms(1-6)] obtain fs where
    fs: "version_findings u opts (other_names set_order (all_keys baseline current) name) name (tv_tool b) (tv_tool v) = Inr fs"
    and all: "\<forall>f \<in> set fs. determined f \<longrightarrow> (\<exists>g \<in> set (rp_findings r). f_rule g = f_rule f \<and> f_severity g = f_severity f)"
    by blast
  obtain gs where gs: "diff_tool u name (tv_tool b) (tv_tool v) = Inr gs" "set gs \<subseteq> set fs"
    using fs by (auto simp: version_findings_def bindE_eq_Inr)
  from lost_breaks[OF gs(1) bad] obtain f where f: "f \<in> set gs" "breaks f" by blast
  with all gs(2) breaks_determined[OF f(2)] show ?thesis by (fastforce simp: breaks_def)
qed

text \<open>A description that starts to contain what a pattern looks for.\<close>

definition newly_suspicious :: "unidata \<Rightarrow> (pystr \<times> json) list \<Rightarrow> (pystr \<times> json) list \<Rightarrow> bool" where
  "newly_suspicious u prior after \<longleftrightarrow> (\<exists>b a c.
     description_text (dict_get prior (S ''description'') (JStr [])) = Inr b
     \<and> description_text (dict_get after (S ''description'') (JStr [])) = Inr a
     \<and> normalize u b \<noteq> normalize u a \<and> occurs u c a \<and> \<not> occurs u c b)"

lemma version_suspicious:
  assumes diff: "diff_recordings u set_order opts baseline current = Inr r" and j: "do_judge opts = None"
    and b: "latest_tool baseline server name = Some b" and vs: "map_of (rc_tools current) (server, name) = Some vs"
    and v: "find (\<lambda>w. tv_def_hash w = h) vs = Some v" "h \<noteq> tv_def_hash b"
    and bad: "newly_suspicious u (tv_tool b) (tv_tool v)"
  shows "\<exists>g \<in> set (rp_findings r). f_severity g = SECURITY"
proof -
  let ?o = "other_names set_order (all_keys baseline current) name"
  from diff_covers[OF assms(1-6)] obtain fs where
    fs: "version_findings u opts ?o name (tv_tool b) (tv_tool v) = Inr fs"
    and all: "\<forall>f \<in> set fs. determined f \<longrightarrow> (\<exists>g \<in> set (rp_findings r). f_rule g = f_rule f \<and> f_severity g = f_severity f)"
    by blast
  obtain x y c where d: "description_text (dict_get (tv_tool b) (S ''description'') (JStr [])) = Inr x"
      "description_text (dict_get (tv_tool v) (S ''description'') (JStr [])) = Inr y"
      "normalize u x \<noteq> normalize u y" "occurs u c y" "\<not> occurs u c x"
    using bad by (auto simp: newly_suspicious_def)
  obtain gs where gs: "diff_description u name x y ?o (do_embedder opts) None (do_semantic_threshold opts) = Inr gs" "set gs \<subseteq> set fs"
    using fs d(1,2) j by (auto simp: version_findings_def diff_description_values_def bindE_eq_Inr)
  from description_security[of u name x y ?o "do_embedder opts" "do_semantic_threshold opts"] gs(1) d(3-5)
  obtain f where f: "f \<in> set gs" "f_severity f = SECURITY" by auto
  with all gs(2) determined_description[OF gs(1) f(1)] show ?thesis by fastforce
qed

section \<open>Nothing changed, nothing found\<close>

lemma diff_same_recording:
  assumes "0 < do_delta opts" and "\<forall>(k, vs) \<in> set (rc_tools r). vs \<noteq> [] \<and> (\<forall>v \<in> set vs. tv_def_hash v = tv_def_hash (last vs))"
  shows "diff_recordings u set_order opts r r = Inr \<lparr>rp_baseline = rc_path r, rp_current = rc_path r, rp_findings = []\<rparr>"
proof -
  have skip: "foldE (check_version u opts o' name b) st vs = Inr st" if "\<forall>v \<in> set vs. tv_def_hash v = tv_def_hash b" for o' name b st vs
    using that by (induction vs) (simp_all add: check_version_def)
  have none: "key_findings u set_order opts r r k = Inr []" if k: "k \<in> set (all_keys r r)" for k
  proof -
    obtain vs where vs: "map_of (rc_tools r) k = Some vs"
      using k by (cases "map_of (rc_tools r) k") (auto simp: all_keys_def tool_keys_def map_of_eq_None_keys simp del: set_map)
    from map_of_SomeD[OF this] assms(2) have ok: "vs \<noteq> []" "\<forall>v \<in> set vs. tv_def_hash v = tv_def_hash (last vs)" by auto
    then have "latest_tool r (fst k) (snd k) = Some (last vs)" using vs by (simp add: latest_tool_def)
    then show ?thesis
      using skip[OF ok(2)] vs by (simp add: key_findings_def Let_def definition_findings_def behavior_same[OF assms(1)] split_beta)
  qed
  have "mapE (key_findings u set_order opts r r) ks = Inr (map (\<lambda>_. []) ks)" if "set ks \<subseteq> set (all_keys r r)" for ks
    using that none by (induction ks) auto
  from this[of "all_keys r r"] show ?thesis by (simp add: diff_recordings_def)
qed

end
