(* ===== verification/Gate.thy ===== *)
theory Gate
  imports Differ_Facts
begin

text \<open>
  The gate (\<open>harness/gate.py\<close>): which findings block, which an accept-file takes back. A date is
  its proleptic ordinal, as \<open>date.toordinal\<close>; \<open>fromisoformat\<close> takes the calendar and the week
  form of ISO 8601, with or without separators.
\<close>

section \<open>Dates\<close>

definition is_leap :: "nat \<Rightarrow> bool" where
  "is_leap y \<longleftrightarrow> y mod 4 = 0 \<and> (y mod 100 \<noteq> 0 \<or> y mod 400 = 0)"

definition date_ordinal :: "nat \<Rightarrow> nat \<Rightarrow> nat \<Rightarrow> int" where
  "date_ordinal y m d =
     (let p = int y - 1 in
      p * 365 + p div 4 - p div 100 + p div 400 + int (sum_list (map (days_in_month y) [1..<m])) + int d)"

text \<open>The Monday of the first ISO week: the week of the year's first Thursday.\<close>

definition week1_monday :: "nat \<Rightarrow> int" where
  "week1_monday y =
     (let first = date_ordinal y 1 1; wd = (first + 6) mod 7; monday = first - wd in
      if wd > 3 then monday + 7 else monday)"

definition week_exists :: "nat \<Rightarrow> nat \<Rightarrow> bool" where
  "week_exists y w \<longleftrightarrow> 1 \<le> w \<and> (w \<le> 52 \<or>
     w = 53 \<and> (let wd = (date_ordinal y 1 1 + 6) mod 7 in wd = 3 \<or> wd = 2 \<and> is_leap y))"

definition max_ordinal :: int where "max_ordinal = 3652059"

definition digits_at :: "pystr \<Rightarrow> nat \<Rightarrow> nat \<Rightarrow> nat option" where
  "digits_at s i n = (let t = take n (drop i s) in if length t = n then num2 t else None)"

definition fromisoformat :: "pystr \<Rightarrow> pyexc + int" where
  "fromisoformat s =
     (if length s \<notin> {7, 8, 10} then Inl ValueError
      else case digits_at s 0 4 of
        None \<Rightarrow> Inl ValueError
      | Some y \<Rightarrow>
        let sep = (take 1 (drop 4 s) = S ''-''); i = (if sep then 5 else 4) in
        if take 1 (drop i s) = S ''W'' then
          (case digits_at s (i + 1) 2 of
             None \<Rightarrow> Inl ValueError
           | Some w \<Rightarrow>
             let j = i + 3;
                 day = (if j < length s then
                          if sep \<and> take 1 (drop j s) \<noteq> S ''-'' then None
                          else digits_at s (if sep then j + 1 else j) 1
                        else Some 1) in
             case day of
               None \<Rightarrow> Inl ValueError
             | Some d \<Rightarrow>
                 let ord = week1_monday y + 7 * (int w - 1) + int d - 1 in
                 if 1 \<le> y \<and> week_exists y w \<and> 1 \<le> d \<and> d \<le> 7 \<and> ord \<le> max_ordinal then Inr ord
                 else Inl ValueError)
        else
          (case digits_at s i 2 of
             None \<Rightarrow> Inl ValueError
           | Some m \<Rightarrow>
             let j = i + 2 in
             if sep \<and> take 1 (drop j s) \<noteq> S ''-'' then Inl ValueError
             else case digits_at s (if sep then j + 1 else j) 2 of
               None \<Rightarrow> Inl ValueError
             | Some d \<Rightarrow>
                 if 1 \<le> y \<and> 1 \<le> m \<and> m \<le> 12 \<and> 1 \<le> d \<and> d \<le> days_in_month y m then Inr (date_ordinal y m d)
                 else Inl ValueError))"

section \<open>Accepted findings\<close>

text \<open>\<open>except TypeError\<close>: no JSON value raises it; a NaN or a large integer raises \<open>ValueError\<close>.\<close>

definition finding_after_hash :: "(nat list \<Rightarrow> pystr) \<Rightarrow> unidata \<Rightarrow> finding \<Rightarrow> pyexc + pystr" where
  "finding_after_hash sha u f =
     (case sha256_hex sha (f_after f) of
        Inl TypeError \<Rightarrow> sha256_hex sha (JStr (pyrepr (u_printable u) (f_after f)))
      | r \<Rightarrow> r)"

text \<open>The fields come from a JSON file, unchecked.\<close>

record accept_entry =
  ae_tool :: json
  ae_rule_id :: json
  ae_path :: json
  ae_after_hash :: json
  ae_reason :: json
  ae_expires :: json

definition matches :: "(nat list \<Rightarrow> pystr) \<Rightarrow> unidata \<Rightarrow> int \<Rightarrow> finding \<Rightarrow> accept_entry \<Rightarrow> pyexc + bool" where
  "matches sha u today f e =
     (if (JStr (tool_or_empty f), JStr (S (f_rule f)), JStr (f_path f)) \<noteq> (ae_tool e, ae_rule_id e, ae_path e)
      then Inr False
      else bindE (finding_after_hash sha u f) (\<lambda>h.
        if JStr h \<noteq> ae_after_hash e then Inr False
        else if truthy (ae_expires e) then
          bindE (case ae_expires e of JStr s \<Rightarrow> fromisoformat s | _ \<Rightarrow> Inl TypeError) (\<lambda>d. Inr (\<not> d < today))
        else Inr True))"

text \<open>\<open>AcceptEntry(**e)\<close>: a missing or an unknown field is a \<open>TypeError\<close>.\<close>

definition entry_of :: "json \<Rightarrow> pyexc + accept_entry" where
  "entry_of v =
     (case v of
        JDict d \<Rightarrow>
          if set (keys d) \<subseteq> S ` {''tool'', ''rule_id'', ''path'', ''after_hash'', ''reason'', ''expires''}
             \<and> S ` {''tool'', ''rule_id'', ''path'', ''after_hash''} \<subseteq> set (keys d) then
            Inr \<lparr>ae_tool = eget d ''tool'', ae_rule_id = eget d ''rule_id'', ae_path = eget d ''path'',
                 ae_after_hash = eget d ''after_hash'', ae_reason = dict_get d (S ''reason'') (JStr []),
                 ae_expires = eget d ''expires''\<rparr>
          else Inl TypeError
      | _ \<Rightarrow> Inl TypeError)"

definition load_accept_file :: "json \<Rightarrow> pyexc + accept_entry list" where
  "load_accept_file data =
     bindE (py_iter (case data of JDict d \<Rightarrow> dict_get d (S ''accepted'') data | _ \<Rightarrow> data)) (mapE entry_of)"

definition saved_entry :: "(nat list \<Rightarrow> pystr) \<Rightarrow> unidata \<Rightarrow> pystr \<Rightarrow> finding \<Rightarrow> pyexc + json" where
  "saved_entry sha u why f =
     bindE (finding_after_hash sha u f) (\<lambda>h. Inr (JDict
       [(S ''tool'', JStr (tool_or_empty f)), (S ''rule_id'', JStr (S (f_rule f))), (S ''path'', JStr (f_path f)),
        (S ''after_hash'', JStr h), (S ''reason'', JStr why), (S ''expires'', JNull)]))"

definition save_accept_file :: "(nat list \<Rightarrow> pystr) \<Rightarrow> unidata \<Rightarrow> pystr \<Rightarrow> finding list \<Rightarrow> pyexc + json" where
  "save_accept_file sha u why fs =
     bindE (mapE (saved_entry sha u why) fs) (\<lambda>es. Inr (JDict [(S ''accepted'', JList es)]))"

section \<open>The decision\<close>

record gate_result =
  gr_passed :: bool
  gr_blocking :: "finding list"
  gr_accepted :: "finding list"
  gr_all_findings :: "finding list"

definition default_fail_on :: "pystr list" where "default_fail_on = [S ''SECURITY'', S ''BREAKING'']"

text \<open>\<open>next((e for e in entries if e.matches(finding)), None)\<close>: the first match, or an exception
  on the way to it.\<close>

fun first_match :: "(accept_entry \<Rightarrow> pyexc + bool) \<Rightarrow> accept_entry list \<Rightarrow> pyexc + accept_entry option" where
  "first_match m [] = Inr None"
| "first_match m (e # es) = bindE (m e) (\<lambda>b. if b then Inr (Some e) else first_match m es)"

definition gate_step ::
  "(finding \<Rightarrow> accept_entry \<Rightarrow> pyexc + bool) \<Rightarrow> pystr list \<Rightarrow> accept_entry list \<Rightarrow>
   finding list \<times> finding list \<Rightarrow> finding \<Rightarrow> pyexc + finding list \<times> finding list" where
  "gate_step m fail_on entries st f =
     (if severity_name (f_severity f) \<notin> set fail_on then Inr st
      else bindE (first_match (m f) entries) (\<lambda>e. case e of
        Some x \<Rightarrow> Inr (fst st, snd st @ [f]) | None \<Rightarrow> Inr (fst st @ [f], snd st)))"

definition evaluate ::
  "(nat list \<Rightarrow> pystr) \<Rightarrow> unidata \<Rightarrow> int \<Rightarrow> report \<Rightarrow> pystr list \<Rightarrow> accept_entry list \<Rightarrow> pyexc + gate_result" where
  "evaluate sha u today r fail_on entries =
     bindE (foldE (gate_step (matches sha u today) fail_on entries) ([], []) (rp_findings r)) (\<lambda>(blocking, accepted).
       Inr \<lparr>gr_passed = (blocking = []), gr_blocking = blocking, gr_accepted = accepted,
            gr_all_findings = rp_findings r\<rparr>)"

section \<open>What the gate decides\<close>

lemma first_match_Some: "first_match m es = Inr (Some e) \<Longrightarrow> e \<in> set es \<and> m e = Inr True"
  by (induction es) (auto simp: bindE_eq_Inr split: if_splits)

lemma first_match_None: "first_match m es = Inr None \<Longrightarrow> \<forall>e \<in> set es. m e = Inr False"
  by (induction es) (auto simp: bindE_eq_Inr split: if_splits)

definition counts :: "pystr list \<Rightarrow> finding \<Rightarrow> bool" where
  "counts fail_on f \<longleftrightarrow> severity_name (f_severity f) \<in> set fail_on"

lemma gate_run:
  assumes "foldE (gate_step m fail_on es) st fs = Inr st'"
  shows "fst st' = fst st @ filter (\<lambda>f. counts fail_on f \<and> first_match (m f) es = Inr None) fs"
    and "snd st' = snd st @ filter (\<lambda>f. counts fail_on f \<and> first_match (m f) es \<noteq> Inr None) fs"
    and "\<forall>f \<in> set fs. counts fail_on f \<longrightarrow> (\<exists>r. first_match (m f) es = Inr r)"
  using assms
  by (induction fs arbitrary: st) (auto simp: bindE_eq_Inr gate_step_def counts_def split: if_splits option.splits)

lemma evaluate_run:
  assumes "evaluate sha u today r fail_on es = Inr g"
  shows "gr_blocking g = filter (\<lambda>f. counts fail_on f \<and> first_match (matches sha u today f) es = Inr None) (rp_findings r)"
    and "gr_accepted g = filter (\<lambda>f. counts fail_on f \<and> first_match (matches sha u today f) es \<noteq> Inr None) (rp_findings r)"
    and "gr_passed g \<longleftrightarrow> gr_blocking g = []"
    and "\<forall>f \<in> set (rp_findings r). counts fail_on f \<longrightarrow> (\<exists>x. first_match (matches sha u today f) es = Inr x)"
proof -
  obtain st where st: "foldE (gate_step (matches sha u today) fail_on es) ([], []) (rp_findings r) = Inr st"
      "g = \<lparr>gr_passed = (fst st = []), gr_blocking = fst st, gr_accepted = snd st, gr_all_findings = rp_findings r\<rparr>"
    using assms by (auto simp: evaluate_def bindE_eq_Inr)
  show "gr_blocking g = filter (\<lambda>f. counts fail_on f \<and> first_match (matches sha u today f) es = Inr None) (rp_findings r)"
    "gr_accepted g = filter (\<lambda>f. counts fail_on f \<and> first_match (matches sha u today f) es \<noteq> Inr None) (rp_findings r)"
    "gr_passed g \<longleftrightarrow> gr_blocking g = []"
    using gate_run(1,2)[OF st(1)] by (simp_all add: st(2))
  show "\<forall>f \<in> set (rp_findings r). counts fail_on f \<longrightarrow> (\<exists>x. first_match (matches sha u today f) es = Inr x)"
    by (rule gate_run(3)[OF st(1)])
qed

lemma gate_passes_iff:
  assumes "evaluate sha u today r fail_on es = Inr g"
  shows "gr_passed g \<longleftrightarrow>
    (\<forall>f \<in> set (rp_findings r). counts fail_on f \<longrightarrow> (\<exists>e \<in> set es. matches sha u today f e = Inr True))"
proof -
  note run = evaluate_run[OF assms]
  have "first_match (matches sha u today f) es = Inr None \<longleftrightarrow> \<not> (\<exists>e \<in> set es. matches sha u today f e = Inr True)"
    if f: "f \<in> set (rp_findings r)" "counts fail_on f" for f
  proof -
    obtain x where x: "first_match (matches sha u today f) es = Inr x" using run(4) f by blast
    then show ?thesis
      using first_match_None[of "matches sha u today f" es] first_match_Some[of "matches sha u today f" es] by (cases x) auto
  qed
  then show ?thesis unfolding run(3) run(1) filter_empty_conv by blast
qed

section \<open>An accepted state passes\<close>

lemma saved_entry_matches:
  assumes "saved_entry sha u why f = Inr v"
  shows "\<exists>e. entry_of v = Inr e \<and> matches sha u today f e = Inr True"
proof -
  obtain h where h: "finding_after_hash sha u f = Inr h" and v: "v = JDict
       [(S ''tool'', JStr (tool_or_empty f)), (S ''rule_id'', JStr (S (f_rule f))), (S ''path'', JStr (f_path f)),
        (S ''after_hash'', JStr h), (S ''reason'', JStr why), (S ''expires'', JNull)]"
    using assms by (auto simp: saved_entry_def bindE_eq_Inr)
  let ?e = "\<lparr>ae_tool = JStr (tool_or_empty f), ae_rule_id = JStr (S (f_rule f)), ae_path = JStr (f_path f),
     ae_after_hash = JStr h, ae_reason = JStr why, ae_expires = JNull\<rparr>"
  have "entry_of v = Inr ?e" by (simp add: v entry_of_def dict_get.simps)
  moreover have "matches sha u today f ?e = Inr True" by (simp add: matches_def h)
  ultimately show ?thesis by blast
qed

lemma matches_defined: "finding_after_hash sha u f = Inr h \<Longrightarrow> \<not> truthy (ae_expires e) \<Longrightarrow> \<exists>b. matches sha u today f e = Inr b"
  by (auto simp: matches_def)

lemma entry_no_expiry: "saved_entry sha u why f = Inr v \<Longrightarrow> entry_of v = Inr e \<Longrightarrow> \<not> truthy (ae_expires e)"
  by (auto simp: saved_entry_def bindE_eq_Inr entry_of_def dict_get.simps)

lemma first_match_total:
  assumes "\<forall>e \<in> set es. \<exists>b. m e = Inr b" "e \<in> set es" "m e = Inr True"
  shows "\<exists>x. first_match m es = Inr (Some x)"
  using assms by (induction es) (auto split: if_splits)

text \<open>C37 An accept-file accepts what it was written for: after saving the findings of a report and
  loading the file again, the gate passes on that report, for every set of failing severities,
  with all of these findings shown as accepted; no exception is raised.\<close>

theorem accepted_report_passes:
  assumes "save_accept_file sha u why (rp_findings r) = Inr data"
  shows "\<exists>es g. load_accept_file data = Inr es \<and> evaluate sha u today r fail_on es = Inr g \<and> gr_passed g
     \<and> gr_accepted g = filter (counts fail_on) (rp_findings r)"
proof -
  obtain vs where vs: "mapE (saved_entry sha u why) (rp_findings r) = Inr vs" "data = JDict [(S ''accepted'', JList vs)]"
    using assms by (auto simp: save_accept_file_def bindE_eq_Inr)
  have "\<exists>e. entry_of v = Inr e" if "v \<in> set vs" for v
    using mapE_mem[OF vs(1) that] saved_entry_matches by blast
  then obtain es where es: "mapE entry_of vs = Inr es" using mapE_total[of vs entry_of] by blast
  have no: "\<not> truthy (ae_expires e)" if "e \<in> set es" for e
    using mapE_mem[OF es that] mapE_mem[OF vs(1)] entry_no_expiry by blast
  have hit: "\<exists>x. first_match (matches sha u today f) es = Inr (Some x)" if f: "f \<in> set (rp_findings r)" for f
  proof -
    obtain v where v: "v \<in> set vs" "saved_entry sha u why f = Inr v" using mapE_mem_result[OF vs(1) f] by blast
    then obtain h where h: "finding_after_hash sha u f = Inr h" by (auto simp: saved_entry_def bindE_eq_Inr)
    obtain e where e: "e \<in> set es" "entry_of v = Inr e" using mapE_mem_result[OF es v(1)] by blast
    have "matches sha u today f e = Inr True" using saved_entry_matches[OF v(2), of today] e(2) by auto
    then show ?thesis using first_match_total[of es "matches sha u today f" e] matches_defined[OF h no] e(1) by blast
  qed
  have "foldE (gate_step (matches sha u today) fail_on es) (b, a) fs = Inr (b, a @ filter (counts fail_on) fs)"
    if "set fs \<subseteq> set (rp_findings r)" for b a fs
    using that
  proof (induction fs arbitrary: a)
    case (Cons f fs)
    then obtain x where x: "first_match (matches sha u today f) es = Inr (Some x)" using hit[of f] Cons.prems by auto
    with Cons.IH Cons.prems show ?case by (auto simp: gate_step_def counts_def)
  qed simp
  from this[of "rp_findings r" "[]" "[]"] have
    "foldE (gate_step (matches sha u today) fail_on es) ([], []) (rp_findings r) = Inr ([], filter (counts fail_on) (rp_findings r))"
    by simp
  then show ?thesis
    unfolding vs(2) by (simp add: load_accept_file_def dict_get.simps es evaluate_def)
qed

definition sample_finding :: finding where
  "sample_finding = presence_finding BREAKING ''TOOL_REMOVED'' ''no longer offered'' (S ''s'') (S ''t'') JNull JNull"

theorem accepted_report_passes_witness:
  "\<exists>data es g. save_accept_file (\<lambda>_. []) ascii_data [] [sample_finding] = Inr data \<and> load_accept_file data = Inr es
     \<and> evaluate (\<lambda>_. []) ascii_data 738000 \<lparr>rp_baseline = [], rp_current = [], rp_findings = [sample_finding]\<rparr> default_fail_on es = Inr g
     \<and> gr_passed g \<and> gr_accepted g = [sample_finding]"
proof -
  let ?r = "\<lparr>rp_baseline = [], rp_current = [], rp_findings = [sample_finding]\<rparr>"
  have "\<exists>d. save_accept_file (\<lambda>_. []) ascii_data [] (rp_findings ?r) = Inr d"
    by (simp add: save_accept_file_def saved_entry_def finding_after_hash_def sha256_hex_def sample_finding_def presence_finding_def)
  then obtain data where d: "save_accept_file (\<lambda>_. []) ascii_data [] (rp_findings ?r) = Inr data" ..
  from accepted_report_passes[OF d, of 738000 default_fail_on] d show ?thesis
    by (auto simp: counts_def default_fail_on_def sample_finding_def presence_finding_def severity_name_def)
qed

end
