(* ===== verification/Report.thy ===== *)
theory Report
  imports Gate
begin

text \<open>
  The reports (\<open>harness/report.py\<close>): text, JSON, SARIF and Markdown, down to the characters.
\<close>

section \<open>\<open>json.dumps(value, indent=2)\<close>\<close>

definition newline :: "nat \<Rightarrow> pystr" where
  "newline level = 10 # replicate (2 * level) 32"

fun dumps_indented :: "nat \<Rightarrow> json \<Rightarrow> pystr" where
  "dumps_indented l (JStr s) = ascii_str s"
| "dumps_indented l (JList xs) =
     (if xs = [] then S ''[]''
      else S ''['' @ newline (Suc l) @ join (S '','' @ newline (Suc l)) (map (dumps_indented (Suc l)) xs) @ newline l @ S '']'')"
| "dumps_indented l (JDict d) =
     (if d = [] then S ''{}''
      else S ''{'' @ newline (Suc l) @ join (S '','' @ newline (Suc l))
             (map (\<lambda>(k, v). ascii_str k @ S '': '' @ dumps_indented (Suc l) v) d) @ newline l @ S ''}'')"
| "dumps_indented l v = json_dumps v"

section \<open>Text\<close>

definition pad :: "nat \<Rightarrow> pystr \<Rightarrow> pystr" where
  "pad n s = s @ replicate (n - length s) 32"

text \<open>Equality of the dataclass: field by field.\<close>

definition finding_eq :: "unidata \<Rightarrow> finding \<Rightarrow> finding \<Rightarrow> bool" where
  "finding_eq u f g \<longleftrightarrow> f_severity f = f_severity g \<and> f_rule f = f_rule g \<and> f_path f = f_path g
     \<and> render (u_printable u) (f_message f) = render (u_printable u) (f_message g) \<and> f_tool f = f_tool g
     \<and> py_eq (f_before f) (f_before g) \<and> py_eq (f_after f) (f_after g)"

definition finding_in :: "unidata \<Rightarrow> finding \<Rightarrow> finding list \<Rightarrow> bool" where
  "finding_in u f fs \<longleftrightarrow> list_ex (\<lambda>g. g = f \<or> finding_eq u g f) fs"

definition tool_or_dash :: "finding \<Rightarrow> pystr" where
  "tool_or_dash f = (if tool_or_empty f = [] then S ''-'' else tool_or_empty f)"

definition text_lines :: "unidata \<Rightarrow> gate_result option \<Rightarrow> finding \<Rightarrow> pystr list" where
  "text_lines u gate f =
     (let accepted = (case gate of Some g \<Rightarrow> finding_in u f (gr_accepted g) | None \<Rightarrow> False) in
      [S ''['' @ pad 8 (severity_name (f_severity f)) @ S ''] '' @ pad 28 (S (f_rule f)) @ S '' ''
         @ pad 16 (tool_or_dash f) @ S '' '' @ f_path f @ (if accepted then S ''  [accepted]'' else []),
       S ''           '' @ render (u_printable u) (f_message f)])"

definition render_text :: "unidata \<Rightarrow> report \<Rightarrow> gate_result option \<Rightarrow> pystr" where
  "render_text u r gate =
     (let fs = sorted_findings r in
      join [10] ((if fs = [] then [S ''No findings.''] else [])
        @ concat (map (text_lines u gate) fs) @ [[]]
        @ [str_nat (length fs) @ S '' finding(s) across '' @ rp_baseline r @ S '' -> '' @ rp_current r]
        @ (case gate of None \<Rightarrow> []
           | Some g \<Rightarrow> [S ''gate: '' @ (if gr_passed g then S ''PASS'' else S ''FAIL'') @ S '' -- ''
               @ str_nat (length (gr_blocking g)) @ S '' blocking, '' @ str_nat (length (gr_accepted g))
               @ S '' accepted-but-shown''])))"

section \<open>JSON\<close>

definition findings_json :: "unidata \<Rightarrow> finding list \<Rightarrow> json" where
  "findings_json u fs = JList (map (finding_dict (u_printable u)) fs)"

definition json_payload :: "unidata \<Rightarrow> report \<Rightarrow> gate_result option \<Rightarrow> json" where
  "json_payload u r gate = JDict
     ([(S ''baseline'', JStr (rp_baseline r)), (S ''current'', JStr (rp_current r)),
       (S ''findings'', findings_json u (sorted_findings r))]
      @ (case gate of None \<Rightarrow> []
         | Some g \<Rightarrow> [(S ''gate'', JDict [(S ''passed'', JBool (gr_passed g)),
             (S ''blocking'', findings_json u (gr_blocking g)), (S ''accepted'', findings_json u (gr_accepted g))])]))"

definition render_json :: "unidata \<Rightarrow> report \<Rightarrow> gate_result option \<Rightarrow> pystr" where
  "render_json u r gate = dumps_indented 0 (json_payload u r gate)"

section \<open>SARIF\<close>

fun sarif_level :: "severity \<Rightarrow> string" where
  "sarif_level SECURITY = ''error''" | "sarif_level BREAKING = ''error''"
| "sarif_level WARN = ''warning''" | "sarif_level INFO = ''note''"

text \<open>\<open>s.replace("_", " ").title()\<close> of a rule id, which is ASCII: a letter after a letter is small.\<close>

definition is_letter :: "nat \<Rightarrow> bool" where
  "is_letter c \<longleftrightarrow> 65 \<le> c \<and> c \<le> 90 \<or> 97 \<le> c \<and> c \<le> 122"

fun title_from :: "bool \<Rightarrow> pystr \<Rightarrow> pystr" where
  "title_from after_letter [] = []"
| "title_from after_letter (c # s) =
     (if after_letter then ascii_lower c else if 97 \<le> c \<and> c \<le> 122 then c - 32 else c) # title_from (is_letter c) s"

definition sarif_rule :: "finding list \<Rightarrow> pystr \<Rightarrow> json" where
  "sarif_rule fs rule_id =
     JDict [(S ''id'', JStr rule_id),
       (S ''shortDescription'', JDict [(S ''text'', JStr (title_from False (map (\<lambda>c. if c = 95 then 32 else c) rule_id)))]),
       (S ''defaultConfiguration'', JDict [(S ''level'', JStr (S
          (case find (\<lambda>f. S (f_rule f) = rule_id) fs of
             Some f \<Rightarrow> sarif_level (f_severity f) | None \<Rightarrow> ''warning'')))])]"

definition sarif_result :: "unidata \<Rightarrow> report \<Rightarrow> finding \<Rightarrow> json" where
  "sarif_result u r f = JDict
     [(S ''ruleId'', JStr (S (f_rule f))),
      (S ''level'', JStr (S (sarif_level (f_severity f)))),
      (S ''message'', JDict [(S ''text'', JStr (S ''['' @ severity_name (f_severity f) @ S ''] ''
         @ render (u_printable u) (f_message f)))]),
      (S ''locations'', JList [JDict
        [(S ''physicalLocation'', JDict
           [(S ''artifactLocation'', JDict [(S ''uri'', JStr (rp_current r))]),
            (S ''region'', JDict [(S ''startLine'', JInt 1)])]),
         (S ''logicalLocations'', JList [JDict [(S ''fullyQualifiedName'', JStr (tool_or_empty f @ f_path f))]])]])]"

definition sarif_json :: "unidata \<Rightarrow> report \<Rightarrow> json" where
  "sarif_json u r =
     (let fs = sorted_findings r; rule_ids = sort (remdups (map (\<lambda>f. S (f_rule f)) fs)) in
      JDict
       [(S ''$schema'', JStr (S ''https://raw.githubusercontent.com/oasis-tcs/sarif-spec/master/Schemata/sarif-schema-2.1.0.json'')),
        (S ''version'', JStr (S ''2.1.0'')),
        (S ''runs'', JList [JDict
          [(S ''tool'', JDict [(S ''driver'', JDict
              [(S ''name'', JStr (S ''harness'')), (S ''informationUri'', JStr (S ''https://anviq.local/harness'')),
               (S ''rules'', JList (map (sarif_rule fs) rule_ids))])]),
           (S ''results'', JList (map (sarif_result u r) fs))]])])"

definition render_sarif :: "unidata \<Rightarrow> report \<Rightarrow> pystr" where
  "render_sarif u r = dumps_indented 0 (sarif_json u r)"

section \<open>Markdown\<close>

definition escape_bars :: "pystr \<Rightarrow> pystr" where
  "escape_bars s = concat (map (\<lambda>c. if c = 124 then [92, 124] else [c]) s)"

definition markdown_row :: "unidata \<Rightarrow> finding \<Rightarrow> pystr" where
  "markdown_row u f = S ''| '' @ severity_name (f_severity f) @ S '' | `'' @ S (f_rule f) @ S ''` | ''
     @ tool_or_dash f @ S '' | `'' @ f_path f @ S ''` | '' @ escape_bars (render (u_printable u) (f_message f)) @ S '' |''"

definition render_markdown :: "unidata \<Rightarrow> report \<Rightarrow> gate_result option \<Rightarrow> pystr" where
  "render_markdown u r gate =
     (let fs = sorted_findings r; count = (\<lambda>sev. length (filter (\<lambda>f. f_severity f = sev) fs)) in
      join [10] ([S ''# Tool-use harness drift report'', []]
        @ (case gate of None \<Rightarrow> []
           | Some g \<Rightarrow> [S ''**Verdict: '' @ (if gr_passed g then S ''PASS'' else S ''FAIL'') @ S ''**'', []])
        @ [S ''| Severity | Count |'', S ''|---|---|'']
        @ map (\<lambda>sev. S ''| '' @ severity_name sev @ S '' | '' @ str_nat (count sev) @ S '' |'')
            (filter (\<lambda>sev. count sev \<noteq> 0) severity_order)
        @ [[]]
        @ (if fs \<noteq> [] then [S ''| Severity | Rule | Tool | Path | Message |'', S ''|---|---|---|---|---|'']
              @ map (markdown_row u) fs
           else [S ''No findings.'']))
      @ [10])"

section \<open>Dispatch\<close>

definition formatters :: "unidata \<Rightarrow> (pystr \<times> (report \<Rightarrow> gate_result option \<Rightarrow> pystr)) list" where
  "formatters u = [(S ''text'', render_text u), (S ''json'', render_json u),
     (S ''sarif'', \<lambda>r g. render_sarif u r), (S ''markdown'', render_markdown u)]"

definition render_as :: "unidata \<Rightarrow> pystr \<Rightarrow> report \<Rightarrow> gate_result option \<Rightarrow> pyexc + pystr" where
  "render_as u fmt r gate =
     (case map_of (formatters u) fmt of None \<Rightarrow> Inl ValueError | Some f \<Rightarrow> Inr (f r gate))"

end
