(* ===== verification/Replay.thy ===== *)
theory Replay
  imports Recording
begin

text \<open>
  The replay server (\<open>harness/replay.py\<close>): a recording as a fake tool server. Its two indexes
  are dictionaries filled with \<open>setdefault\<close>; a scan of the recorded calls is the reference
  they are proved against. \<open>UnrecordedCallError\<close> is its own class of \<open>LookupError\<close>.
\<close>

definition setdefault :: "('k \<times> 'v) list \<Rightarrow> 'k \<Rightarrow> 'v \<Rightarrow> ('k \<times> 'v) list" where
  "setdefault d k v = (if map_of d k = None then d @ [(k, v)] else d)"

record replay_result =
  rr_ok :: bool
  rr_result :: json
  rr_error :: json
  rr_latency_ms :: json

definition replay_of :: "call_record \<Rightarrow> replay_result" where
  "replay_of c = \<lparr>rr_ok = truthy (cl_ok c), rr_result = cl_result c, rr_error = cl_error c,
     rr_latency_ms = cl_latency_ms c\<rparr>"

record replay_server =
  rs_recording :: recording
  rs_by_args :: "((pystr \<times> pystr \<times> pystr) \<times> call_record) list"
  rs_first_by_tool :: "((pystr \<times> pystr) \<times> call_record) list"

definition index_call :: "replay_server \<Rightarrow> call_record \<Rightarrow> pyexc + replay_server" where
  "index_call s c = bindE (canonical_json (cl_args c)) (\<lambda>t. Inr
     (s\<lparr>rs_by_args := setdefault (rs_by_args s) (cl_server c, cl_tool_name c, t) c,
        rs_first_by_tool := setdefault (rs_first_by_tool s) (cl_server c, cl_tool_name c) c\<rparr>))"

definition replay_init :: "recording \<Rightarrow> pyexc + replay_server" where
  "replay_init r = foldE index_call \<lparr>rs_recording = r, rs_by_args = [], rs_first_by_tool = []\<rparr> (rc_calls r)"

text \<open>\<open>versions[-1]\<close> of an empty list would be an \<open>IndexError\<close>.\<close>

definition list_tools :: "replay_server \<Rightarrow> pystr option \<Rightarrow> pyexc + event list" where
  "list_tools s server =
     mapE (\<lambda>(k, versions). if versions = [] then Inl IndexError else Inr (tv_tool (last versions)))
       (filter (\<lambda>((srv, name), versions). server = None \<or> server = Some srv) (rc_tools (rs_recording s)))"

text \<open>\<open>list(dict.fromkeys(xs))\<close>: the first occurrence of every element.\<close>

definition fromkeys :: "'a list \<Rightarrow> 'a list" where
  "fromkeys xs = rev (remdups (rev xs))"

definition candidates :: "replay_server \<Rightarrow> pystr \<Rightarrow> pystr option \<Rightarrow> pystr list" where
  "candidates s name server = (case server of
     Some srv \<Rightarrow> [srv]
   | None \<Rightarrow> fromkeys (map fst (filter (\<lambda>(srv, n). n = name) (keys (rs_first_by_tool s)))))"

fun exact_call :: "replay_server \<Rightarrow> pystr \<Rightarrow> json \<Rightarrow> pystr list \<Rightarrow> pyexc + call_record option" where
  "exact_call s name args [] = Inr None"
| "exact_call s name args (srv # rest) =
     bindE (canonical_json args) (\<lambda>t. case map_of (rs_by_args s) (srv, name, t) of
       Some c \<Rightarrow> Inr (Some c) | None \<Rightarrow> exact_call s name args rest)"

fun first_call :: "replay_server \<Rightarrow> pystr \<Rightarrow> pystr list \<Rightarrow> call_record option" where
  "first_call s name [] = None"
| "first_call s name (srv # rest) = (case map_of (rs_first_by_tool s) (srv, name) of
     Some c \<Rightarrow> Some c | None \<Rightarrow> first_call s name rest)"

definition replay_call :: "replay_server \<Rightarrow> pystr \<Rightarrow> json \<Rightarrow> pystr option \<Rightarrow> bool \<Rightarrow> pyexc + replay_result" where
  "replay_call s name args server strict =
     (let cs = candidates s name server in
      bindE (exact_call s name args cs) (\<lambda>r. case r of
        Some c \<Rightarrow> Inr (replay_of c)
      | None \<Rightarrow> if strict then Inl LookupError
                else (case first_call s name cs of
                  Some c \<Rightarrow> Inr (replay_of c) | None \<Rightarrow> Inl LookupError)))"

section \<open>The reference: a scan of the recorded calls\<close>

definition called_by :: "pystr \<Rightarrow> pystr \<Rightarrow> call_record \<Rightarrow> bool" where
  "called_by srv name c \<longleftrightarrow> cl_server c = srv \<and> cl_tool_name c = name"

definition scan_servers :: "recording \<Rightarrow> pystr \<Rightarrow> pystr option \<Rightarrow> pystr list" where
  "scan_servers r name server = (case server of
     Some srv \<Rightarrow> [srv]
   | None \<Rightarrow> fromkeys (map cl_server (filter (\<lambda>c. cl_tool_name c = name) (rc_calls r))))"

definition scan_replay :: "recording \<Rightarrow> pystr \<Rightarrow> json \<Rightarrow> pystr option \<Rightarrow> bool \<Rightarrow> pyexc + replay_result" where
  "scan_replay r name args server strict =
     (let srvs = scan_servers r name server;
          same = concat (map (\<lambda>srv. filter (\<lambda>c. called_by srv name c \<and> same_value (cl_args c) args) (rc_calls r)) srvs);
          tool = concat (map (\<lambda>srv. filter (called_by srv name) (rc_calls r)) srvs)
      in case same of
           c # _ \<Rightarrow> Inr (replay_of c)
         | [] \<Rightarrow> (case tool of
              c # _ \<Rightarrow> if strict then Inl LookupError else Inr (replay_of c)
            | [] \<Rightarrow> Inl LookupError))"

section \<open>The indexes hold the first call of each kind\<close>

definition canon :: "call_record \<Rightarrow> pystr" where
  "canon c = (case canonical_json (cl_args c) of Inr t \<Rightarrow> t | Inl e \<Rightarrow> [])"

text \<open>What a dictionary filled with \<open>setdefault\<close> holds: the first element for every key, and the
  keys in the order of their first appearance.\<close>

definition filled :: "('a \<Rightarrow> 'k) \<Rightarrow> 'a list \<Rightarrow> ('k \<times> 'a) list \<Rightarrow> bool" where
  "filled f xs d \<longleftrightarrow> keys d = fromkeys (map f xs) \<and> (\<forall>k. map_of d k = find (\<lambda>x. f x = k) xs)"

lemma fromkeys_Nil [simp]: "fromkeys [] = []"
  by (simp add: fromkeys_def)

lemma fromkeys_snoc: "fromkeys (xs @ [x]) = (if x \<in> set xs then fromkeys xs else fromkeys xs @ [x])"
proof -
  have "rev (remdups (x # ys)) = (if x \<in> set ys then rev (remdups ys) else rev (remdups ys) @ [x])" for ys
    by simp
  from this[of "rev xs"] show ?thesis by (simp add: fromkeys_def)
qed

lemma set_fromkeys [simp]: "set (fromkeys xs) = set xs"
  by (simp add: fromkeys_def)

lemma find_snoc: "find P (xs @ [x]) = (case find P xs of Some y \<Rightarrow> Some y | None \<Rightarrow> if P x then Some x else None)"
  by (induction xs) auto

lemma find_key: "find (\<lambda>x. f x = k) xs = None \<longleftrightarrow> k \<notin> f ` set xs"
  by (auto simp: find_None_iff)

lemma filled_setdefault:
  assumes "filled f xs d"
  shows "filled f (xs @ [x]) (setdefault d (f x) x)"
proof -
  have d: "keys d = fromkeys (map f xs)" "map_of d k = find (\<lambda>x. f x = k) xs" for k
    using assms by (auto simp: filled_def)
  show ?thesis
  proof (cases "f x \<in> f ` set xs")
    case True
    then have "find (\<lambda>y. f y = f x) xs \<noteq> None" unfolding find_key by blast
    with True show ?thesis
      by (auto simp: filled_def setdefault_def d fromkeys_snoc find_snoc split: option.splits)
  next
    case False
    then have "map_of d (f x) = None" unfolding d(2) find_key .
    with False show ?thesis
      by (auto simp: filled_def setdefault_def d fromkeys_snoc find_snoc map_add_def split: option.splits)
  qed
qed

lemma index_filled:
  assumes "foldE index_call s cs = Inr t"
    and "filled (\<lambda>c. (cl_server c, cl_tool_name c, canon c)) ds (rs_by_args s)"
    and "filled (\<lambda>c. (cl_server c, cl_tool_name c)) ds (rs_first_by_tool s)"
  shows "filled (\<lambda>c. (cl_server c, cl_tool_name c, canon c)) (ds @ cs) (rs_by_args t)
    \<and> filled (\<lambda>c. (cl_server c, cl_tool_name c)) (ds @ cs) (rs_first_by_tool t)
    \<and> rs_recording t = rs_recording s \<and> (\<forall>c \<in> set cs. \<exists>x. canonical_json (cl_args c) = Inr x)"
  using assms
proof (induction cs arbitrary: s ds)
  case (Cons c cs)
  then obtain x where x: "canonical_json (cl_args c) = Inr x" by (auto simp: index_call_def bindE_eq_Inr)
  let ?s = "s\<lparr>rs_by_args := setdefault (rs_by_args s) (cl_server c, cl_tool_name c, canon c) c,
     rs_first_by_tool := setdefault (rs_first_by_tool s) (cl_server c, cl_tool_name c) c\<rparr>"
  have "index_call s c = Inr ?s" using x by (simp add: index_call_def canon_def)
  then have "foldE index_call ?s cs = Inr t" using Cons.prems(1) by simp
  from Cons.IH[OF this, of "ds @ [c]"] filled_setdefault[OF Cons.prems(2), of c] filled_setdefault[OF Cons.prems(3), of c]
  show ?case using x by simp
qed simp

lemma replay_init_filled:
  assumes "replay_init r = Inr s"
  shows "filled (\<lambda>c. (cl_server c, cl_tool_name c, canon c)) (rc_calls r) (rs_by_args s)"
    and "filled (\<lambda>c. (cl_server c, cl_tool_name c)) (rc_calls r) (rs_first_by_tool s)"
    and "rs_recording s = r" and "\<forall>c \<in> set (rc_calls r). \<exists>x. canonical_json (cl_args c) = Inr x"
  using index_filled[OF assms[unfolded replay_init_def], of "[]"] by (simp_all add: filled_def)

section \<open>The server is the scan\<close>

lemma fromkeys_filter: "fromkeys (filter P xs) = filter P (fromkeys xs)"
  by (induction xs rule: rev_induct) (auto simp: fromkeys_snoc)

lemma fromkeys_inj: "inj_on g (set xs) \<Longrightarrow> map g (fromkeys xs) = fromkeys (map g xs)"
  by (induction xs rule: rev_induct) (auto simp: fromkeys_snoc inj_on_def)

lemma candidates_scan:
  assumes "filled (\<lambda>c. (cl_server c, cl_tool_name c)) (rc_calls r) (rs_first_by_tool s)"
  shows "candidates s name server = scan_servers r name server"
proof (cases server)
  case None
  let ?P = "\<lambda>(srv, n). n = name" and ?f = "\<lambda>c. (cl_server c, cl_tool_name c)"
  have "filter ?P (keys (rs_first_by_tool s)) = fromkeys (filter ?P (map ?f (rc_calls r)))"
    using assms by (simp add: filled_def fromkeys_filter)
  also have "filter ?P (map ?f (rc_calls r)) = map ?f (filter (\<lambda>c. cl_tool_name c = name) (rc_calls r))"
    by (simp add: filter_map comp_def)
  finally have "map fst (filter ?P (keys (rs_first_by_tool s)))
      = map fst (fromkeys (map ?f (filter (\<lambda>c. cl_tool_name c = name) (rc_calls r))))" by simp
  also have "\<dots> = fromkeys (map fst (map ?f (filter (\<lambda>c. cl_tool_name c = name) (rc_calls r))))"
    by (rule fromkeys_inj) (auto simp: inj_on_def)
  finally have "map fst (filter ?P (keys (rs_first_by_tool s)))
      = fromkeys (map cl_server (filter (\<lambda>c. cl_tool_name c = name) (rc_calls r)))" by (simp add: comp_def)
  moreover have "fromkeys (fromkeys xs) = fromkeys xs" for xs :: "pystr list"
    by (simp add: fromkeys_def)
  ultimately show ?thesis using None by (simp add: candidates_def scan_servers_def)
qed (simp add: candidates_def scan_servers_def)

definition first_of :: "'a list \<Rightarrow> 'a option" where
  "first_of xs = (case xs of [] \<Rightarrow> None | x # _ \<Rightarrow> Some x)"

lemma first_of_simps [simp]: "first_of [] = None" "first_of (x # xs) = Some x"
  by (simp_all add: first_of_def)

lemma first_of_append: "first_of (xs @ ys) = (case first_of xs of Some x \<Rightarrow> Some x | None \<Rightarrow> first_of ys)"
  by (cases xs) simp_all

lemma find_first_of: "find P xs = first_of (filter P xs)"
  by (induction xs) simp_all

lemma first_call_scan:
  assumes "filled (\<lambda>c. (cl_server c, cl_tool_name c)) cs (rs_first_by_tool s)"
  shows "first_call s name srvs = first_of (concat (map (\<lambda>srv. filter (called_by srv name) cs) srvs))"
proof (induction srvs)
  case (Cons srv srvs)
  have "map_of (rs_first_by_tool s) (srv, name) = find (\<lambda>c. (cl_server c, cl_tool_name c) = (srv, name)) cs"
    using assms by (simp add: filled_def)
  also have "\<dots> = find (called_by srv name) cs" by (rule find_cong) (simp_all add: called_by_def)
  finally show ?case using Cons by (simp only: first_call.simps list.map concat.simps first_of_append find_first_of)
qed simp

lemma exact_call_scan:
  assumes "filled (\<lambda>c. (cl_server c, cl_tool_name c, canon c)) cs (rs_by_args s)" "canonical_json args = Inr t"
    and "\<forall>c \<in> set cs. canon c = t \<longleftrightarrow> same_value (cl_args c) args"
  shows "exact_call s name args srvs = Inr (first_of (concat (map (\<lambda>srv.
       filter (\<lambda>c. called_by srv name c \<and> same_value (cl_args c) args) cs) srvs)))"
proof (induction srvs)
  case (Cons srv srvs)
  have "map_of (rs_by_args s) (srv, name, t) = find (\<lambda>c. (cl_server c, cl_tool_name c, canon c) = (srv, name, t)) cs"
    using assms(1) by (simp add: filled_def)
  also have "\<dots> = find (\<lambda>c. called_by srv name c \<and> same_value (cl_args c) args) cs"
    by (rule find_cong) (use assms(3) in \<open>auto simp: called_by_def\<close>)
  finally have m: "map_of (rs_by_args s) (srv, name, t) = first_of (filter (\<lambda>c. called_by srv name c \<and> same_value (cl_args c) args) cs)"
    by (simp only: find_first_of)
  show ?case
    unfolding exact_call.simps assms(2) bindE_simps m Cons list.map concat.simps first_of_append
    by (simp split: option.split)
qed simp

text \<open>C39 The replay server is a scan of the recording: a call is answered with the first recorded
  call of the tool whose arguments are the same JSON value, whatever their key order and
  number format, on the first server that has one; without one the strict mode raises, and
  the other mode answers with the first call of the tool.\<close>

theorem replay_is_scan:
  assumes "replay_init r = Inr s" and "canonical_json args = Inr t" and "wf_json args"
    and "\<forall>c \<in> set (rc_calls r). wf_json (cl_args c)"
  shows "replay_call s name args server strict = scan_replay r name args server strict"
proof -
  note f = replay_init_filled[OF assms(1)]
  have same: "canon c = t \<longleftrightarrow> same_value (cl_args c) args" if "c \<in> set (rc_calls r)" for c
  proof -
    from bspec[OF f(4) that] obtain x where x: "canonical_json (cl_args c) = Inr x" ..
    have "canon c = x" unfolding canon_def x by (rule sum.case(2))
    moreover have "x = t \<longleftrightarrow> same_value (cl_args c) args"
      by (rule canonical_text_iff[OF x assms(2) _ assms(3)]) (use assms(4) that in blast)
    ultimately show ?thesis by (rule ssubst)
  qed
  let ?same = "concat (map (\<lambda>srv. filter (\<lambda>c. called_by srv name c \<and> same_value (cl_args c) args) (rc_calls r))
    (scan_servers r name server))"
  let ?tool = "concat (map (\<lambda>srv. filter (called_by srv name) (rc_calls r)) (scan_servers r name server))"
  have e: "exact_call s name args (scan_servers r name server) = Inr (first_of ?same)"
    by (rule exact_call_scan[OF f(1) assms(2)]) (use same in blast)
  note g = first_call_scan[OF f(2), of name "scan_servers r name server"]
  have step: "bindE (Inr (first_of x)) (\<lambda>r. case r of
        Some c \<Rightarrow> Inr (replay_of c)
      | None \<Rightarrow> if strict then Inl LookupError
                else (case first_of y of Some c \<Rightarrow> Inr (replay_of c) | None \<Rightarrow> Inl LookupError))
    = (case x of c # _ \<Rightarrow> Inr (replay_of c)
         | [] \<Rightarrow> (case y of c # _ \<Rightarrow> if strict then Inl LookupError else Inr (replay_of c)
            | [] \<Rightarrow> Inl LookupError))" for x y
    by (cases x; cases y) simp_all
  show ?thesis
    unfolding replay_call_def scan_replay_def Let_def candidates_scan[OF f(2)] e g by (rule step)
qed

definition sample_calls :: recording where
  "sample_calls = \<lparr>rc_path = [], rc_session_id = JStr [], rc_agent = [], rc_events = [], rc_tools = [],
     rc_calls = [new_call [(S ''server'', JStr (S ''s'')), (S ''tool_name'', JStr (S ''t'')),
         (S ''args'', JDict [(S ''a'', JInt 1), (S ''b'', JNull)])] \<lparr>cl_ok := JBool True, cl_result := JInt 7\<rparr>],
     rc_integrity_problems = []\<rparr>"

theorem replay_is_scan_witness:
  "\<exists>s. replay_init sample_calls = Inr s \<and>
     replay_call s (S ''t'') (JDict [(S ''b'', JNull), (S ''a'', JFloat (Dec False 1 0))]) None True
       = Inr \<lparr>rr_ok = True, rr_result = JInt 7, rr_error = JNull, rr_latency_ms = JNull\<rparr>"
proof -
  let ?a = "JDict [(S ''a'', JInt 1), (S ''b'', JNull)]" and ?b = "JDict [(S ''b'', JNull), (S ''a'', JFloat (Dec False 1 0))]"
  have p: "portable ?a" "portable ?b" by (simp_all add: keys_encodable_def S_def is_surrogate_def)
  obtain x where "canonical_json ?a = Inr x" using canonical_portable[of ?a] p by (simp only: if_True) blast
  then obtain s where s: "replay_init sample_calls = Inr s"
    by (simp add: replay_init_def sample_calls_def index_call_def new_call_def dict_get.simps del: canonical_json.simps)
  obtain t where t: "canonical_json ?b = Inr t" using canonical_portable[of ?b] p by (simp only: if_True) blast
  have "scan_replay sample_calls (S ''t'') ?b None True
      = Inr \<lparr>rr_ok = True, rr_result = JInt 7, rr_error = JNull, rr_latency_ms = JNull\<rparr>"
    by (simp add: scan_replay_def scan_servers_def sample_calls_def new_call_def sget_def dict_get.simps called_by_def
        fromkeys_def replay_of_def dec_value_def)
  moreover have "\<forall>c \<in> set (rc_calls sample_calls). wf_json (cl_args c)"
    by (simp add: sample_calls_def new_call_def dict_get.simps)
  moreover have "wf_json ?b" by simp
  ultimately show ?thesis using replay_is_scan[OF s t] s by simp
qed

end
