(* ===== verification/Cli.thy ===== *)
theory Cli
  imports Report Recorder_Facts Replay
begin

text \<open>
  The commands (\<open>harness/cli.py\<close>) with their exit status. The file system is the environment:
  what reading a recording or an accept-file gives, or the exception it raises. \<open>Inl\<close> is an
  exception that leaves \<open>main\<close>, \<open>Inr\<close> the exit status and what is written. \<open>argparse\<close> and the
  messages on the error stream are left out.
\<close>

record cli_env =
  ce_sha :: "nat list \<Rightarrow> pystr"
  ce_data :: unidata
  ce_upper :: "pystr \<Rightarrow> pystr"
  ce_errs :: "event \<Rightarrow> pystr list"
  ce_order :: "pystr list \<Rightarrow> pystr list"
  ce_today :: int
  ce_recording :: "pystr \<Rightarrow> pyexc + line list"
  ce_accept :: "pystr \<Rightarrow> pyexc + json"

datatype printed = Silent | Text pystr | Warned "problem list" pystr | Written json

type_synonym status = "pyexc + nat \<times> printed"

text \<open>\<open>_write_output\<close> adds the final newline.\<close>

definition write_output :: "pystr \<Rightarrow> printed" where
  "write_output t = Text (if t \<noteq> [] \<and> last t = 10 then t else t @ [10])"

definition load_strict_or_exit2 :: "cli_env \<Rightarrow> pystr \<Rightarrow> (pyexc + nat) + recording" where
  "load_strict_or_exit2 E path =
     (case ce_recording E path of
        Inl e \<Rightarrow> if e = OSError \<or> value_error e then Inl (Inr 2) else Inl (Inl e)
      | Inr ls \<Rightarrow> (case load (ce_sha E) (ce_errs E) path ls True of
          Inl (IntegrityError ps) \<Rightarrow> Inl (Inr 2)
        | Inl (LoadRaised e) \<Rightarrow> if e = OSError \<or> value_error e then Inl (Inr 2) else Inl (Inl e)
        | Inr r \<Rightarrow> Inr r))"

fun ended :: "pyexc + nat \<Rightarrow> status" where
  "ended (Inl e) = Inl e" | "ended (Inr n) = Inr (n, Silent)"

text \<open>\<open>s.split(",")\<close>\<close>

fun split_comma :: "pystr \<Rightarrow> pystr list" where
  "split_comma [] = [[]]"
| "split_comma (c # s) =
     (if c = 44 then [] # split_comma s
      else case split_comma s of t # ts \<Rightarrow> (c # t) # ts | [] \<Rightarrow> [[c]])"

definition parse_fail_on :: "cli_env \<Rightarrow> pystr \<Rightarrow> pystr list" where
  "parse_fail_on E s =
     (if s = [] then default_fail_on
      else map (\<lambda>t. ce_upper E (strip (ce_data E) t)) (filter (\<lambda>t. strip (ce_data E) t \<noteq> []) (split_comma s)))"

definition known_severities :: "pystr list" where
  "known_severities = map severity_name severity_order"

definition diff_in :: "cli_env \<Rightarrow> recording \<Rightarrow> recording \<Rightarrow> pyexc + report" where
  "diff_in E baseline current = diff_recordings (ce_data E) (ce_order E) default_options baseline current"

text \<open>The accept-file is read if the option is given and not empty; \<open>OSError\<close> and \<open>ValueError\<close> end with 2.\<close>

definition read_accepted :: "cli_env \<Rightarrow> pystr option \<Rightarrow> (pyexc + nat) + accept_entry list" where
  "read_accepted E path =
     (case path of
        None \<Rightarrow> Inr []
      | Some p \<Rightarrow>
          if p = [] then Inr []
          else case bindE (ce_accept E p) load_accept_file of
            Inl e \<Rightarrow> if e = OSError \<or> value_error e then Inl (Inr 2) else Inl (Inl e)
          | Inr es \<Rightarrow> Inr es)"

definition cmd_check ::
  "cli_env \<Rightarrow> pystr \<Rightarrow> pystr \<Rightarrow> pystr \<Rightarrow> pystr option \<Rightarrow> pystr \<Rightarrow> status" where
  "cmd_check E baseline_path current_path fail_on_arg accept_path fmt =
     (case load_strict_or_exit2 E baseline_path of Inl x \<Rightarrow> ended x | Inr baseline \<Rightarrow>
      (case load_strict_or_exit2 E current_path of Inl x \<Rightarrow> ended x | Inr current \<Rightarrow>
       let fail_on = parse_fail_on E fail_on_arg in
       if \<not> set fail_on \<subseteq> set known_severities \<or> fail_on = [] then Inr (2, Silent)
       else case read_accepted E accept_path of Inl x \<Rightarrow> ended x | Inr entries \<Rightarrow>
         bindE (diff_in E baseline current) (\<lambda>report.
         bindE (evaluate (ce_sha E) (ce_data E) (ce_today E) report fail_on entries) (\<lambda>gate.
         bindE (render_as (ce_data E) fmt report (Some gate)) (\<lambda>t.
         Inr (if gr_passed gate then 0 else 1, write_output t))))))"

definition cmd_accept :: "cli_env \<Rightarrow> pystr \<Rightarrow> pystr \<Rightarrow> pystr \<Rightarrow> status" where
  "cmd_accept E baseline_path current_path why =
     (case load_strict_or_exit2 E baseline_path of Inl x \<Rightarrow> ended x | Inr baseline \<Rightarrow>
      (case load_strict_or_exit2 E current_path of Inl x \<Rightarrow> ended x | Inr current \<Rightarrow>
         bindE (diff_in E baseline current) (\<lambda>report.
         bindE (save_accept_file (ce_sha E) (ce_data E) why (rp_findings report)) (\<lambda>data.
         Inr (0, Written data)))))"

text \<open>Without \<open>strict\<close> there is no \<open>IntegrityError\<close>.\<close>

definition load_lenient :: "cli_env \<Rightarrow> pystr \<Rightarrow> pyexc + recording" where
  "load_lenient E path =
     bindE (ce_recording E path) (\<lambda>ls. case load (ce_sha E) (ce_errs E) path ls False of
       Inl (LoadRaised e) \<Rightarrow> Inl e | Inl (IntegrityError ps) \<Rightarrow> Inl ValueError | Inr r \<Rightarrow> Inr r)"

definition cmd_diff :: "cli_env \<Rightarrow> pystr \<Rightarrow> pystr \<Rightarrow> pystr \<Rightarrow> status" where
  "cmd_diff E baseline_path current_path fmt =
     bindE (load_lenient E baseline_path) (\<lambda>baseline.
     bindE (load_lenient E current_path) (\<lambda>current.
       let problems = rc_integrity_problems baseline @ rc_integrity_problems current in
       bindE (diff_in E baseline current) (\<lambda>report.
       bindE (render_as (ce_data E) fmt report None) (\<lambda>t.
       Inr (0, if problems = [] then write_output t
               else Warned problems (if t \<noteq> [] \<and> last t = 10 then t else t @ [10]))))))"

text \<open>\<open>--call\<close>: the tool and the outcome of \<open>json.loads\<close> of its arguments.\<close>

definition cmd_replay :: "cli_env \<Rightarrow> pystr \<Rightarrow> (pystr \<times> (pyexc + json)) option \<Rightarrow> bool \<Rightarrow> status" where
  "cmd_replay E path request strict =
     bindE (load_lenient E path) (\<lambda>recording.
     bindE (replay_init recording) (\<lambda>server.
       case request of
         None \<Rightarrow> bindE (list_tools server None) (\<lambda>tools.
           Inr (0, Text (dumps_indented 0 (JList (map JDict tools)) @ [10])))
       | Some (tool_name, Inl e) \<Rightarrow> if e = JSONDecodeError then Inr (2, Silent) else Inl e
       | Some (tool_name, Inr call_args) \<Rightarrow>
           (case replay_call server tool_name call_args None strict of
              Inl LookupError \<Rightarrow> Inr (1, Silent)
            | Inl e \<Rightarrow> Inl e
            | Inr r \<Rightarrow> Inr (if rr_ok r then 0 else 1, Text (dumps_indented 0
                (JDict [(S ''ok'', JBool (rr_ok r)), (S ''result'', rr_result r), (S ''error'', rr_error r)]) @ [10])))))"

section \<open>What exit status 0 means\<close>

lemma load_strict_clean: "load sha errs path ls True = Inr r \<Longrightarrow> rc_integrity_problems r = []"
  by (auto simp: load_def Let_def split: sum.splits if_splits)

lemma load_clean: "load_strict_or_exit2 E path = Inr r \<Longrightarrow> rc_integrity_problems r = []"
  by (auto simp: load_strict_or_exit2_def split: sum.splits load_error.splits if_splits dest: load_strict_clean)

lemma ended_not_0: "load_strict_or_exit2 E path = Inl x \<Longrightarrow> ended x \<noteq> Inr (0, t)"
  by (auto simp: load_strict_or_exit2_def split: sum.splits load_error.splits if_splits)

lemma accepted_not_0: "read_accepted E path = Inl x \<Longrightarrow> ended x \<noteq> Inr (0, t)"
  by (auto simp: read_accepted_def split: option.splits sum.splits if_splits)

lemma check_passed:
  assumes "cmd_check E bp cp fo acc fmt = Inr (0, out)"
  obtains baseline current entries report gate where
    "load_strict_or_exit2 E bp = Inr baseline" "load_strict_or_exit2 E cp = Inr current"
    "read_accepted E acc = Inr entries" "diff_in E baseline current = Inr report"
    "evaluate (ce_sha E) (ce_data E) (ce_today E) report (parse_fail_on E fo) entries = Inr gate" "gr_passed gate"
proof -
  obtain baseline where b: "load_strict_or_exit2 E bp = Inr baseline"
    using assms ended_not_0 by (cases "load_strict_or_exit2 E bp") (auto simp: cmd_check_def)
  obtain current where c: "load_strict_or_exit2 E cp = Inr current"
    using assms ended_not_0 b by (cases "load_strict_or_exit2 E cp") (auto simp: cmd_check_def)
  have f: "\<not> (\<not> set (parse_fail_on E fo) \<subseteq> set known_severities \<or> parse_fail_on E fo = [])"
    using assms unfolding cmd_check_def b c Let_def by (cases "\<not> set (parse_fail_on E fo) \<subseteq> set known_severities \<or> parse_fail_on E fo = []") simp_all
  obtain entries where e: "read_accepted E acc = Inr entries"
    using assms accepted_not_0 unfolding cmd_check_def b c Let_def if_not_P[OF f] by (cases "read_accepted E acc") auto
  obtain report gate t where r: "diff_in E baseline current = Inr report"
      "evaluate (ce_sha E) (ce_data E) (ce_today E) report (parse_fail_on E fo) entries = Inr gate"
      "(if gr_passed gate then 0 else 1 :: nat) = 0"
    using assms unfolding cmd_check_def b c Let_def if_not_P[OF f] e sum.case bindE_eq_Inr by (elim exE conjE) auto
  from r(3) have g: "gr_passed gate" by (simp split: if_splits)
  from that[OF b c e r(1,2) g] show thesis .
qed

lemma removed_alarm:
  assumes diff: "diff_recordings u set_order opts baseline current = Inr r"
    and "latest_tool baseline server name = Some b" "latest_tool current server name = None"
  shows "\<exists>g \<in> set (rp_findings r). f_severity g = BREAKING"
proof -
  have "(server, name) \<in> set (all_keys baseline current)"
    using assms(2) by (auto simp: latest_tool_def all_keys_def tool_keys_def simp del: set_map split: option.splits dest: map_of_Some_keys)
  moreover obtain fss where fss: "mapE (key_findings u set_order opts baseline current) (all_keys baseline current) = Inr fss"
      "rp_findings r = concat fss"
    using diff by (auto simp: diff_recordings_def bindE_eq_Inr)
  ultimately obtain gs where gs: "gs \<in> set fss" "key_findings u set_order opts baseline current (server, name) = Inr gs"
    using mapE_mem_result by metis
  have "\<exists>g \<in> set gs. f_severity g = BREAKING"
    using gs(2) assms(2,3) by (auto simp: key_findings_def Let_def definition_findings_def bindE_eq_Inr presence_finding_def)
  with gs(1) show ?thesis unfolding fss(2) by auto
qed

text \<open>What the current recording may do to the tools of the baseline without an alarm.\<close>

definition harmless :: "unidata \<Rightarrow> recording \<Rightarrow> recording \<Rightarrow> bool" where
  "harmless u baseline current \<longleftrightarrow>
     (\<forall>server name b. latest_tool baseline server name = Some b \<longrightarrow>
        latest_tool current server name \<noteq> None \<and>
        (\<forall>vs h v. map_of (rc_tools current) (server, name) = Some vs \<longrightarrow>
           find (\<lambda>w. tv_def_hash w = h) vs = Some v \<longrightarrow> h \<noteq> tv_def_hash b \<longrightarrow>
           \<not> lossy_change u (tv_tool b) (tv_tool v) \<and> \<not> newly_suspicious u (tv_tool b) (tv_tool v)))"

lemma harmlessI:
  assumes diff: "diff_recordings u set_order opts baseline current = Inr r" and j: "do_judge opts = None"
    and calm: "\<forall>f \<in> set (rp_findings r). f_severity f \<noteq> BREAKING \<and> f_severity f \<noteq> SECURITY"
  shows "harmless u baseline current"
  unfolding harmless_def
proof (intro allI impI conjI)
  fix server name b
  assume b: "latest_tool baseline server name = Some b"
  show "latest_tool current server name \<noteq> None"
    using removed_alarm[OF diff b] calm by blast
  fix vs h v
  assume v: "map_of (rc_tools current) (server, name) = Some vs" "find (\<lambda>w. tv_def_hash w = h) vs = Some v" "h \<noteq> tv_def_hash b"
  show "\<not> lossy_change u (tv_tool b) (tv_tool v)" using version_alarm[OF diff j b v] calm by blast
  show "\<not> newly_suspicious u (tv_tool b) (tv_tool v)" using version_suspicious[OF diff j b v] calm by blast
qed

lemma passed_calm:
  assumes "evaluate sha u today r fail_on [] = Inr g" "gr_passed g" "{S ''BREAKING'', S ''SECURITY''} \<subseteq> set fail_on"
  shows "\<forall>f \<in> set (rp_findings r). f_severity f \<noteq> BREAKING \<and> f_severity f \<noteq> SECURITY"
  using gate_passes_iff[OF assms(1)] assms(2,3) by (auto simp: counts_def severity_name_def)

text \<open>C1 What the differ can see of a rug pull does not pass the CI gate. Let \<open>harness check\<close> run without an accept-file and
  with failing severities that include BREAKING and SECURITY, as the default \<open>BREAKING,SECURITY\<close> does. When it exits
  with 0, then both recordings verify, and every tool of the baseline is still defined in the current session.
  Moreover take any hash under which the current session recorded a definition of such a tool, at any time, not only at
  the end, other than the hash of the last definition in the baseline. Then the first definition under that hash takes no
  parameter (with an object schema) away and makes no parameter newly required; and if its description differs from the
  one of the baseline after normalisation (case, punctuation, white space), there is no category of suspicious patterns that
  occurs in it and not in the one of the baseline. Nothing is said of edits that leave the hash as it is or that only
  normalisation hides.\<close>

theorem check_stops_rug_pull:
  assumes "cmd_check E baseline_path current_path fail_on_arg None fmt = Inr (0, out)"
    and "{S ''BREAKING'', S ''SECURITY''} \<subseteq> set (parse_fail_on E fail_on_arg)"
  shows "\<exists>baseline current. load_strict_or_exit2 E baseline_path = Inr baseline
     \<and> load_strict_or_exit2 E current_path = Inr current
     \<and> rc_integrity_problems baseline = [] \<and> rc_integrity_problems current = []
     \<and> harmless (ce_data E) baseline current"
proof -
  obtain baseline current entries report gate where r: "load_strict_or_exit2 E baseline_path = Inr baseline"
      "load_strict_or_exit2 E current_path = Inr current" "read_accepted E None = Inr entries"
      "diff_in E baseline current = Inr report"
      "evaluate (ce_sha E) (ce_data E) (ce_today E) report (parse_fail_on E fail_on_arg) entries = Inr gate" "gr_passed gate"
    using check_passed[OF assms(1)] .
  have d: "diff_recordings (ce_data E) (ce_order E) default_options baseline current = Inr report"
    using r(4) by (simp add: diff_in_def)
  have "evaluate (ce_sha E) (ce_data E) (ce_today E) report (parse_fail_on E fail_on_arg) [] = Inr gate"
    using r(3,5) by (simp add: read_accepted_def)
  from harmlessI[OF d _ passed_calm[OF this r(6) assms(2)]] r(1,2) load_clean[OF r(1)] load_clean[OF r(2)] show ?thesis
    by (auto simp: default_options_def)
qed

text \<open>C38 A session checked against itself passes: when a recording verifies and no tool changed its
  definition during the session, \<open>harness check\<close> of the recording against itself exits with 0,
  for every choice of failing severities that is valid and every format.\<close>

theorem check_itself_passes:
  assumes "load_strict_or_exit2 E path = Inr r"
    and "\<forall>(k, vs) \<in> set (rc_tools r). vs \<noteq> [] \<and> (\<forall>v \<in> set vs. tv_def_hash v = tv_def_hash (last vs))"
    and "set (parse_fail_on E fo) \<subseteq> set known_severities" and "parse_fail_on E fo \<noteq> []"
    and "fmt \<in> set (keys (formatters (ce_data E)))"
  shows "\<exists>t. cmd_check E path path fo None fmt = Inr (0, Text t)"
proof -
  have "0 < do_delta default_options"
    by code_simp
  from diff_same_recording[OF this assms(2)] have d: "diff_in E r r = Inr \<lparr>rp_baseline = rc_path r, rp_current = rc_path r, rp_findings = []\<rparr>"
    unfolding diff_in_def .
  obtain t where t: "render_as (ce_data E) fmt rp g = Inr (t rp g)" for rp g
    using assms(5) by (auto simp: render_as_def formatters_def)
  show ?thesis
    using assms(1,3,4) by (simp add: cmd_check_def Let_def read_accepted_def d evaluate_def t write_output_def)
qed

section \<open>A sample\<close>

text \<open>A recording of the definition of one tool, written by the recorder.\<close>

definition plain_tool :: event where
  "plain_tool = [(S ''name'', JStr (S ''t'')), (S ''inputSchema'', JDict [(S ''properties'', JDict [(S ''q'', JDict [])])])]"

lemma plain_portable: "list_all (\<lambda>(k, v). \<not> list_ex is_surrogate k \<and> portable v) plain_tool"
  by (simp add: plain_tool_def keys_encodable_def S_def is_surrogate_def)

lemma plain_hash: "tool_hash (e_sha sample_env) plain_tool = Inr (hash_prefix @ replicate 64 48)"
proof -
  let ?m = "JDict [(S ''name'', JStr (S ''t'')), (S ''description'', JStr []),
     (S ''inputSchema'', JDict [(S ''properties'', JDict [(S ''q'', JDict [])])])]"
  have norm: "normalize_tool plain_tool = Inr ?m"
    by (simp add: plain_tool_def normalize_tool_def normalize_JDict norm_required_def dict_get.simps)
  have "portable ?m" by (simp add: keys_encodable_def S_def is_surrogate_def)
  then obtain s where "canonical_json ?m = Inr s" using canonical_portable[of ?m] by (simp only: if_True) blast
  then show ?thesis using norm by (simp add: tool_hash_def sha256_hex_def sample_env_def del: canonical_json.simps)
qed

lemma sample_recording:
  "\<exists>e1 e2. verify (e_sha sample_env) sample_errs (JStr (S ''s'')) [e1, e2] = []
     \<and> eget e1 ''session_id'' = JStr (S ''s'') \<and> has_type e1 ''session_start'' \<and> has_type e2 ''tool_definition''
     \<and> eget e2 ''server'' = JStr (S ''s'') \<and> eget e2 ''tool'' = JDict plain_tool"
proof -
  let ?s0 = "recorder_init (S ''s'') (S ''a'') None" and ?f = "[(S ''agent'', JStr (S ''a''))]"
  let ?h = "hash_prefix @ replicate 64 48"
  let ?g = "[(S ''server'', JStr (S ''s'')), (S ''tool'', JDict plain_tool), (S ''def_hash'', JStr ?h)]"
  have "sample_state 0 ?s0" by (simp add: sample_state_def recorder_init_def)
  from sample_emit[OF this, of ?f "''session_start''"]
  obtain e1 s1 where 1: "emit sample_env ''session_start'' ?f ?s0 = (Inr e1, s1)" "sample_state 1 s1"
    by (auto simp: reserved_def S_def list_ex_iff is_surrogate_def)
  have k1: "distinct (keys ?f)" "set (keys ?f) \<inter> reserved = {}" by (auto simp: reserved_def)
  have k2: "distinct (keys ?g)" "set (keys ?g) \<inter> reserved = {}" by (auto simp: reserved_def)
  from emit_shape[OF 1(1) k1] obtain h1 where
    e1: "e1 = base_event sample_env ''session_start'' ?s0 @ ?f @ [(S ''event_hash'', JStr h1)]" and ev1: "re_events s1 = [e1]"
    by (auto simp: recorder_init_def dest: arg_cong[where f = re_events])
  have d1: "re_defs s1 = []" using 1(1) by (auto simp: emit_def Let_def recorder_init_def split: sum.splits)
  let ?s1 = "s1\<lparr>re_defs := [((S ''s'', JStr (S ''t'')), (?h, plain_tool))]\<rparr>"
  have s1: "sample_state 1 ?s1" using 1(2) by (simp add: sample_state_def)
  have flds: "list_all (\<lambda>(k, v). \<not> list_ex is_surrogate k \<and> portable v) ?g"
    using plain_portable by (auto simp: S_def hash_prefix_def list_ex_iff is_surrogate_def keys_encodable_def list_all_iff)
  have kd: "list_all (\<lambda>c. c < 128) (S ''tool_definition'')" by (simp add: S_def)
  have "(1 :: nat) < 10" by simp
  from sample_emit[OF s1 this k2 flds kd] obtain e2 s2 where 2: "emit sample_env ''tool_definition'' ?g ?s1 = (Inr e2, s2)"
    by blast
  from emit_shape[OF 2 k2] obtain h2 where
    e2: "e2 = base_event sample_env ''tool_definition'' ?s1 @ ?g @ [(S ''event_hash'', JStr h2)]" and ev2: "re_events s2 = [e1, e2]"
    and sid: "re_session s2 = S ''s''"
    using ev1 1(2) sample_state_def by (fastforce dest: arg_cong[where f = re_events] arg_cong[where f = re_session])
  have enter: "enter sample_env ?s0 = (Inr (), s1)"
    using 1(1) by (simp add: enter_def bindS_def getS_def returnS_def recorder_init_def)
  have inv: "sess_inv sample_env sample_errs s1" by (rule enter_inv[OF sample_ok(1,2) _ _ enter]) simp_all
  have name: "map_of plain_tool (S ''name'') = Some (JStr (S ''t''))" by (simp add: plain_tool_def)
  have run: "record_definition sample_env (S ''s'') plain_tool s1 = (Inr (), s2)"
    using 2 d1 by (simp add: record_definition_def name plain_hash bindS_def liftS_def getS_def modifyS_def returnS_def)
  have "tool_ok (JDict plain_tool)" by (simp add: plain_tool_def tool_ok_def present_def optional_def)
  from record_definition_inv[OF sample_ok(1,2) inv this run] have "written sample_env sample_errs s2"
    using sess_written by blast
  from written_verifies[OF this] have "verify (e_sha sample_env) sample_errs (JStr (S ''s'')) [e1, e2] = []"
    unfolding ev2 sid .
  moreover have "eget e1 ''session_id'' = JStr (S ''s'')" "has_type e1 ''session_start''" "has_type e2 ''tool_definition''"
     "eget e2 ''server'' = JStr (S ''s'')" "eget e2 ''tool'' = JDict plain_tool"
    by (simp_all add: e1 e2 base_event_def event_type_def dict_get.simps recorder_init_def)
  ultimately show ?thesis by blast
qed

lemma verify_errs:
  assumes "verify sha errs sid evs = []"
  shows "\<forall>ev \<in> set evs. errs ev = []"
proof -
  have "\<forall>ev \<in> set evs. errs ev = []" if "v_problems (verify_run sha errs sid st k evs) = []" for st k evs
    using that
  proof (induction evs arbitrary: st k)
    case (Cons ev evs)
    let ?st = "verify_step sha errs sid st (k, ev)"
    have "v_problems ?st = []"
      using Cons.prems verify_run_grows[of sha errs sid ?st "Suc k" evs] by (auto simp: verify_run_Cons)
    then have "chain_problems sha errs sid k ev st = []"
      using verify_step_grows[of sha errs sid st k ev] by auto
    then have "errs ev = []" by (simp add: chain_problems_def Let_def)
    with Cons.IH[of ?st "Suc k"] Cons.prems show ?case by (simp add: verify_run_Cons)
  qed simp
  with assms show ?thesis by (cases evs) (auto simp: verify_def simp del: set_simps)
qed

lemma sample_load:
  "\<exists>evs r v. load (e_sha sample_env) sample_errs [] (map (\<lambda>ev. (1, Inr (JDict ev))) evs) True = Inr r
     \<and> rc_tools r = [((S ''s'', S ''t''), [v])] \<and> tv_tool v = plain_tool"
proof -
  obtain e1 e2 where v: "verify (e_sha sample_env) sample_errs (JStr (S ''s'')) [e1, e2] = []"
    and g: "eget e1 ''session_id'' = JStr (S ''s'')" "has_type e1 ''session_start''" "has_type e2 ''tool_definition''"
      "eget e2 ''server'' = JStr (S ''s'')" "eget e2 ''tool'' = JDict plain_tool"
    using sample_recording by blast
  have ok: "sample_errs e1 = []" "sample_errs e2 = []" using verify_errs[OF v] by simp_all
  have dg: "dict_get e1 (S ''session_id'') (JStr []) = JStr (S ''s'')" "dict_get e2 (S ''server'') (JStr []) = JStr (S ''s'')"
      "dict_get e2 (S ''tool'') (JDict []) = JDict plain_tool"
    using g(1,4,5) by (auto simp: dict_get.simps split: option.splits)
  have n: "sget plain_tool ''name'' = S ''t''" "sget e2 ''server'' = S ''s''"
    using g(4) by (auto simp: sget_def plain_tool_def dict_get.simps split: option.splits)
  let ?v = "\<lparr>tv_server = S ''s'', tv_name = S ''t'', tv_tool = plain_tool, tv_def_hash = sget e2 ''def_hash'', tv_seq = eget e2 ''seq''\<rparr>"
  have "\<exists>r. load (e_sha sample_env) sample_errs [] (map (\<lambda>ev. (1, Inr (JDict ev))) [e1, e2]) True = Inr r
     \<and> rc_tools r = [((S ''s'', S ''t''), [?v])]"
    using v ok g(2,3) by (simp add: load_def validate_jsonl_line_def List.map_filter_def Let_def index_event_def dg n del: dict_get.simps)
  then show ?thesis by (intro exI[of _ "[e1, e2]"]) auto
qed

definition sample_cli :: "event list \<Rightarrow> cli_env" where
  "sample_cli evs = \<lparr>ce_sha = e_sha sample_env, ce_data = ascii_data, ce_upper = (\<lambda>s. s), ce_errs = sample_errs,
     ce_order = (\<lambda>s. s), ce_today = 738000, ce_recording = (\<lambda>path. Inr (map (\<lambda>ev. (1, Inr (JDict ev))) evs)),
     ce_accept = (\<lambda>path. Inl OSError)\<rparr>"

lemma sample_strict: "\<exists>evs r v. load_strict_or_exit2 (sample_cli evs) [] = Inr r
  \<and> rc_tools r = [((S ''s'', S ''t''), [v])] \<and> tv_tool v = plain_tool"
proof -
  obtain evs r v where "load (e_sha sample_env) sample_errs [] (map (\<lambda>ev. (1, Inr (JDict ev))) evs) True = Inr r"
      "rc_tools r = [((S ''s'', S ''t''), [v])]" "tv_tool v = plain_tool"
    using sample_load by blast
  then show ?thesis by (intro exI[of _ evs] exI[of _ r]) (simp add: load_strict_or_exit2_def sample_cli_def)
qed

text \<open>The default that \<open>argparse\<close> fills in.\<close>

abbreviation default_arg :: pystr where "default_arg \<equiv> S ''BREAKING,SECURITY''"

lemma sample_default: "parse_fail_on (sample_cli evs) default_arg = [S ''BREAKING'', S ''SECURITY'']"
    "{S ''BREAKING'', S ''SECURITY''} \<subseteq> set known_severities" "S ''text'' \<in> set (keys (formatters u))"
  by (auto simp: parse_fail_on_def sample_cli_def ascii_data_def S_def strip_def known_severities_def severity_order_def
      severity_name_def formatters_def)

theorem check_itself_passes_witness:
  "\<exists>evs r v t. load_strict_or_exit2 (sample_cli evs) [] = Inr r \<and> rc_tools r = [((S ''s'', S ''t''), [v])]
     \<and> cmd_check (sample_cli evs) [] [] default_arg None (S ''text'') = Inr (0, Text t)"
proof -
  obtain evs r v where r: "load_strict_or_exit2 (sample_cli evs) [] = Inr r" "rc_tools r = [((S ''s'', S ''t''), [v])]"
    using sample_strict by blast
  have "\<forall>(k, vs) \<in> set (rc_tools r). vs \<noteq> [] \<and> (\<forall>v \<in> set vs. tv_def_hash v = tv_def_hash (last vs))" using r(2) by simp
  from check_itself_passes[OF r(1) this, of default_arg "S ''text''"] r show ?thesis
    using sample_default(1)[of evs] sample_default(2) sample_default(3)[of "ce_data (sample_cli evs)"] by auto
qed

lemma sample_passes: "\<exists>evs r v t. cmd_check (sample_cli evs) [] [] default_arg None (S ''text'') = Inr (0, Text t)
  \<and> load_strict_or_exit2 (sample_cli evs) [] = Inr r \<and> rc_tools r = [((S ''s'', S ''t''), [v])] \<and> tv_tool v = plain_tool"
proof -
  obtain evs r v where r: "load_strict_or_exit2 (sample_cli evs) [] = Inr r" "rc_tools r = [((S ''s'', S ''t''), [v])]"
      "tv_tool v = plain_tool"
    using sample_strict by blast
  have "0 < do_delta default_options" by code_simp
  from diff_same_recording[OF this, of r] r(2) have
    "diff_in (sample_cli evs) r r = Inr \<lparr>rp_baseline = rc_path r, rp_current = rc_path r, rp_findings = []\<rparr>"
    unfolding diff_in_def by simp
  then show ?thesis
    using r sample_default(1)[of evs] sample_default(2)
    by (intro exI[of _ evs] exI[of _ r] exI[of _ v])
      (auto simp: cmd_check_def Let_def read_accepted_def evaluate_def write_output_def render_as_def formatters_def)
qed

theorem check_stops_rug_pull_witness:
  "\<exists>evs r v out. cmd_check (sample_cli evs) [] [] default_arg None (S ''text'') = Inr (0, out)
     \<and> load_strict_or_exit2 (sample_cli evs) [] = Inr r \<and> latest_tool r (S ''s'') (S ''t'') = Some v \<and> tv_tool v = plain_tool
     \<and> rc_integrity_problems r = [] \<and> harmless ascii_data r r"
proof -
  obtain evs r v t where p: "cmd_check (sample_cli evs) [] [] default_arg None (S ''text'') = Inr (0, Text t)"
      "load_strict_or_exit2 (sample_cli evs) [] = Inr r" "rc_tools r = [((S ''s'', S ''t''), [v])]" "tv_tool v = plain_tool"
    using sample_passes by blast
  have "{S ''BREAKING'', S ''SECURITY''} \<subseteq> set (parse_fail_on (sample_cli evs) default_arg)"
    by (simp add: sample_default(1))
  from check_stops_rug_pull[OF p(1) this] p(2) have "rc_integrity_problems r = [] \<and> harmless ascii_data r r"
    by (auto simp: sample_cli_def)
  with p show ?thesis by (auto simp: latest_tool_def)
qed

end
