(* ===== verification/Guards.thy ===== *)
theory Guards
  imports Patterns
begin

text \<open>
  What the semantic cache refuses: the value types (\<open>semantic_cache/types.py\<close>), the policy that
  decides whether a query may be cached at all (\<open>policy.py\<close>) and the guards that compare a query
  with the stored one (\<open>guards.py\<close>), with every regular expression of both files.
\<close>

section \<open>Types\<close>

record cache_context =
  cx_tenant :: pystr
  cx_model :: pystr
  cx_system_prompt_hash :: pystr
  cx_params_hash :: pystr

section \<open>Policy\<close>

text \<open>A literal without \<open>re.IGNORECASE\<close>.\<close>

definition exactly :: "string \<Rightarrow> rx" where "exactly s = chars (\<lambda>c. c) (S s)"

definition time_sensitive_re :: "unidata \<Rightarrow> rx" where
  "time_sensitive_re u = alts
     [seqs [Bnd, lits u [''today'', ''tonight'', ''now'', ''right now'', ''currently'', ''current'', ''latest'',
        ''breaking'', ''live''], Bnd],
      seqs [Bnd, lit u ''this '', lits u [''week'', ''month'', ''year''], Bnd],
      seqs [Bnd, lit u ''current price'', Bnd]]"

definition apostrophe :: string where "apostrophe = [CHR 0x27]"

definition personal_re :: "unidata \<Rightarrow> rx" where
  "personal_re u = alts
     [seqs [Bnd, lits u [''my'', ''mine'', ''me'', ''myself''], Bnd],
      seqs [Bnd, lit u ''i'', opt (lit u apostrophe), lit u ''m'', Bnd],
      seqs [Bnd, lit u ''i'', opt (lit u apostrophe), lit u ''ve'', Bnd],
      seqs [Bnd, lit u ''i'', opt (lit u apostrophe), lit u ''ll'', Bnd],
      seqs [Bnd, lit u ''i'', opt (lit u apostrophe), lit u ''d'', Bnd],
      seqs [Bnd, lit u ''i'', Bnd]]"

definition ascii_letter :: rx where
  "ascii_letter = Cls (\<lambda>c. 97 \<le> c \<and> c \<le> 122 \<or> 65 \<le> c \<and> c \<le> 90)"

definition query_email_re :: "unidata \<Rightarrow> rx" where
  "query_email_re u = seqs [plus (word_or u ''.+-''), exactly ''@'', plus (word_or u ''-''), exactly ''.'',
     Rp ascii_letter 2 None]"

definition is_decimal :: "unidata \<Rightarrow> nat \<Rightarrow> bool" where "is_decimal u c \<longleftrightarrow> u_decimal u c \<noteq> None"

definition phone_re :: "unidata \<Rightarrow> rx" where
  "phone_re u = (let sep = Cls (\<lambda>c. one_of ''-.'' c \<or> u_space u c) in
     seqs [NotPrev (is_decimal u),
       opt (seqs [opt (exactly ''+''), Rp (digit u) 1 (Some 3), opt sep]),
       opt (exactly ''(''), Rp (digit u) 3 (Some 3), opt (exactly '')''), sep,
       Rp (digit u) 3 (Some 3), sep, Rp (digit u) 4 (Some 4), NotNext (is_decimal u)])"

definition found :: "unidata \<Rightarrow> rx \<Rightarrow> pystr \<Rightarrow> bool" where
  "found u r s \<longleftrightarrow> search (u_word u) s r \<noteq> None"

record policy_decision =
  pd_cacheable :: bool
  pd_reason :: "pystr option"

definition refused :: "pystr \<Rightarrow> policy_decision" where
  "refused why = \<lparr>pd_cacheable = False, pd_reason = Some why\<rparr>"

definition default_temperature_threshold :: jfloat where "default_temperature_threshold = Dec False 3 (- 1)"

definition exceeds :: "jfloat \<Rightarrow> jfloat \<Rightarrow> bool" where
  "exceeds x y \<longleftrightarrow> num_less (the (numval (JFloat y))) (the (numval (JFloat x)))"

text \<open>The context is an argument of the source that it does not use.\<close>

definition is_cacheable :: "unidata \<Rightarrow> pystr \<Rightarrow> cache_context \<Rightarrow> bool \<Rightarrow> jfloat \<Rightarrow> jfloat \<Rightarrow> policy_decision" where
  "is_cacheable u query ctx has_tools temperature temperature_threshold =
     (if has_tools then refused (S ''request has tool calls'')
      else if exceeds temperature temperature_threshold then
        refused (S ''temperature '' @ repr_float temperature @ S '' exceeds threshold '' @ repr_float temperature_threshold)
      else if found u (time_sensitive_re u) query then refused (S ''time-sensitive query'')
      else if found u (personal_re u) query then refused (S ''personal query'')
      else if found u (query_email_re u) query then refused (S ''query contains an email address'')
      else if found u (phone_re u) query then refused (S ''query contains a phone number'')
      else \<lparr>pd_cacheable = True, pd_reason = None\<rparr>)"

section \<open>Guards\<close>

definition number_tok_re :: "unidata \<Rightarrow> rx" where
  "number_tok_re u = seqs [digit u, star (Cls (\<lambda>c. is_decimal u c \<or> c = 44)), opt (exactly ''.''), star (digit u)]"

definition negation_re :: "unidata \<Rightarrow> rx" where
  "negation_re u = Al
     (seqs [Bnd, lits u [''not'', ''never'', ''no'', ''none'', ''nobody'', ''nothing'', ''neither'', ''nor'', ''without'',
        ''except'', ''cannot''], Bnd])
     (seqs [lit u (''n'' @ apostrophe @ ''t''), Bnd])"

definition word_re :: rx where
  "word_re = seqs [plus ascii_letter, opt (seqs [exactly apostrophe, plus ascii_letter])]"

definition pronoun_stopwords :: "pystr list" where
  "pronoun_stopwords = map S [''i'', ''i'' @ apostrophe @ ''m'', ''i'' @ apostrophe @ ''ve'', ''i'' @ apostrophe @ ''ll'',
     ''i'' @ apostrophe @ ''d'']"

definition the_direction_words :: "pystr list" where
  "the_direction_words = map S [''more'', ''less'', ''before'', ''after'', ''max'', ''maximum'', ''min'', ''minimum'',
     ''buy'', ''sell'', ''increase'', ''decrease'', ''greater'', ''smaller'', ''higher'', ''lower'', ''earliest'',
     ''latest'', ''oldest'', ''newest'', ''first'', ''last'', ''above'', ''below'', ''over'', ''under'', ''win'',
     ''lose'', ''gain'']"

definition numbers :: "unidata \<Rightarrow> pystr \<Rightarrow> pystr set" where
  "numbers u s = set (map (filter (\<lambda>c. c \<noteq> 44)) (findall (u_word u) s (number_tok_re u)))"

definition has_negation :: "unidata \<Rightarrow> pystr \<Rightarrow> bool" where
  "has_negation u s \<longleftrightarrow> found u (negation_re u) s"

definition ends_with :: "pystr \<Rightarrow> pystr \<Rightarrow> bool" where
  "ends_with s suffix \<longleftrightarrow> drop (length s - length suffix) s = suffix"

definition without_possessive :: "unidata \<Rightarrow> pystr \<Rightarrow> pystr" where
  "without_possessive u word =
     (if ends_with (u_lower u word) (S (apostrophe @ ''s'')) then take (length word - 2) word else word)"

definition proper_nouns :: "unidata \<Rightarrow> pystr \<Rightarrow> pystr set" where
  "proper_nouns u s = set (filter (\<lambda>w. u_lower u w \<notin> set pronoun_stopwords \<and> 65 \<le> hd w \<and> hd w \<le> 90)
     (map (without_possessive u) (tl (findall (u_word u) s word_re))))"

definition direction_words :: "unidata \<Rightarrow> pystr \<Rightarrow> pystr set" where
  "direction_words u s = set (map (u_lower u) (findall (u_word u) s word_re)) \<inter> set the_direction_words"

text \<open>\<open>f"{what} mismatch: {sorted(x)} vs {sorted(y)}"\<close>\<close>

definition mismatch :: "unidata \<Rightarrow> string \<Rightarrow> pystr set \<Rightarrow> pystr set \<Rightarrow> pystr option" where
  "mismatch u what x y =
     (let shown = (\<lambda>z. pyrepr (u_printable u) (JList (map JStr (sorted_list_of_set z)))) in
      if x \<noteq> y then Some (S what @ S '' mismatch: '' @ shown x @ S '' vs '' @ shown y) else None)"

definition guard_numbers :: "unidata \<Rightarrow> pystr \<Rightarrow> pystr \<Rightarrow> pystr option" where
  "guard_numbers u a b = mismatch u ''number'' (numbers u a) (numbers u b)"

definition guard_negation :: "unidata \<Rightarrow> pystr \<Rightarrow> pystr \<Rightarrow> pystr option" where
  "guard_negation u a b =
     (if has_negation u a \<noteq> has_negation u b then Some (S ''negation present on only one side'') else None)"

definition guard_entities :: "unidata \<Rightarrow> pystr \<Rightarrow> pystr \<Rightarrow> pystr option" where
  "guard_entities u a b = mismatch u ''entity'' (proper_nouns u a) (proper_nouns u b)"

definition guard_direction :: "unidata \<Rightarrow> pystr \<Rightarrow> pystr \<Rightarrow> pystr option" where
  "guard_direction u a b = mismatch u ''direction'' (direction_words u a) (direction_words u b)"

definition guards :: "unidata \<Rightarrow> (pystr \<times> (pystr \<Rightarrow> pystr \<Rightarrow> pystr option)) list" where
  "guards u = [(S ''numbers'', guard_numbers u), (S ''negation'', guard_negation u),
     (S ''entities'', guard_entities u), (S ''direction'', guard_direction u)]"

record guard_result =
  gd_name :: pystr
  gd_passed :: bool
  gd_reason :: "pystr option"

definition run_guards :: "unidata \<Rightarrow> pystr \<Rightarrow> pystr \<Rightarrow> guard_result list" where
  "run_guards u a b = map (\<lambda>(name, fn). \<lparr>gd_name = name, gd_passed = (fn a b = None), gd_reason = fn a b\<rparr>) (guards u)"

fun failing :: "pystr \<Rightarrow> pystr \<Rightarrow> (pystr \<times> (pystr \<Rightarrow> pystr \<Rightarrow> pystr option)) list \<Rightarrow> (pystr \<times> pystr) option" where
  "failing a b [] = None"
| "failing a b ((name, fn) # rest) = (case fn a b of Some why \<Rightarrow> Some (name, why) | None \<Rightarrow> failing a b rest)"

definition first_failure :: "unidata \<Rightarrow> pystr \<Rightarrow> pystr \<Rightarrow> (pystr \<times> pystr) option" where
  "first_failure u a b = failing a b (guards u)"

section \<open>What the guards compare\<close>

text \<open>A pair passes exactly when the two queries have the same numbers, polarity, names and
  directions: the guards are an equivalence.\<close>

definition same_facts :: "unidata \<Rightarrow> pystr \<Rightarrow> pystr \<Rightarrow> bool" where
  "same_facts u a b \<longleftrightarrow> numbers u a = numbers u b \<and> has_negation u a = has_negation u b
     \<and> proper_nouns u a = proper_nouns u b \<and> direction_words u a = direction_words u b"

lemma first_failure_None: "first_failure u a b = None \<longleftrightarrow> same_facts u a b"
  by (auto simp: first_failure_def guards_def same_facts_def guard_numbers_def guard_negation_def guard_entities_def
      guard_direction_def mismatch_def Let_def)

lemma run_guards_passed: "list_all gd_passed (run_guards u a b) \<longleftrightarrow> first_failure u a b = None"
  by (auto simp: run_guards_def guards_def first_failure_def split: option.split)

lemma guards_symmetric: "map_option fst (first_failure u a b) = map_option fst (first_failure u b a)"
  by (auto simp: first_failure_def guards_def guard_numbers_def guard_negation_def guard_entities_def
      guard_direction_def mismatch_def Let_def)

text \<open>The patterns are in the fragment for which the matcher is complete.\<close>

lemma policy_patterns_wf:
  "wf_rx (time_sensitive_re u)" "wf_rx (personal_re u)" "wf_rx (query_email_re u)" "wf_rx (phone_re u)"
  "wf_rx (number_tok_re u)" "wf_rx (negation_re u)" "wf_rx word_re"
  by (simp_all add: time_sensitive_re_def personal_re_def query_email_re_def phone_re_def number_tok_re_def
      negation_re_def word_re_def exactly_def ascii_letter_def digit_def wf_alts Let_def)

end
