(* ===== verification/Vector_Index.thy ===== *)
theory Vector_Index
  imports Json "HOL-Library.Multiset"
begin

text \<open>
  The similarity index (\<open>semantic_cache/index.py\<close>) and the hashing embedder
  (\<open>embedders.py\<close>). numpy is a third-party package: its \<open>argpartition\<close> and \<open>argsort\<close> are
  parameters with what they are documented to do; sums, products and square roots of
  \<open>float64\<close> are taken in the reals. A vector is a list of floats, so that infinities and NaN
  can be refused.
\<close>

type_synonym vec = "flt list"

fun fin_val :: "flt \<Rightarrow> real" where
  "fin_val (Fin x) = x" | "fin_val _ = 0"

definition all_finite :: "vec \<Rightarrow> bool" where
  "all_finite v \<longleftrightarrow> list_all flt_isfinite v"

definition dot :: "real list \<Rightarrow> real list \<Rightarrow> real" where
  "dot x y = sum_list (map2 (*) x y)"

record numpy =
  np_argpartition :: "real list \<Rightarrow> nat \<Rightarrow> nat list"
  np_argsort :: "real list \<Rightarrow> nat list"

text \<open>Both return every index once; \<open>argsort\<close> in the order of the values, \<open>argpartition\<close> with the
  element that belongs at position \<open>p\<close> in its place, none larger before and none smaller behind.\<close>

definition numpy_ok :: "numpy \<Rightarrow> bool" where
  "numpy_ok np \<longleftrightarrow>
     (\<forall>xs. mset (np_argsort np xs) = mset [0..<length xs] \<and> sorted (map (\<lambda>i. xs ! i) (np_argsort np xs))) \<and>
     (\<forall>xs p. p < length xs \<longrightarrow> mset (np_argpartition np xs p) = mset [0..<length xs] \<and>
        (\<forall>i < length xs. \<forall>j < length xs. i \<le> p \<longrightarrow> p \<le> j \<longrightarrow>
           xs ! (np_argpartition np xs p ! i) \<le> xs ! (np_argpartition np xs p ! j)))"

section \<open>The index\<close>

record numpy_index =
  ni_dim :: nat
  ni_ids :: "pystr list"
  ni_matrix :: "real list list"

definition index_init :: "nat \<Rightarrow> numpy_index" where
  "index_init nd = \<lparr>ni_dim = nd, ni_ids = [], ni_matrix = []\<rparr>"

text \<open>The position of the first occurrence, as \<open>list.index\<close>.\<close>

fun position :: "'a \<Rightarrow> 'a list \<Rightarrow> nat option" where
  "position x [] = None"
| "position x (y # ys) = (if y = x then Some 0 else map_option Suc (position x ys))"

definition without :: "nat \<Rightarrow> 'a list \<Rightarrow> 'a list" where
  "without i xs = take i xs @ drop (Suc i) xs"

definition index_remove :: "numpy_index \<Rightarrow> pystr \<Rightarrow> numpy_index" where
  "index_remove ix entry_id =
     (case position entry_id (ni_ids ix) of
        None \<Rightarrow> ix
      | Some i \<Rightarrow> ix\<lparr>ni_ids := without i (ni_ids ix), ni_matrix := without i (ni_matrix ix)\<rparr>)"

definition index_add :: "numpy_index \<Rightarrow> pystr \<Rightarrow> vec \<Rightarrow> pyexc + numpy_index" where
  "index_add ix entry_id v =
     (if length v \<noteq> ni_dim ix then Inl ValueError
      else if \<not> all_finite v then Inl ValueError
      else let ix1 = (if entry_id \<in> set (ni_ids ix) then index_remove ix entry_id else ix) in
        Inr (ix1\<lparr>ni_ids := ni_ids ix1 @ [entry_id], ni_matrix := ni_matrix ix1 @ [map fin_val v]\<rparr>))"

definition top_indices :: "numpy \<Rightarrow> real list \<Rightarrow> nat \<Rightarrow> nat list" where
  "top_indices np scores k =
     (let top = take k (np_argpartition np (map uminus scores) (k - 1)) in
      map (\<lambda>j. top ! j) (np_argsort np (map (\<lambda>i. - (scores ! i)) top)))"

definition index_search :: "numpy \<Rightarrow> numpy_index \<Rightarrow> vec \<Rightarrow> int \<Rightarrow> pyexc + (pystr \<times> real) list" where
  "index_search np ix v k =
     (if ni_ids ix = [] \<or> k \<le> 0 then Inr []
      else if length v \<noteq> ni_dim ix \<or> \<not> all_finite v then Inl ValueError
      else let scores = map (\<lambda>row. dot row (map fin_val v)) (ni_matrix ix) in
        Inr (map (\<lambda>i. (ni_ids ix ! i, scores ! i))
          (top_indices np scores (min (nat k) (length (ni_ids ix))))))"

definition index_len :: "numpy_index \<Rightarrow> nat" where "index_len ix = length (ni_ids ix)"

section \<open>The hashing embedder\<close>

definition token_char :: "nat \<Rightarrow> bool" where
  "token_char c \<longleftrightarrow> 97 \<le> c \<and> c \<le> 122 \<or> 48 \<le> c \<and> c \<le> 57"

text \<open>\<open>[a-z0-9]+\<close>, \<open>findall\<close>: the maximal runs.\<close>

fun token_runs :: "pystr \<Rightarrow> pystr \<Rightarrow> pystr list" where
  "token_runs cur [] = (if cur = [] then [] else [cur])"
| "token_runs cur (c # s) =
     (if token_char c then token_runs (cur @ [c]) s
      else (if cur = [] then [] else [cur]) @ token_runs [] s)"

text \<open>\<open>digest\<close> gives the 32 bytes of SHA-256.\<close>

definition token_bucket :: "(nat list \<Rightarrow> nat list) \<Rightarrow> nat \<Rightarrow> pystr \<Rightarrow> nat" where
  "token_bucket digest nd tok = foldl (\<lambda>n b. 256 * n + b) 0 (take 4 (digest (utf8 tok))) mod nd"

definition token_sign :: "(nat list \<Rightarrow> nat list) \<Rightarrow> pystr \<Rightarrow> real" where
  "token_sign digest tok = (if even (digest (utf8 tok) ! 4) then 1 else - 1)"

definition count_vector :: "(nat list \<Rightarrow> nat list) \<Rightarrow> nat \<Rightarrow> pystr list \<Rightarrow> real list" where
  "count_vector digest nd toks =
     fold (\<lambda>tok v. v[token_bucket digest nd tok := v ! token_bucket digest nd tok + token_sign digest tok])
       toks (replicate nd 0)"

definition norm2 :: "real list \<Rightarrow> real" where "norm2 v = sqrt (dot v v)"

definition hashing_embed :: "unidata \<Rightarrow> (nat list \<Rightarrow> nat list) \<Rightarrow> nat \<Rightarrow> pystr \<Rightarrow> vec" where
  "hashing_embed u digest nd tx =
     (let v = count_vector digest nd (token_runs [] (u_lower u tx));
          n = (if norm2 v = 0 then 1 else norm2 v)
      in map (\<lambda>x. Fin (x / n)) v)"

definition hashing_init :: "int \<Rightarrow> pyexc + nat" where
  "hashing_init nd = (if nd < 1 then Inl ValueError else Inr (nat nd))"

section \<open>Laws of the index\<close>

lemma position_None: "position x xs = None \<longleftrightarrow> x \<notin> set xs"
  by (induction xs) auto

lemma position_Some: "position x xs = Some i \<Longrightarrow> i < length xs \<and> xs ! i = x"
  by (induction xs arbitrary: i) (auto split: if_splits)

lemma set_without: "distinct xs \<Longrightarrow> i < length xs \<Longrightarrow> set (without i xs) = set xs - {xs ! i} \<and> distinct (without i xs)"
proof (induction xs arbitrary: i)
  case (Cons x xs)
  then show ?case by (cases i) (auto simp: without_def)
qed simp

lemma length_without: "i < length xs \<Longrightarrow> length (without i xs) = length xs - 1"
  by (simp add: without_def)

text \<open>Identifiers are distinct, every row has an identifier, the length of the space and finite entries.\<close>

definition index_ok :: "numpy_index \<Rightarrow> bool" where
  "index_ok ix \<longleftrightarrow> distinct (ni_ids ix) \<and> length (ni_matrix ix) = length (ni_ids ix)
     \<and> list_all (\<lambda>row. length row = ni_dim ix) (ni_matrix ix)"

lemma index_init_ok: "index_ok (index_init d)" "ni_ids (index_init d) = []"
  by (simp_all add: index_ok_def index_init_def)

lemma set_without_subset: "set (without i xs) \<subseteq> set xs"
  by (auto simp: without_def dest: in_set_takeD in_set_dropD)

lemma index_remove_ok:
  assumes "index_ok ix"
  shows "index_ok (index_remove ix x)" "set (ni_ids (index_remove ix x)) = set (ni_ids ix) - {x}"
proof -
  have "index_ok (index_remove ix x) \<and> set (ni_ids (index_remove ix x)) = set (ni_ids ix) - {x}"
  proof (cases "position x (ni_ids ix)")
    case None
    then have "x \<notin> set (ni_ids ix)" by (simp add: position_None)
    with assms show ?thesis by (simp add: index_remove_def None)
  next
    case (Some i)
    from position_Some[OF this] assms set_without[of "ni_ids ix" i] set_without_subset[of i "ni_matrix ix"] show ?thesis
      by (auto simp: index_remove_def Some index_ok_def length_without list_all_iff)
  qed
  then show "index_ok (index_remove ix x)" "set (ni_ids (index_remove ix x)) = set (ni_ids ix) - {x}" by blast+
qed

lemma dim_remove [simp]: "ni_dim (index_remove ix x) = ni_dim ix"
  by (simp add: index_remove_def split: option.split)

lemma index_add_ok:
  assumes "index_add ix x v = Inr ix'" "index_ok ix"
  shows "index_ok ix'" "set (ni_ids ix') = insert x (set (ni_ids ix))" "ni_dim ix' = ni_dim ix"
proof -
  let ?i = "if x \<in> set (ni_ids ix) then index_remove ix x else ix"
  have i: "index_ok ?i" "x \<notin> set (ni_ids ?i)" "insert x (set (ni_ids ?i)) = insert x (set (ni_ids ix))" "ni_dim ?i = ni_dim ix"
    using index_remove_ok[OF assms(2), of x] assms(2) by auto
  have v: "length v = ni_dim ix" and e: "ix' = ?i\<lparr>ni_ids := ni_ids ?i @ [x], ni_matrix := ni_matrix ?i @ [map fin_val v]\<rparr>"
    using assms(1) by (auto simp: index_add_def Let_def split: if_splits)
  show "index_ok ix'" "set (ni_ids ix') = insert x (set (ni_ids ix))" "ni_dim ix' = ni_dim ix"
    unfolding e using i v by (simp_all add: index_ok_def del: if_split)
qed

section \<open>The search is exact\<close>

lemma mset_upt: "mset xs = mset [0..<n] \<Longrightarrow> length xs = n \<and> distinct xs \<and> set xs = {..<n}"
  by (metis atLeast_upt distinct_upt length_upt minus_nat.diff_0 mset_eq_imp_distinct_iff set_mset_mset size_mset)

lemma top_indices_ok:
  assumes np: "numpy_ok np" and k: "0 < k" "k \<le> length xs"
  shows "length (top_indices np xs k) = k" "distinct (top_indices np xs k)" "set (top_indices np xs k) \<subseteq> {..<length xs}"
    and "sorted_wrt (\<lambda>i j. xs ! j \<le> xs ! i) (top_indices np xs k)"
    and "\<And>i j. i \<in> set (top_indices np xs k) \<Longrightarrow> j < length xs \<Longrightarrow> j \<notin> set (top_indices np xs k) \<Longrightarrow> xs ! j \<le> xs ! i"
proof -
  define P where "P = np_argpartition np (map uminus xs) (k - 1)"
  define top where "top = take k P"
  define ys where "ys = map (\<lambda>i. - (xs ! i)) top"
  define A where "A = np_argsort np ys"
  have e: "top_indices np xs k = map (\<lambda>j. top ! j) A" by (simp add: top_indices_def Let_def A_def ys_def top_def P_def)
  have mP: "mset P = mset [0..<length xs]"
    and part: "\<forall>i < length (map uminus xs). \<forall>j < length (map uminus xs). i \<le> k - 1 \<longrightarrow> k - 1 \<le> j \<longrightarrow>
      map uminus xs ! (P ! i) \<le> map uminus xs ! (P ! j)"
    using np k by (auto simp: numpy_ok_def P_def)
  then have P: "length P = length xs" "distinct P" "set P = {..<length xs}" using mset_upt[OF mP] by blast+
  have top: "length top = k" "distinct top" "set top \<subseteq> {..<length xs}"
    using P k by (auto simp: top_def dest: in_set_takeD)
  have mA: "mset A = mset [0..<length ys]" and srt: "sorted (map (\<lambda>i. ys ! i) A)" using np by (auto simp: numpy_ok_def A_def)
  have A: "length A = k" "distinct A" "set A = {..<k}" using mset_upt[OF mA] top(1) by (auto simp: ys_def)
  show "length (top_indices np xs k) = k" by (simp add: e A)
  show "distinct (top_indices np xs k)"
    unfolding e distinct_map using A top by (auto simp: inj_on_def nth_eq_iff_index_eq)
  have set_top: "set (top_indices np xs k) = set top"
    unfolding e set_map A(3) lessThan_atLeast0 using nth_image[of k top] top(1) by simp
  show "set (top_indices np xs k) \<subseteq> {..<length xs}" using set_top top(3) by simp
  have "map (\<lambda>i. ys ! i) A = map (\<lambda>j. - (xs ! (top ! j))) A"
    using A top(1) by (intro map_cong) (auto simp: ys_def)
  with srt have "sorted_wrt (\<lambda>i j. - (xs ! (top ! i)) \<le> - (xs ! (top ! j))) A" by (simp add: sorted_map)
  then show "sorted_wrt (\<lambda>i j. xs ! j \<le> xs ! i) (top_indices np xs k)" by (simp add: e sorted_wrt_map)
  fix i j
  assume i: "i \<in> set (top_indices np xs k)" and j: "j < length xs" "j \<notin> set (top_indices np xs k)"
  obtain a where a: "a < k" "i = P ! a" using i set_top top(1) P(1) k by (auto simp: in_set_conv_nth top_def)
  obtain b where b: "b < length xs" "j = P ! b" using j(1) P by (metis in_set_conv_nth lessThan_iff)
  have "k \<le> b"
  proof (rule ccontr)
    assume "\<not> k \<le> b"
    then have "b < length top" using top(1) by simp
    then have "top ! b \<in> set top" by (rule nth_mem)
    moreover have "top ! b = j" using \<open>\<not> k \<le> b\<close> b(2) by (simp add: top_def)
    ultimately have "j \<in> set top" by simp
    with j(2) set_top show False by simp
  qed
  moreover have "i < length xs" using a P k by (metis lessThan_iff nth_mem order_less_le_trans)
  ultimately have "map uminus xs ! i \<le> map uminus xs ! j"
    using part[rule_format, of a b] a b k by simp
  then show "xs ! j \<le> xs ! i" using \<open>i < length xs\<close> j(1) by simp
qed

text \<open>The score of an identifier: the inner product of its row with the query.\<close>

definition score_of :: "numpy_index \<Rightarrow> vec \<Rightarrow> pystr \<Rightarrow> real" where
  "score_of ix v x = (case position x (ni_ids ix) of Some i \<Rightarrow> dot (ni_matrix ix ! i) (map fin_val v) | None \<Rightarrow> 0)"

lemma position_nth: "distinct xs \<Longrightarrow> i < length xs \<Longrightarrow> position (xs ! i) xs = Some i"
proof (induction xs arbitrary: i)
  case (Cons x xs)
  then show ?case by (cases i) auto
qed simp

lemma search_top_k:
  assumes np: "numpy_ok np" and ix: "index_ok ix" and res: "index_search np ix v k = Inr res"
  shows "length res = min (nat k) (length (ni_ids ix))" "distinct (map fst res)" "set (map fst res) \<subseteq> set (ni_ids ix)"
    and "\<forall>(x, s) \<in> set res. s = score_of ix v x" "sorted_wrt (\<ge>) (map snd res)"
    and "\<forall>(x, s) \<in> set res. \<forall>y \<in> set (ni_ids ix) - set (map fst res). score_of ix v y \<le> s"
proof -
  let ?n = "length (ni_ids ix)" and ?k = "min (nat k) (length (ni_ids ix))"
  have "(length res = ?k \<and> distinct (map fst res) \<and> set (map fst res) \<subseteq> set (ni_ids ix))
    \<and> (\<forall>(x, s) \<in> set res. s = score_of ix v x) \<and> sorted_wrt (\<ge>) (map snd res)
    \<and> (\<forall>(x, s) \<in> set res. \<forall>y \<in> set (ni_ids ix) - set (map fst res). score_of ix v y \<le> s)"
  proof (cases "ni_ids ix = [] \<or> k \<le> 0")
    case True
    with res show ?thesis by (auto simp: index_search_def)
  next
    case False
    define xs where "xs = map (\<lambda>row. dot row (map fin_val v)) (ni_matrix ix)"
    define T where "T = top_indices np xs ?k"
    have res': "res = map (\<lambda>i. (ni_ids ix ! i, xs ! i)) T"
      using res False by (auto simp: index_search_def Let_def xs_def T_def split: if_splits)
    have len: "length xs = ?n" using ix by (simp add: xs_def index_ok_def)
    have kk: "0 < ?k" "?k \<le> length xs" using False len by auto
    note t = top_indices_ok[OF np kk, folded T_def]
    have ids: "distinct (ni_ids ix)" using ix by (simp add: index_ok_def)
    have sc: "score_of ix v (ni_ids ix ! i) = xs ! i" if "i < ?n" for i
      using that position_nth[OF ids that] len by (simp add: score_of_def xs_def)
    have T: "i < ?n" if "i \<in> set T" for i using t(3) that len by auto
    have fst_res: "map fst res = map (\<lambda>i. ni_ids ix ! i) T" "map snd res = map (\<lambda>i. xs ! i) T"
      by (simp_all add: res')
    have "distinct (map fst res)"
      unfolding fst_res distinct_map using t(2) T ids by (auto simp: inj_on_def nth_eq_iff_index_eq)
    moreover have "set (map fst res) \<subseteq> set (ni_ids ix)" unfolding fst_res using T by auto
    moreover have "\<forall>(x, s) \<in> set res. s = score_of ix v x" using sc T by (auto simp: res')
    moreover have "sorted_wrt (\<ge>) (map snd res)" unfolding fst_res sorted_wrt_map using t(4) by simp
    moreover have "score_of ix v y \<le> s" if m: "(x, s) \<in> set res" "y \<in> set (ni_ids ix)" "y \<notin> set (map fst res)" for x s y
    proof -
      obtain i where i: "i \<in> set T" "s = xs ! i" using m(1) by (auto simp: res')
      obtain j where j: "j < ?n" "y = ni_ids ix ! j" using m(2) by (auto simp: in_set_conv_nth)
      have "j \<notin> set T" using m(3) j(2) unfolding fst_res by auto
      from t(5)[OF i(1) _ this] j len sc[OF j(1)] i(2) show ?thesis by simp
    qed
    moreover have "length res = ?k" using t(1) by (simp add: res')
    ultimately show ?thesis by blast
  qed
  then show "length res = ?k" "distinct (map fst res)" "set (map fst res) \<subseteq> set (ni_ids ix)"
    "\<forall>(x, s) \<in> set res. s = score_of ix v x" "sorted_wrt (\<ge>) (map snd res)"
    "\<forall>(x, s) \<in> set res. \<forall>y \<in> set (ni_ids ix) - set (map fst res). score_of ix v y \<le> s" by blast+
qed

end
