(* ===== verification/Semantic_Cache.thy ===== *)
theory Semantic_Cache
  imports Guards Vector_Index
begin

text \<open>
  The semantic cache (\<open>semantic_cache/cache.py\<close>): policy, partition, exact match, vector search,
  threshold, guards, verifier, in the order of the code; storing, invalidation, feedback and
  their metrics. The embedder, the verifier, SHA-256 and the clock are the configuration; the
  clock is read once for every call of it in the source. The vector index is any type with the
  four operations the cache uses. A response is a JSON value. The locks are left out: the
  operations here are those of one thread.
\<close>

section \<open>The interfaces\<close>

record 'i index_ops =
  io_new :: "nat \<Rightarrow> 'i"
  io_add :: "'i \<Rightarrow> pystr \<Rightarrow> vec \<Rightarrow> pyexc + 'i"
  io_search :: "'i \<Rightarrow> vec \<Rightarrow> int \<Rightarrow> pyexc + (pystr \<times> real) list"
  io_remove :: "'i \<Rightarrow> pystr \<Rightarrow> 'i"

definition numpy_ops :: "numpy \<Rightarrow> numpy_index index_ops" where
  "numpy_ops np = \<lparr>io_new = index_init, io_add = index_add, io_search = index_search np, io_remove = index_remove\<rparr>"

text \<open>\<open>NoopVerifier\<close> and \<open>LLMJudgeVerifier\<close>.\<close>

definition noop_same_intent :: "pystr \<Rightarrow> pystr \<Rightarrow> pyexc + bool" where
  "noop_same_intent a b = Inr False"

definition judge_same_intent :: "(pystr \<Rightarrow> pystr \<Rightarrow> pyexc + bool) \<Rightarrow> pystr \<Rightarrow> pystr \<Rightarrow> pyexc + bool" where
  "judge_same_intent judge_fn a b = judge_fn a b"

record 'i config =
  cf_data :: unidata
  cf_sha :: "nat list \<Rightarrow> pystr"
  cf_clock :: "nat \<Rightarrow> real"
  cf_embed :: "pystr \<Rightarrow> pyexc + vec"
  cf_dim :: nat
  cf_model_id :: pystr
  cf_ops :: "'i index_ops"
  cf_same_intent :: "pystr \<Rightarrow> pystr \<Rightarrow> pyexc + bool"
  cf_tau_hit :: flt
  cf_tau_verify :: flt
  cf_top_k :: int
  cf_capacity :: int
  cf_default_ttl :: "flt option"
  cf_mode :: pystr
  cf_shadow_log_capacity :: int

definition flt_less :: "flt \<Rightarrow> flt \<Rightarrow> bool" where
  "flt_less x y \<longleftrightarrow> flt_le x y \<and> \<not> flt_le y x"

section \<open>State\<close>

type_synonym partition_key = "pystr \<times> pystr \<times> pystr \<times> pystr \<times> pystr"

record entry =
  en_id :: pystr
  en_query :: pystr
  en_hash :: pystr
  en_response :: json
  en_ctx :: cache_context
  en_created_at :: real
  en_expires_at :: "real option"
  en_good_feedback :: nat
  en_bad_feedback :: nat

datatype lookup_result =
    Hit (hit_response: json) (hit_score: real) (hit_query: pystr) (hit_reason: pystr) (hit_entry: pystr)
  | Miss (miss_reason: pystr) (miss_score: "real option")

record shadow_log_entry =
  sl_at :: real
  sl_query :: pystr
  sl_ctx :: cache_context
  sl_would_be :: lookup_result

type_synonym counter = "(pystr \<times> nat) list"

record metrics =
  mx_hits_exact :: nat
  mx_hits_semantic :: nat
  mx_misses :: counter
  mx_guard_rejections :: counter
  mx_verifier_calls :: nat
  mx_capacity_evictions :: nat
  mx_ttl_expirations :: nat
  mx_bad_feedback_evictions :: nat
  mx_store_rejections :: counter
  mx_shadow_would_hit :: nat
  mx_shadow_would_miss :: nat

record 'i partition =
  pt_key :: partition_key
  pt_entries :: "(pystr \<times> entry) list"
  pt_order :: "pystr list"
  pt_exact :: "(pystr \<times> pystr) list"
  pt_index :: 'i

record 'i cache =
  sc_partitions :: "(partition_key \<times> 'i partition) list"
  sc_entry_partition :: "(pystr \<times> partition_key) list"
  sc_next_id :: nat
  sc_metrics :: metrics
  sc_shadow_log :: "shadow_log_entry list"
  sc_ticks :: nat

type_synonym ('i, 'a) cache_op = "'i cache \<Rightarrow> (pyexc + 'a) \<times> 'i cache"

definition bump :: "pystr \<Rightarrow> counter \<Rightarrow> counter" where
  "bump k c = AList.update k (Suc (case map_of c k of Some n \<Rightarrow> n | None \<Rightarrow> 0)) c"

definition metric :: "(metrics \<Rightarrow> metrics) \<Rightarrow> ('i, unit) cache_op" where
  "metric f = modifyS (\<lambda>st. st\<lparr>sc_metrics := f (sc_metrics st)\<rparr>)"

definition count_miss :: "pystr \<Rightarrow> ('i, unit) cache_op" where
  "count_miss why = metric (\<lambda>m. m\<lparr>mx_misses := bump why (mx_misses m)\<rparr>)"

section \<open>Construction\<close>

definition validate_ttl :: "flt option \<Rightarrow> pyexc + unit" where
  "validate_ttl ttl = (case ttl of
     None \<Rightarrow> Inr ()
   | Some t \<Rightarrow> if \<not> flt_isfinite t \<or> flt_le t (Fin 0) then Inl ValueError else Inr ())"

definition empty_metrics :: metrics where
  "empty_metrics = \<lparr>mx_hits_exact = 0, mx_hits_semantic = 0, mx_misses = [], mx_guard_rejections = [],
     mx_verifier_calls = 0, mx_capacity_evictions = 0, mx_ttl_expirations = 0, mx_bad_feedback_evictions = 0,
     mx_store_rejections = [], mx_shadow_would_hit = 0, mx_shadow_would_miss = 0\<rparr>"

definition cache_init :: "'i config \<Rightarrow> pyexc + 'i cache" where
  "cache_init C =
     (if \<not> (flt_le (Fin 0) (cf_tau_verify C) \<and> flt_le (cf_tau_verify C) (cf_tau_hit C)
            \<and> flt_le (cf_tau_hit C) (Fin (1 + 1 / 10 ^ 9))) then Inl ValueError
      else if cf_capacity C < 1 then Inl ValueError
      else if cf_top_k C < 1 then Inl ValueError
      else if cf_mode C \<notin> {S ''serve'', S ''shadow''} then Inl ValueError
      else if cf_shadow_log_capacity C < 1 then Inl ValueError
      else bindE (validate_ttl (cf_default_ttl C)) (\<lambda>_. Inr
        \<lparr>sc_partitions = [], sc_entry_partition = [], sc_next_id = 1, sc_metrics = empty_metrics,
         sc_shadow_log = [], sc_ticks = 0\<rparr>))"

section \<open>Partitions and entries\<close>

definition partition_key_for :: "'i config \<Rightarrow> cache_context \<Rightarrow> partition_key" where
  "partition_key_for C ctx =
     (cx_tenant ctx, cx_model ctx, cx_system_prompt_hash ctx, cx_params_hash ctx, cf_model_id C)"

definition new_partition :: "'i config \<Rightarrow> partition_key \<Rightarrow> 'i partition" where
  "new_partition C key =
     \<lparr>pt_key = key, pt_entries = [], pt_order = [], pt_exact = [], pt_index = io_new (cf_ops C) (cf_dim C)\<rparr>"

definition get_or_create_partition :: "'i config \<Rightarrow> partition_key \<Rightarrow> ('i, unit) cache_op" where
  "get_or_create_partition C key =
     modifyS (\<lambda>st. if map_of (sc_partitions st) key \<noteq> None then st
       else st\<lparr>sc_partitions := AList.update key (new_partition C key) (sc_partitions st)\<rparr>)"

text \<open>Reading and changing the partition object that is at hand.\<close>

definition at_part :: "partition_key \<Rightarrow> ('i partition \<Rightarrow> 'a) \<Rightarrow> ('i, 'a) cache_op" where
  "at_part key f = bindS (getS (\<lambda>st. map_of (sc_partitions st) key)) (\<lambda>p.
     liftS (case p of Some q \<Rightarrow> Inr (f q) | None \<Rightarrow> Inl KeyError))"

definition set_part :: "partition_key \<Rightarrow> ('i partition \<Rightarrow> 'i partition) \<Rightarrow> ('i, unit) cache_op" where
  "set_part key f = modifyS (\<lambda>st. case map_of (sc_partitions st) key of
     Some p \<Rightarrow> st\<lparr>sc_partitions := AList.update key (f p) (sc_partitions st)\<rparr> | None \<Rightarrow> st)"

definition moved_to_end :: "pystr \<Rightarrow> pystr list \<Rightarrow> pystr list" where
  "moved_to_end x xs = filter (\<lambda>y. y \<noteq> x) xs @ [x]"

definition touch :: "partition_key \<Rightarrow> pystr \<Rightarrow> ('i, unit) cache_op" where
  "touch key entry_id =
     bindS (at_part key (\<lambda>p. entry_id \<in> set (pt_order p))) (\<lambda>known.
       if known then set_part key (\<lambda>p. p\<lparr>pt_order := moved_to_end entry_id (pt_order p)\<rparr>)
       else raiseS KeyError)"

definition now :: "'i config \<Rightarrow> ('i, real) cache_op" where
  "now C st = (Inr (cf_clock C (sc_ticks st)), st\<lparr>sc_ticks := Suc (sc_ticks st)\<rparr>)"

definition is_expired :: "'i config \<Rightarrow> entry \<Rightarrow> ('i, bool) cache_op" where
  "is_expired C e = (case en_expires_at e of
     None \<Rightarrow> returnS False | Some x \<Rightarrow> bindS (now C) (\<lambda>t. returnS (x \<le> t)))"

text \<open>The partition without the entry: \<open>_remove_entry\<close> on the partition.\<close>

definition drop_entry :: "'i config \<Rightarrow> pystr \<Rightarrow> 'i partition \<Rightarrow> 'i partition" where
  "drop_entry C entry_id p =
     p\<lparr>pt_entries := AList.delete entry_id (pt_entries p),
       pt_order := filter (\<lambda>x. x \<noteq> entry_id) (pt_order p),
       pt_exact := (case map_of (pt_entries p) entry_id of
           Some e \<Rightarrow> if map_of (pt_exact p) (en_hash e) = Some entry_id
                     then AList.delete (en_hash e) (pt_exact p) else pt_exact p
         | None \<Rightarrow> pt_exact p),
       pt_index := io_remove (cf_ops C) (pt_index p) entry_id\<rparr>"

definition remove_entry :: "'i config \<Rightarrow> partition_key \<Rightarrow> pystr \<Rightarrow> ('i, entry option) cache_op" where
  "remove_entry C key entry_id =
     bindS (at_part key (\<lambda>p. map_of (pt_entries p) entry_id)) (\<lambda>e.
     bindS (set_part key (drop_entry C entry_id)) (\<lambda>_.
     bindS (modifyS (\<lambda>st. st\<lparr>sc_entry_partition := AList.delete entry_id (sc_entry_partition st)\<rparr>)) (\<lambda>_.
     returnS e)))"

definition purge_expired :: "'i config \<Rightarrow> partition_key \<Rightarrow> pystr \<Rightarrow> ('i, unit) cache_op" where
  "purge_expired C key entry_id =
     bindS (remove_entry C key entry_id) (\<lambda>e.
       if e \<noteq> None then metric (\<lambda>m. m\<lparr>mx_ttl_expirations := Suc (mx_ttl_expirations m)\<rparr>) else returnS ())"

definition evict_lru :: "'i config \<Rightarrow> partition_key \<Rightarrow> ('i, unit) cache_op" where
  "evict_lru C key =
     bindS (at_part key pt_order) (\<lambda>order. case order of
       [] \<Rightarrow> returnS ()
     | lru_id # _ \<Rightarrow>
         bindS (remove_entry C key lru_id) (\<lambda>e.
           if e \<noteq> None then metric (\<lambda>m. m\<lparr>mx_capacity_evictions := Suc (mx_capacity_evictions m)\<rparr>) else returnS ()))"

section \<open>Lookup\<close>

definition exact_hash :: "'i config \<Rightarrow> pystr \<Rightarrow> pyexc + pystr" where
  "exact_hash C query = (if list_ex is_surrogate query then Inl ValueError else Inr (cf_sha C (utf8 query)))"

definition cacheable :: "'i config \<Rightarrow> pystr \<Rightarrow> cache_context \<Rightarrow> bool \<Rightarrow> jfloat \<Rightarrow> policy_decision" where
  "cacheable C query ctx has_tools temperature =
     is_cacheable (cf_data C) query ctx has_tools temperature default_temperature_threshold"

definition reason_or_default :: "policy_decision \<Rightarrow> pystr" where
  "reason_or_default d = (case pd_reason d of Some why \<Rightarrow> if why = [] then S ''not_cacheable'' else why
     | None \<Rightarrow> S ''not_cacheable'')"

text \<open>The best candidate that is alive; expired ones are purged on the way.\<close>

fun first_live :: "'i config \<Rightarrow> partition_key \<Rightarrow> (pystr \<times> real) list \<Rightarrow> ('i, (pystr \<times> real) option) cache_op" where
  "first_live C key [] = returnS None"
| "first_live C key ((cand_id, score) # rest) =
     bindS (at_part key (\<lambda>p. map_of (pt_entries p) cand_id)) (\<lambda>e. case e of
       None \<Rightarrow> first_live C key rest
     | Some en \<Rightarrow> bindS (is_expired C en) (\<lambda>expired.
         if expired then bindS (purge_expired C key cand_id) (\<lambda>_. first_live C key rest)
         else returnS (Some (cand_id, score))))"

definition serve_hit :: "partition_key \<Rightarrow> entry \<Rightarrow> pystr \<Rightarrow> real \<Rightarrow> string \<Rightarrow> ('i, lookup_result) cache_op" where
  "serve_hit key e cand_id score why =
     bindS (touch key cand_id) (\<lambda>_.
     bindS (metric (\<lambda>m. m\<lparr>mx_hits_semantic := Suc (mx_hits_semantic m)\<rparr>)) (\<lambda>_.
     returnS (Hit (en_response e) score (en_query e) (S why) (en_id e))))"

definition refuse :: "pystr \<Rightarrow> real option \<Rightarrow> ('i, lookup_result) cache_op" where
  "refuse why score = bindS (count_miss why) (\<lambda>_. returnS (Miss why score))"

text \<open>The grey zone, then threshold, guards and verifier, for the best live candidate.\<close>

definition ask_verifier ::
  "'i config \<Rightarrow> partition_key \<Rightarrow> pystr \<Rightarrow> pystr \<Rightarrow> real \<Rightarrow> entry \<Rightarrow> ('i, lookup_result) cache_op" where
  "ask_verifier C key query cand_id score e =
     bindS (metric (\<lambda>m. m\<lparr>mx_verifier_calls := Suc (mx_verifier_calls m)\<rparr>)) (\<lambda>_.
     bindS (liftS (cf_same_intent C query (en_query e))) (\<lambda>same.
       if same then serve_hit key e cand_id score ''semantic+verified''
       else refuse (S ''verifier_rejected'') (Some score)))"

definition judge_entry ::
  "'i config \<Rightarrow> partition_key \<Rightarrow> pystr \<Rightarrow> pystr \<Rightarrow> real \<Rightarrow> entry \<Rightarrow> ('i, lookup_result) cache_op" where
  "judge_entry C key query cand_id score e =
     (if flt_less (Fin score) (cf_tau_verify C) then refuse (S ''below_threshold'') (Some score)
      else case first_failure (cf_data C) query (en_query e) of
        Some (guard_name, guard_reason) \<Rightarrow>
          bindS (metric (\<lambda>m. m\<lparr>mx_guard_rejections := bump guard_name (mx_guard_rejections m)\<rparr>)) (\<lambda>_.
          bindS (count_miss (S ''guard:'' @ guard_name)) (\<lambda>_.
          returnS (Miss (S ''guard:'' @ guard_name @ S '': '' @ guard_reason) (Some score))))
      | None \<Rightarrow>
          if flt_le (cf_tau_hit C) (Fin score) then serve_hit key e cand_id score ''semantic''
          else ask_verifier C key query cand_id score e)"

definition judge_candidate ::
  "'i config \<Rightarrow> partition_key \<Rightarrow> pystr \<Rightarrow> pystr \<Rightarrow> real \<Rightarrow> ('i, lookup_result) cache_op" where
  "judge_candidate C key query cand_id score =
     bindS (at_part key (\<lambda>p. map_of (pt_entries p) cand_id)) (\<lambda>found. case found of
       None \<Rightarrow> raiseS KeyError
     | Some e \<Rightarrow> judge_entry C key query cand_id score e)"

definition semantic_lookup :: "'i config \<Rightarrow> partition_key \<Rightarrow> pystr \<Rightarrow> ('i, lookup_result) cache_op" where
  "semantic_lookup C key query =
     bindS (at_part key pt_entries) (\<lambda>es.
       if es = [] then refuse (S ''empty_partition'') None
       else
         bindS (liftS (cf_embed C query)) (\<lambda>v.
         bindS (at_part key pt_index) (\<lambda>ix.
         bindS (liftS (io_search (cf_ops C) ix v (cf_top_k C))) (\<lambda>candidates.
         bindS (first_live C key candidates) (\<lambda>best. case best of
           None \<Rightarrow> refuse (S ''no_live_candidates'') None
         | Some (cand_id, score) \<Rightarrow> judge_candidate C key query cand_id score)))))"

text \<open>The exact match: \<open>None\<close> goes on with the semantic path.\<close>

definition exact_lookup :: "'i config \<Rightarrow> partition_key \<Rightarrow> pystr \<Rightarrow> ('i, lookup_result option) cache_op" where
  "exact_lookup C key query =
     bindS (liftS (exact_hash C query)) (\<lambda>h.
     bindS (at_part key (\<lambda>p. case map_of (pt_exact p) h of
         Some i \<Rightarrow> map_option (Pair i) (map_of (pt_entries p) i) | None \<Rightarrow> None)) (\<lambda>hit. case hit of
       None \<Rightarrow> returnS None
     | Some (exact_id, e) \<Rightarrow>
         bindS (is_expired C e) (\<lambda>expired.
           if expired then bindS (purge_expired C key exact_id) (\<lambda>_. returnS None)
           else
             bindS (touch key exact_id) (\<lambda>_.
             bindS (metric (\<lambda>m. m\<lparr>mx_hits_exact := Suc (mx_hits_exact m)\<rparr>)) (\<lambda>_.
             returnS (Some (Hit (en_response e) 1 (en_query e) (S ''exact'') (en_id e))))))))"

definition lookup_internal ::
  "'i config \<Rightarrow> pystr \<Rightarrow> cache_context \<Rightarrow> bool \<Rightarrow> jfloat \<Rightarrow> ('i, lookup_result) cache_op" where
  "lookup_internal C query ctx has_tools temperature =
     (let d = cacheable C query ctx has_tools temperature; key = partition_key_for C ctx in
      if \<not> pd_cacheable d then refuse (reason_or_default d) None
      else
        bindS (getS (\<lambda>st. case map_of (sc_partitions st) key of
            None \<Rightarrow> True | Some p \<Rightarrow> pt_entries p = [])) (\<lambda>empty.
        if empty then refuse (S ''empty_partition'') None
        else
          bindS (exact_lookup C key query) (\<lambda>hit. case hit of
            Some r \<Rightarrow> returnS r
          | None \<Rightarrow> semantic_lookup C key query)))"

definition log_shadow :: "'i config \<Rightarrow> pystr \<Rightarrow> cache_context \<Rightarrow> lookup_result \<Rightarrow> ('i, unit) cache_op" where
  "log_shadow C query ctx r =
     bindS (now C) (\<lambda>t.
     modifyS (\<lambda>st.
       let l = sc_shadow_log st @ [\<lparr>sl_at = t, sl_query = query, sl_ctx = ctx, sl_would_be = r\<rparr>] in
       st\<lparr>sc_shadow_log := drop (length l - nat (cf_shadow_log_capacity C)) l\<rparr>))"

definition lookup ::
  "'i config \<Rightarrow> pystr \<Rightarrow> cache_context \<Rightarrow> bool \<Rightarrow> jfloat \<Rightarrow> ('i, lookup_result) cache_op" where
  "lookup C query ctx has_tools temperature =
     (let d = cacheable C query ctx has_tools temperature in
      if \<not> pd_cacheable d then refuse (reason_or_default d) None
      else
        bindS (lookup_internal C query ctx has_tools temperature) (\<lambda>r.
        if cf_mode C = S ''shadow'' then
          bindS (log_shadow C query ctx r) (\<lambda>_. case r of
            Hit response score matched why i \<Rightarrow>
              bindS (metric (\<lambda>m. m\<lparr>mx_shadow_would_hit := Suc (mx_shadow_would_hit m)\<rparr>)) (\<lambda>_.
              returnS (Miss (S ''shadow_mode'') (Some score)))
          | Miss why score \<Rightarrow>
              bindS (metric (\<lambda>m. m\<lparr>mx_shadow_would_miss := Suc (mx_shadow_would_miss m)\<rparr>)) (\<lambda>_. returnS r))
        else returnS r))"

section \<open>Store, invalidate, feedback\<close>

definition index_add_at :: "'i config \<Rightarrow> partition_key \<Rightarrow> pystr \<Rightarrow> vec \<Rightarrow> ('i, unit) cache_op" where
  "index_add_at C key entry_id v =
     bindS (at_part key pt_index) (\<lambda>ix.
     bindS (liftS (io_add (cf_ops C) ix entry_id v)) (\<lambda>ix'.
     set_part key (\<lambda>p. p\<lparr>pt_index := ix'\<rparr>)))"

definition refresh_entry :: "pystr \<Rightarrow> json \<Rightarrow> real \<Rightarrow> real option \<Rightarrow> pystr \<Rightarrow> 'i partition \<Rightarrow> 'i partition" where
  "refresh_entry query response t expires_at i p =
     (case map_of (pt_entries p) i of
        None \<Rightarrow> p
      | Some e \<Rightarrow> p\<lparr>pt_entries := AList.update i (e\<lparr>en_query := query, en_response := response,
            en_created_at := t, en_expires_at := expires_at\<rparr>) (pt_entries p)\<rparr>)"

definition insert_entry :: "entry \<Rightarrow> 'i partition \<Rightarrow> 'i partition" where
  "insert_entry e p =
     p\<lparr>pt_entries := AList.update (en_id e) e (pt_entries p),
       pt_exact := AList.update (en_hash e) (en_id e) (pt_exact p),
       pt_order := (if en_id e \<in> set (pt_order p) then pt_order p else pt_order p @ [en_id e])\<rparr>"

definition fresh_id :: "partition_key \<Rightarrow> ('i, pystr) cache_op" where
  "fresh_id key =
     bindS (getS (\<lambda>st. fst key @ S '':'' @ str_nat (sc_next_id st))) (\<lambda>i.
     bindS (modifyS (\<lambda>st. st\<lparr>sc_next_id := Suc (sc_next_id st)\<rparr>)) (\<lambda>_. returnS i))"

text \<open>Under the lock of the partition: the entry of a known query is refreshed, a new one is installed.
  The vector is added first, since \<open>add\<close> may refuse it.\<close>

definition refresh_known ::
  "'i config \<Rightarrow> partition_key \<Rightarrow> pystr \<Rightarrow> json \<Rightarrow> real \<Rightarrow> real option \<Rightarrow> vec \<Rightarrow> pystr \<Rightarrow> ('i, pystr option) cache_op" where
  "refresh_known C key query response t expires_at v i =
     bindS (index_add_at C key i v) (\<lambda>_.
     bindS (set_part key (refresh_entry query response t expires_at i)) (\<lambda>_.
     bindS (touch key i) (\<lambda>_. returnS (Some i))))"

definition install_new ::
  "'i config \<Rightarrow> partition_key \<Rightarrow> pystr \<Rightarrow> json \<Rightarrow> cache_context \<Rightarrow> real \<Rightarrow> real option \<Rightarrow> vec \<Rightarrow> pystr \<Rightarrow>
   ('i, pystr option) cache_op" where
  "install_new C key query response ctx t expires_at v h =
     bindS (fresh_id key) (\<lambda>i.
     bindS (index_add_at C key i v) (\<lambda>_.
     bindS (at_part key (\<lambda>p. int (length (pt_entries p)))) (\<lambda>n.
     bindS (if cf_capacity C \<le> n then evict_lru C key else returnS ()) (\<lambda>_.
     bindS (set_part key (insert_entry \<lparr>en_id = i, en_query = query, en_hash = h, en_response = response,
        en_ctx = ctx, en_created_at = t, en_expires_at = expires_at, en_good_feedback = 0,
        en_bad_feedback = 0\<rparr>)) (\<lambda>_.
     bindS (modifyS (\<lambda>st. st\<lparr>sc_entry_partition := AList.update i key (sc_entry_partition st)\<rparr>)) (\<lambda>_.
     returnS (Some i)))))))"

definition put_answer ::
  "'i config \<Rightarrow> partition_key \<Rightarrow> pystr \<Rightarrow> json \<Rightarrow> cache_context \<Rightarrow> real \<Rightarrow> real option \<Rightarrow> vec \<Rightarrow> pystr \<Rightarrow>
   ('i, pystr option) cache_op" where
  "put_answer C key query response ctx t expires_at v h =
     bindS (at_part key (\<lambda>p. case map_of (pt_exact p) h of
         Some i \<Rightarrow> if map_of (pt_entries p) i \<noteq> None then Some i else None | None \<Rightarrow> None)) (\<lambda>existing.
     case existing of
       Some i \<Rightarrow> refresh_known C key query response t expires_at v i
     | None \<Rightarrow> install_new C key query response ctx t expires_at v h)"

text \<open>\<open>ttl\<close>: \<open>None\<close> stands for the argument left out, \<open>Some None\<close> for an explicit \<open>None\<close>.\<close>

definition store ::
  "'i config \<Rightarrow> pystr \<Rightarrow> json \<Rightarrow> cache_context \<Rightarrow> flt option option \<Rightarrow> bool \<Rightarrow> jfloat \<Rightarrow>
   ('i, pystr option) cache_op" where
  "store C query response ctx ttl has_tools temperature =
     (let d = cacheable C query ctx has_tools temperature; key = partition_key_for C ctx;
          resolved = (case ttl of None \<Rightarrow> cf_default_ttl C | Some t \<Rightarrow> t) in
      if \<not> pd_cacheable d then
        bindS (metric (\<lambda>m. m\<lparr>mx_store_rejections := bump (reason_or_default d) (mx_store_rejections m)\<rparr>)) (\<lambda>_. returnS None)
      else
        bindS (liftS (validate_ttl resolved)) (\<lambda>_.
        bindS (now C) (\<lambda>t.
        bindS (get_or_create_partition C key) (\<lambda>_.
        bindS (liftS (cf_embed C query)) (\<lambda>v.
        bindS (liftS (exact_hash C query)) (\<lambda>h.
        put_answer C key query response ctx t (map_option (\<lambda>x. t + fin_val x) resolved) v h))))))"

definition invalidate :: "'i config \<Rightarrow> pystr \<Rightarrow> ('i, bool) cache_op" where
  "invalidate C entry_id =
     bindS (getS (\<lambda>st. map_of (sc_entry_partition st) entry_id)) (\<lambda>k. case k of
       None \<Rightarrow> returnS False
     | Some key \<Rightarrow> bindS (remove_entry C key entry_id) (\<lambda>e. returnS (e \<noteq> None)))"

definition rate_entry :: "bool \<Rightarrow> entry \<Rightarrow> entry" where
  "rate_entry good e = (if good then e\<lparr>en_good_feedback := Suc (en_good_feedback e)\<rparr>
     else e\<lparr>en_bad_feedback := Suc (en_bad_feedback e)\<rparr>)"

definition feedback :: "'i config \<Rightarrow> pystr \<Rightarrow> bool \<Rightarrow> ('i, unit) cache_op" where
  "feedback C entry_id good =
     bindS (getS (\<lambda>st. map_of (sc_entry_partition st) entry_id)) (\<lambda>k. case k of
       None \<Rightarrow> returnS ()
     | Some key \<Rightarrow>
         bindS (at_part key (\<lambda>p. map_of (pt_entries p) entry_id)) (\<lambda>e. case e of
           None \<Rightarrow> returnS ()
         | Some en \<Rightarrow>
             bindS (set_part key (\<lambda>p. p\<lparr>pt_entries := AList.update entry_id (rate_entry good en) (pt_entries p)\<rparr>)) (\<lambda>_.
             if good then returnS ()
             else
               bindS (remove_entry C key entry_id) (\<lambda>_.
               metric (\<lambda>m. m\<lparr>mx_bad_feedback_evictions := Suc (mx_bad_feedback_evictions m)\<rparr>)))))"

section \<open>Sessions\<close>

datatype cache_call =
    Lookup pystr cache_context bool jfloat
  | Store pystr json cache_context "flt option option" bool jfloat
  | Invalidate pystr
  | Feedback pystr bool

datatype cache_result =
    Looked "pyexc + lookup_result" | Stored "pyexc + pystr option" | Invalidated "pyexc + bool" | Rated "pyexc + unit"

fun do_cache_call :: "'i config \<Rightarrow> 'i cache \<Rightarrow> cache_call \<Rightarrow> cache_result \<times> 'i cache" where
  "do_cache_call C st (Lookup q ctx tools temp) = map_prod Looked id (lookup C q ctx tools temp st)"
| "do_cache_call C st (Store q r ctx ttl tools temp) = map_prod Stored id (store C q r ctx ttl tools temp st)"
| "do_cache_call C st (Invalidate i) = map_prod Invalidated id (invalidate C i st)"
| "do_cache_call C st (Feedback i good) = map_prod Rated id (feedback C i good st)"

end
