(* ===== verification/Semantic_Facts.thy ===== *)
theory Semantic_Facts
  imports Semantic_Cache Canonical_Numbers
begin

text \<open>
  What the semantic cache keeps and what a hit means. \<open>cache_index\<close> is the interface between the
  cache and its vector index, with the laws the cache relies on; the index of the source is
  proved to obey them. The invariant ties entries, recency order, exact map, vector index and
  the map from entries to partitions together, and holds after every call, also after one that
  raised.
\<close>

section \<open>The interface of the vector index\<close>

locale cache_index =
  fixes C :: "'i config"
    and ok :: "'i \<Rightarrow> bool"
    and rows :: "'i \<Rightarrow> pystr \<Rightarrow> real list option"
    and sim :: "real list \<Rightarrow> real list \<Rightarrow> real"
  assumes new_ok: "ok (io_new (cf_ops C) d)" "rows (io_new (cf_ops C) d) = (\<lambda>x. None)"
    and add_ok: "ok ix \<Longrightarrow> io_add (cf_ops C) ix x v = Inr ix' \<Longrightarrow> ok ix' \<and> rows ix' = (rows ix)(x \<mapsto> map fin_val v)"
    and remove_ok: "ok ix \<Longrightarrow> ok (io_remove (cf_ops C) ix x) \<and> rows (io_remove (cf_ops C) ix x) = (rows ix)(x := None)"
    and search_ok: "ok ix \<Longrightarrow> io_search (cf_ops C) ix v k = Inr rs \<Longrightarrow> (x, s) \<in> set rs \<Longrightarrow>
      \<exists>r. rows ix x = Some r \<and> s = sim r (map fin_val v)"

text \<open>The index of the source obeys the laws.\<close>

definition row_of :: "numpy_index \<Rightarrow> pystr \<Rightarrow> real list option" where
  "row_of ix = map_of (zip (ni_ids ix) (ni_matrix ix))"

lemma zip_without: "length xs = length ys \<Longrightarrow> zip (without i xs) (without i ys) = without i (zip xs ys)"
  by (simp add: without_def take_zip drop_zip)

lemma map_of_without:
  "distinct (keys d) \<Longrightarrow> i < length d \<Longrightarrow> map_of (without i d) = (map_of d)(fst (d ! i) := None)"
proof (induction d arbitrary: i)
  case (Cons p d)
  show ?case
  proof (cases i)
    case 0
    have "map_of d (fst p) = None" using Cons.prems(1) by (simp add: map_of_eq_None_iff)
    with 0 show ?thesis by (auto simp: without_def fun_eq_iff)
  next
    case (Suc j)
    with Cons.prems have j: "distinct (keys d)" "j < length d" by auto
    then have "fst p \<noteq> fst (d ! j)" using Cons.prems(1) by (auto dest: nth_mem)
    moreover have "without i (p # d) = p # without j d" by (simp add: without_def Suc)
    ultimately show ?thesis using Cons.IH[OF j] Suc by (auto simp: fun_eq_iff)
  qed
qed simp

lemma row_remove:
  assumes "index_ok ix"
  shows "row_of (index_remove ix x) = (row_of ix)(x := None)"
proof (cases "position x (ni_ids ix)")
  case None
  then have "row_of ix x = None"
    using assms by (simp add: row_of_def position_None index_ok_def)
  then show ?thesis by (auto simp: index_remove_def None fun_eq_iff)
next
  case (Some i)
  let ?z = "zip (ni_ids ix) (ni_matrix ix)"
  have z: "distinct (keys ?z)" "length ?z = length (ni_ids ix)" using assms by (auto simp: index_ok_def)
  have i: "i < length (ni_ids ix)" "ni_ids ix ! i = x" using position_Some[OF Some] by auto
  have "row_of (index_remove ix x) = map_of (without i ?z)"
    using assms by (simp add: row_of_def index_remove_def Some zip_without index_ok_def)
  also have "\<dots> = (map_of ?z)(x := None)"
    using map_of_without[OF z(1)] i z(2) assms by (simp add: index_ok_def)
  finally show ?thesis by (simp add: row_of_def)
qed

lemma row_add:
  assumes "index_add ix x v = Inr ix'" "index_ok ix"
  shows "row_of ix' = (row_of ix)(x \<mapsto> map fin_val v)"
proof -
  let ?i = "if x \<in> set (ni_ids ix) then index_remove ix x else ix"
  have i: "index_ok ?i" "x \<notin> set (ni_ids ?i)" "(row_of ?i)(x \<mapsto> y) = (row_of ix)(x \<mapsto> y)" for y
    using index_remove_ok[OF assms(2), of x] assms(2) row_remove[OF assms(2), of x] by auto
  have e: "ix' = ?i\<lparr>ni_ids := ni_ids ?i @ [x], ni_matrix := ni_matrix ?i @ [map fin_val v]\<rparr>"
    using assms(1) by (auto simp: index_add_def Let_def split: if_splits)
  have "row_of ix' = map_of (zip (ni_ids ?i) (ni_matrix ?i) @ [(x, map fin_val v)])"
    unfolding e row_of_def using i(1) by (simp add: index_ok_def del: if_split)
  also have "\<dots> = (row_of ?i)(x \<mapsto> map fin_val v)"
  proof -
    have "map_of (zip (ni_ids ?i) (ni_matrix ?i)) x = None"
      using i(1,2) by (simp add: index_ok_def del: if_split)
    then show ?thesis by (auto simp: row_of_def fun_eq_iff map_add_def split: option.split simp del: if_split_asm)
  qed
  finally show ?thesis using i(3) by simp
qed

lemma score_row:
  assumes "index_ok ix" "x \<in> set (ni_ids ix)"
  shows "\<exists>r. row_of ix x = Some r \<and> score_of ix v x = dot r (map fin_val v)"
proof -
  obtain i where i: "position x (ni_ids ix) = Some i" using assms(2) position_None[of x "ni_ids ix"] by (cases "position x (ni_ids ix)") auto
  then have "i < length (ni_ids ix)" "ni_ids ix ! i = x" using position_Some by fastforce+
  then have "(x, ni_matrix ix ! i) \<in> set (zip (ni_ids ix) (ni_matrix ix))"
    using assms(1) by (auto simp: index_ok_def set_zip)
  then have "row_of ix x = Some (ni_matrix ix ! i)"
    using assms(1) by (simp add: row_of_def index_ok_def)
  then show ?thesis by (simp add: score_of_def i)
qed

lemma numpy_laws:
  assumes "numpy_ok np" "cf_ops C = numpy_ops np"
  shows "cache_index C index_ok row_of dot"
proof
  show "index_ok (io_new (cf_ops C) d)" "row_of (io_new (cf_ops C) d) = (\<lambda>x. None)" for d
    by (simp_all add: assms(2) numpy_ops_def index_init_ok row_of_def fun_eq_iff)
  show "index_ok ix' \<and> row_of ix' = (row_of ix)(x \<mapsto> map fin_val v)"
    if "index_ok ix" "io_add (cf_ops C) ix x v = Inr ix'" for ix x v ix'
    using that index_add_ok(1) row_add by (simp add: assms(2) numpy_ops_def)
  show "index_ok (io_remove (cf_ops C) ix x) \<and> row_of (io_remove (cf_ops C) ix x) = (row_of ix)(x := None)"
    if "index_ok ix" for ix x
    using that index_remove_ok(1) row_remove by (simp add: assms(2) numpy_ops_def)
  show "\<exists>r. row_of ix x = Some r \<and> s = dot r (map fin_val v)"
    if "index_ok ix" "io_search (cf_ops C) ix v k = Inr rs" "(x, s) \<in> set rs" for ix v k rs x s
  proof -
    have r: "index_search np ix v k = Inr rs" using that(2) by (simp add: assms(2) numpy_ops_def)
    from search_top_k(3,4)[OF assms(1) that(1) r] that(3) have "x \<in> set (ni_ids ix)" "s = score_of ix v x" by force+
    with score_row[OF that(1)] show ?thesis by blast
  qed
qed

section \<open>The invariant of a partition\<close>

text \<open>
  \<open>G key i query response\<close> tells where an entry may come from. \<open>w\<close> holds the rows of the vector
  index that are ahead of the entries: one while \<open>store\<close> is between adding the vector and
  installing or changing the entry, none otherwise.
\<close>

type_synonym provenance = "partition_key \<Rightarrow> pystr \<Rightarrow> pystr \<Rightarrow> json \<Rightarrow> bool"

definition vec_of :: "'i config \<Rightarrow> pystr \<Rightarrow> real list" where
  "vec_of C q = (case cf_embed C q of Inr v \<Rightarrow> map fin_val v | Inl _ \<Rightarrow> [])"

definition id_of :: "partition_key \<Rightarrow> nat \<Rightarrow> pystr" where
  "id_of key m = fst key @ S '':'' @ str_nat m"

definition entry_inv :: "'i config \<Rightarrow> provenance \<Rightarrow> partition_key \<Rightarrow> nat \<Rightarrow> pystr \<Rightarrow> entry \<Rightarrow> bool" where
  "entry_inv C G key n i e \<longleftrightarrow> en_id e = i \<and> partition_key_for C (en_ctx e) = key
     \<and> exact_hash C (en_query e) = Inr (en_hash e) \<and> G key i (en_query e) (en_response e)
     \<and> (\<exists>m < n. i = id_of key m)"

definition part_inv ::
  "'i config \<Rightarrow> ('i \<Rightarrow> bool) \<Rightarrow> ('i \<Rightarrow> pystr \<Rightarrow> real list option) \<Rightarrow> provenance \<Rightarrow> (pystr \<Rightarrow> real list option) \<Rightarrow>
   partition_key \<Rightarrow> nat \<Rightarrow> 'i partition \<Rightarrow> bool" where
  "part_inv C ok rows G w key n p \<longleftrightarrow>
     wf_dict (pt_entries p) \<and> distinct (pt_order p) \<and> set (pt_order p) = set (keys (pt_entries p)) \<and>
     (\<forall>i e. map_of (pt_entries p) i = Some e \<longrightarrow> entry_inv C G key n i e) \<and>
     (\<forall>h i. map_of (pt_exact p) h = Some i \<longleftrightarrow> (\<exists>e. map_of (pt_entries p) i = Some e \<and> en_hash e = h)) \<and>
     ok (pt_index p) \<and>
     (\<forall>i. rows (pt_index p) i = (case w i of None \<Rightarrow> map_option (\<lambda>e. vec_of C (en_query e)) (map_of (pt_entries p) i) | r \<Rightarrow> r)) \<and>
     int (length (pt_entries p)) \<le> cf_capacity C"

lemma part_invD:
  assumes "part_inv C ok rows G w key n p"
  shows "wf_dict (pt_entries p)" "distinct (pt_order p)" "set (pt_order p) = set (keys (pt_entries p))"
    "map_of (pt_entries p) i = Some e \<Longrightarrow> entry_inv C G key n i e"
    "map_of (pt_exact p) h = Some i \<longleftrightarrow> (\<exists>e. map_of (pt_entries p) i = Some e \<and> en_hash e = h)"
    "ok (pt_index p)"
    "rows (pt_index p) i = (case w i of None \<Rightarrow> map_option (\<lambda>e. vec_of C (en_query e)) (map_of (pt_entries p) i) | r \<Rightarrow> r)"
    "int (length (pt_entries p)) \<le> cf_capacity C"
  using assms unfolding part_inv_def by blast+

lemma part_invI:
  assumes "wf_dict (pt_entries p)" "distinct (pt_order p)" "set (pt_order p) = set (keys (pt_entries p))"
    "\<And>i e. map_of (pt_entries p) i = Some e \<Longrightarrow> entry_inv C G key n i e"
    "\<And>h i. map_of (pt_exact p) h = Some i \<longleftrightarrow> (\<exists>e. map_of (pt_entries p) i = Some e \<and> en_hash e = h)"
    "ok (pt_index p)"
    "\<And>i. rows (pt_index p) i = (case w i of None \<Rightarrow> map_option (\<lambda>e. vec_of C (en_query e)) (map_of (pt_entries p) i) | r \<Rightarrow> r)"
    "int (length (pt_entries p)) \<le> cf_capacity C"
  shows "part_inv C ok rows G w key n p"
  using assms unfolding part_inv_def by blast

lemma part_inv_mono:
  assumes "part_inv C ok rows G w key n p" "n \<le> n'" "\<And>i q r. G key i q r \<Longrightarrow> G' key i q r"
  shows "part_inv C ok rows G' w key n' p"
proof -
  have "entry_inv C G' key n' i e" if "entry_inv C G key n i e" for i e
    using that assms(2,3) unfolding entry_inv_def by (meson order_less_le_trans)
  with assms(1) show ?thesis unfolding part_inv_def by blast
qed

lemma keys_map_of: "i \<in> set (keys d) \<longleftrightarrow> map_of d i \<noteq> None"
  using map_of_eq_None_iff[of d i] by (cases "map_of d i") simp_all

lemma map_of_update [simp]: "map_of (AList.update k v d) = (map_of d)(k \<mapsto> v)"
  by (simp add: update_conv')

lemma map_of_delete [simp]: "map_of (AList.delete k d) = (map_of d)(k := None)"
  by (simp add: delete_conv')

lemma keys_of_delete [simp]: "fst ` set (AList.delete k d) = fst ` set d - {k}"
  using delete_keys[of k d] by (metis set_map set_removeAll)

lemma length_delete: "wf_dict d \<Longrightarrow> length (AList.delete k d) = card (set (keys d) - {k})"
  by (metis distinct_card keys_of_delete length_map set_map wf_dict_def wf_dict_delete)

lemma length_update: "length (AList.update k v d) = length d + (if k \<in> set (keys d) then 0 else 1)"
  by (induction d) auto

context cache_index
begin

abbreviation pinv :: "provenance \<Rightarrow> (pystr \<Rightarrow> real list option) \<Rightarrow> partition_key \<Rightarrow> nat \<Rightarrow> 'i partition \<Rightarrow> bool" where
  "pinv G w key n p \<equiv> part_inv C ok rows G w key n p"

lemma new_partition_inv: "1 \<le> cf_capacity C \<Longrightarrow> pinv G (\<lambda>x. None) key n (new_partition C key)"
  by (simp add: part_inv_def new_partition_def new_ok)

lemma drop_entry_inv:
  assumes inv: "pinv G w key n p" and w: "w i = None"
  shows "pinv G w key n (drop_entry C i p)"
proof -
  note d = part_invD[OF inv]
  let ?p = "drop_entry C i p"
  have E: "pt_entries ?p = AList.delete i (pt_entries p)" by (simp add: drop_entry_def)
  have X: "map_of (pt_exact ?p) h = Some j \<longleftrightarrow> map_of (pt_exact p) h = Some j \<and> j \<noteq> i" for h j
  proof (cases "map_of (pt_entries p) i")
    case None
    then show ?thesis using d(5)[of h i] by (auto simp: drop_entry_def)
  next
    case (Some e)
    then have x: "map_of (pt_exact p) (en_hash e) = Some i" using d(5)[of "en_hash e" i] by simp
    have y: "h = en_hash e" if "map_of (pt_exact p) h = Some i" using that d(5)[of h i] Some by simp
    have "map_of (pt_exact ?p) = (map_of (pt_exact p))(en_hash e := None)" by (simp add: drop_entry_def Some x)
    with x y show ?thesis by (cases "h = en_hash e") auto
  qed
  have R: "ok (pt_index ?p)" "rows (pt_index ?p) = (rows (pt_index p))(i := None)"
    using remove_ok[OF d(6)] by (simp_all add: drop_entry_def)
  show ?thesis
  proof (rule part_invI)
    show "map_of (pt_exact ?p) h = Some j \<longleftrightarrow> (\<exists>e. map_of (pt_entries ?p) j = Some e \<and> en_hash e = h)" for h j
      unfolding X E using d(5)[of h j] by auto
    show "rows (pt_index ?p) j = (case w j of None \<Rightarrow> map_option (\<lambda>e. vec_of C (en_query e)) (map_of (pt_entries ?p) j) | r \<Rightarrow> r)" for j
      unfolding R(2) E using d(7)[of j] w by (simp split: option.splits)
    show "entry_inv C G key n j e" if "map_of (pt_entries ?p) j = Some e" for j e
      using that d(4) unfolding E by (simp split: if_splits)
    show "int (length (pt_entries ?p)) \<le> cf_capacity C"
      using d(8) length_delete_le[of i "pt_entries p"] unfolding E by linarith
    show "set (pt_order ?p) = set (keys (pt_entries ?p))" using d(3) by (simp add: E) (auto simp: drop_entry_def)
    show "distinct (pt_order ?p)" using d(2) by (simp add: drop_entry_def)
    show "wf_dict (pt_entries ?p)" using d(1) by (simp add: E)
    show "ok (pt_index ?p)" by (rule R(1))
  qed
qed

lemma touch_inv:
  assumes "pinv G w key n p" "i \<in> set (pt_order p)"
  shows "pinv G w key n (p\<lparr>pt_order := moved_to_end i (pt_order p)\<rparr>)"
proof -
  note d = part_invD[OF assms(1)]
  show ?thesis
  proof (rule part_invI)
    show "set (pt_order (p\<lparr>pt_order := moved_to_end i (pt_order p)\<rparr>)) = set (keys (pt_entries (p\<lparr>pt_order := moved_to_end i (pt_order p)\<rparr>)))"
      using d(3) assms(2) by (simp add: moved_to_end_def) blast
  qed (use d in \<open>simp_all add: moved_to_end_def split: option.splits\<close>)
qed

lemma rate_inv:
  assumes inv: "pinv G w key n p" and e: "map_of (pt_entries p) i = Some e"
  shows "pinv G w key n (p\<lparr>pt_entries := AList.update i (rate_entry good e) (pt_entries p)\<rparr>)"
proof -
  note d = part_invD[OF inv]
  have r: "en_hash (rate_entry good e) = en_hash e" "en_query (rate_entry good e) = en_query e"
    "entry_inv C G key n i (rate_entry good e) = entry_inv C G key n i e"
    by (simp_all add: rate_entry_def entry_inv_def)
  have k: "i \<in> set (keys (pt_entries p))" using e keys_map_of[of i "pt_entries p"] by simp
  let ?p = "p\<lparr>pt_entries := AList.update i (rate_entry good e) (pt_entries p)\<rparr>"
  show ?thesis
  proof (rule part_invI)
    show "map_of (pt_exact ?p) h = Some j \<longleftrightarrow> (\<exists>e. map_of (pt_entries ?p) j = Some e \<and> en_hash e = h)" for h j
      using d(5)[of h j] e r(1) by auto
    show "rows (pt_index ?p) j = (case w j of None \<Rightarrow> map_option (\<lambda>e. vec_of C (en_query e)) (map_of (pt_entries ?p) j) | r \<Rightarrow> r)" for j
      using d(7)[of j] e r(2) by (simp split: option.splits)
    show "entry_inv C G key n j e'" if "map_of (pt_entries ?p) j = Some e'" for j e'
      using that d(4)[of j] e r(3) by (auto split: if_splits)
    show "set (pt_order ?p) = set (keys (pt_entries ?p))" using d(3) k by (simp add: dom_update insert_absorb)
    show "int (length (pt_entries ?p)) \<le> cf_capacity C" using d(8) k by (simp add: length_update)
  qed (use d in simp_all)
qed

lemma index_add_inv:
  assumes inv: "pinv G (\<lambda>x. None) key n p" and add: "io_add (cf_ops C) (pt_index p) i v = Inr ix"
  shows "pinv G [i \<mapsto> map fin_val v] key n (p\<lparr>pt_index := ix\<rparr>)"
proof -
  note d = part_invD[OF inv]
  have R: "ok ix" "rows ix = (rows (pt_index p))(i \<mapsto> map fin_val v)" using add_ok[OF d(6) add] by auto
  show ?thesis
  proof (rule part_invI)
    show "rows (pt_index (p\<lparr>pt_index := ix\<rparr>)) j = (case [i \<mapsto> map fin_val v] j of
        None \<Rightarrow> map_option (\<lambda>e. vec_of C (en_query e)) (map_of (pt_entries (p\<lparr>pt_index := ix\<rparr>)) j) | r \<Rightarrow> r)" for j
      using d(7)[of j] by (simp add: R(2))
  qed (use d R(1) in simp_all)
qed

text \<open>An entry that is installed, or changed, under its own row: the window closes.\<close>

lemma put_entry_inv:
  assumes inv: "pinv G [i \<mapsto> vec_of C (en_query e)] key n p" and e: "entry_inv C G key n i e"
    and X: "\<And>h j. map_of exact h = Some j \<longleftrightarrow>
      (if j = i then h = en_hash e else map_of (pt_exact p) h = Some j)"
    and O: "distinct order" "set order = insert i (set (pt_order p))"
    and L: "i \<in> set (keys (pt_entries p)) \<or> int (length (pt_entries p)) < cf_capacity C"
  shows "pinv G (\<lambda>x. None) key n (p\<lparr>pt_entries := AList.update i e (pt_entries p), pt_exact := exact, pt_order := order\<rparr>)"
    (is "pinv G _ key n ?p")
proof -
  note d = part_invD[OF inv]
  show ?thesis
  proof (rule part_invI)
    show "map_of (pt_exact ?p) h = Some j \<longleftrightarrow> (\<exists>e. map_of (pt_entries ?p) j = Some e \<and> en_hash e = h)" for h j
      using d(5)[of h j] X[of h j] by (cases "j = i") (simp_all add: eq_commute)
    show "rows (pt_index ?p) j = (case None of None \<Rightarrow> map_option (\<lambda>e. vec_of C (en_query e)) (map_of (pt_entries ?p) j) | r \<Rightarrow> r)" for j
      using d(7)[of j] by simp
    show "entry_inv C G key n j e'" if "map_of (pt_entries ?p) j = Some e'" for j e'
      using that d(4)[of j] e by (auto split: if_splits)
    show "set (pt_order ?p) = set (keys (pt_entries ?p))" using d(3) O(2) by (simp add: dom_update)
    show "int (length (pt_entries ?p)) \<le> cf_capacity C" using d(8) L by (auto simp: length_update)
  qed (use d O(1) in simp_all)
qed

lemma refresh_inv:
  assumes inv: "pinv G [i \<mapsto> vec_of C q] key n p" and e: "map_of (pt_entries p) i = Some e"
    and q: "exact_hash C q = Inr (en_hash e)" "G key i q r"
  shows "pinv G (\<lambda>x. None) key n (refresh_entry q r t x i p)"
proof -
  let ?e = "e\<lparr>en_query := q, en_response := r, en_created_at := t, en_expires_at := x\<rparr>"
  note d = part_invD[OF inv]
  have p: "refresh_entry q r t x i p =
      p\<lparr>pt_entries := AList.update i ?e (pt_entries p), pt_exact := pt_exact p, pt_order := pt_order p\<rparr>"
    by (simp add: refresh_entry_def e)
  have k: "i \<in> set (keys (pt_entries p))" using e keys_map_of[of i "pt_entries p"] by simp
  show ?thesis
    unfolding p
  proof (rule put_entry_inv)
    show "pinv G [i \<mapsto> vec_of C (en_query ?e)] key n p" using inv by simp
    show "entry_inv C G key n i ?e" using d(4)[OF e] q by (simp add: entry_inv_def)
    show "map_of (pt_exact p) h = Some j \<longleftrightarrow> (if j = i then h = en_hash ?e else map_of (pt_exact p) h = Some j)" for h j
      using d(5)[of h j] e by (cases "j = i") (simp_all add: eq_commute)
    show "set (pt_order p) = insert i (set (pt_order p))" using d(3) k by (simp add: insert_absorb)
    show "i \<in> set (keys (pt_entries p)) \<or> int (length (pt_entries p)) < cf_capacity C" using k by (rule disjI1)
  qed (rule d(2))
qed

lemma insert_inv:
  assumes inv: "pinv G [en_id e \<mapsto> vec_of C (en_query e)] key n p" and e: "entry_inv C G key n (en_id e) e"
    and new: "map_of (pt_entries p) (en_id e) = None" "map_of (pt_exact p) (en_hash e) = None"
      "int (length (pt_entries p)) < cf_capacity C"
  shows "pinv G (\<lambda>x. None) key n (insert_entry e p)"
proof -
  note d = part_invD[OF inv]
  have k: "en_id e \<notin> set (pt_order p)" using new(1) keys_map_of[of "en_id e" "pt_entries p"] d(3) by simp
  have p: "insert_entry e p = p\<lparr>pt_entries := AList.update (en_id e) e (pt_entries p),
      pt_exact := AList.update (en_hash e) (en_id e) (pt_exact p), pt_order := pt_order p @ [en_id e]\<rparr>"
    by (simp add: insert_entry_def k)
  show ?thesis
    unfolding p
  proof (rule put_entry_inv[OF inv e])
    show "map_of (AList.update (en_hash e) (en_id e) (pt_exact p)) h = Some j \<longleftrightarrow>
        (if j = en_id e then h = en_hash e else map_of (pt_exact p) h = Some j)" for h j
      using d(5)[of h j] new by auto
    show "en_id e \<in> set (keys (pt_entries p)) \<or> int (length (pt_entries p)) < cf_capacity C" using new(3) by (rule disjI2)
  qed (use d(2) k in simp_all)
qed

text \<open>The least recent entry makes room.\<close>

lemma evict_room:
  assumes inv: "pinv G w key n p" and i: "i \<in> set (pt_order p)"
  shows "int (length (pt_entries (drop_entry C i p))) < cf_capacity C"
proof -
  note d = part_invD[OF inv]
  have "length (pt_entries p) = card (set (keys (pt_entries p)))"
    using d(1) unfolding wf_dict_def by (metis distinct_card length_map)
  moreover have "length (pt_entries (drop_entry C i p)) = card (set (keys (pt_entries p)) - {i})"
    using length_delete[OF d(1)] by (simp add: drop_entry_def)
  moreover have "card (set (keys (pt_entries p)) - {i}) < card (set (keys (pt_entries p)))"
    using i d(3) by (intro card_Diff1_less) auto
  ultimately show ?thesis using d(8) by linarith
qed

end

end
