(* ===== verification/Semantic_Safety.thy ===== *)
theory Semantic_Safety
  imports Semantic_Facts
begin

text \<open>
  The semantic cache as a whole: the invariant of its state over every operation, what a hit
  stands for, and sessions of calls. An operation is described by a Hoare triple over the
  state-exception monad; the last argument is what holds after it raised.
\<close>

section \<open>The invariant of the cache\<close>

definition entry_at :: "'i cache \<Rightarrow> partition_key \<Rightarrow> pystr \<Rightarrow> entry \<Rightarrow> bool" where
  "entry_at s key i e \<longleftrightarrow> (\<exists>p. map_of (sc_partitions s) key = Some p \<and> map_of (pt_entries p) i = Some e)"

text \<open>\<open>D\<close> holds identifiers that were in use and are no more.\<close>

definition cache_inv ::
  "'i config \<Rightarrow> ('i \<Rightarrow> bool) \<Rightarrow> ('i \<Rightarrow> pystr \<Rightarrow> real list option) \<Rightarrow> provenance \<Rightarrow> pystr set \<Rightarrow>
   (partition_key \<Rightarrow> pystr \<Rightarrow> real list option) \<Rightarrow> 'i cache \<Rightarrow> bool" where
  "cache_inv C ok rows G D w s \<longleftrightarrow>
     (\<forall>key p. map_of (sc_partitions s) key = Some p \<longrightarrow> part_inv C ok rows G (w key) key (sc_next_id s) p) \<and>
     (\<forall>i key. map_of (sc_entry_partition s) i = Some key \<longleftrightarrow> (\<exists>e. entry_at s key i e)) \<and>
     (\<forall>i \<in> D. map_of (sc_entry_partition s) i = None \<and> (\<exists>key m. i = id_of key m \<and> m < sc_next_id s)) \<and>
     length (sc_shadow_log s) \<le> nat (cf_shadow_log_capacity C)"

lemma cache_invD:
  assumes "cache_inv C ok rows G D w s"
  shows "map_of (sc_partitions s) key = Some p \<Longrightarrow> part_inv C ok rows G (w key) key (sc_next_id s) p"
    "map_of (sc_entry_partition s) i = Some key \<longleftrightarrow> (\<exists>e. entry_at s key i e)"
    "i \<in> D \<Longrightarrow> map_of (sc_entry_partition s) i = None" "i \<in> D \<Longrightarrow> \<exists>key m. i = id_of key m \<and> m < sc_next_id s"
    "length (sc_shadow_log s) \<le> nat (cf_shadow_log_capacity C)"
  using assms unfolding cache_inv_def by blast+

lemma entry_at_frame [simp]:
  "entry_at (s\<lparr>sc_metrics := x\<rparr>) = entry_at s" "entry_at (s\<lparr>sc_ticks := n\<rparr>) = entry_at s"
  "entry_at (s\<lparr>sc_shadow_log := l\<rparr>) = entry_at s" "entry_at (s\<lparr>sc_next_id := n\<rparr>) = entry_at s"
  "entry_at (s\<lparr>sc_entry_partition := m\<rparr>) = entry_at s"
  by (simp_all add: fun_eq_iff entry_at_def)

lemma cache_inv_frame [simp]:
  "cache_inv C ok rows G D w (s\<lparr>sc_metrics := x\<rparr>) = cache_inv C ok rows G D w s"
  "cache_inv C ok rows G D w (s\<lparr>sc_ticks := n\<rparr>) = cache_inv C ok rows G D w s"
  by (simp_all add: cache_inv_def)

lemma cache_inv_mono:
  assumes inv: "cache_inv C ok rows G D w s" and n: "sc_next_id s \<le> n"
    and G: "\<And>key i q r. G key i q r \<Longrightarrow> G' key i q r" and D: "D' \<subseteq> D"
  shows "cache_inv C ok rows G' D' w (s\<lparr>sc_next_id := n\<rparr>)"
proof -
  note d = cache_invD[OF inv]
  have "part_inv C ok rows G' (w key) key n p" if "map_of (sc_partitions s) key = Some p" for key p
    using part_inv_mono[OF d(1)[OF that] n] G by blast
  moreover have "map_of (sc_entry_partition s) i = None \<and> (\<exists>key m. i = id_of key m \<and> m < n)" if "i \<in> D'" for i
    using d(3,4)[of i] D n that by (meson order_less_le_trans subsetD)
  ultimately show ?thesis unfolding cache_inv_def using d(2,5) by simp
qed

lemma cache_inv_less: "cache_inv C ok rows G D w s \<Longrightarrow> D' \<subseteq> D \<Longrightarrow> cache_inv C ok rows G D' w s"
  using cache_inv_mono[of C ok rows G D w s "sc_next_id s" G D'] by simp

lemma id_of_inj: assumes "id_of key m = id_of key' m'" shows "fst key = fst key' \<and> m = m'"
proof -
  have rev: "rev (str_nat m) @ 58 # rev (fst key) = rev (str_nat m') @ 58 # rev (fst key')"
    using assms[THEN arg_cong[where f = rev]] by (simp add: id_of_def S_def)
  have dig: "c \<noteq> 58" if "c \<in> set (rev (str_nat k))" for c k
    using that str_nat_digits[of k] by (auto simp: is_digit_def)
  have t: "takeWhile (\<lambda>c. c \<noteq> 58) (rev (str_nat k) @ 58 # xs) = rev (str_nat k)" for k xs
    using dig by (subst takeWhile_append2) auto
  have e: "rev (str_nat m) = rev (str_nat m')" using rev[THEN arg_cong[where f = "takeWhile (\<lambda>c. c \<noteq> 58)"]] unfolding t .
  have "fst key = fst key'" using rev unfolding e by simp
  moreover have "m = m'" using e[THEN arg_cong[where f = "\<lambda>x. natval (rev x)"]] by simp
  ultimately show ?thesis ..
qed

lemma put_part_inv:
  assumes inv: "cache_inv C ok rows G D w s" and p: "map_of (sc_partitions s) key = Some p"
    and p': "part_inv C ok rows G x key (sc_next_id s) p'"
    and same: "\<And>i. map_of (pt_entries p') i = None \<longleftrightarrow> map_of (pt_entries p) i = None"
  shows "cache_inv C ok rows G D (w(key := x)) (s\<lparr>sc_partitions := AList.update key p' (sc_partitions s)\<rparr>)"
proof -
  note d = cache_invD[OF inv]
  let ?s = "s\<lparr>sc_partitions := AList.update key p' (sc_partitions s)\<rparr>"
  have "(\<exists>e. entry_at ?s k i e) \<longleftrightarrow> (\<exists>e. entry_at s k i e)" for k i
  proof (cases "k = key")
    case True
    then show ?thesis using same[of i] p by (auto simp: entry_at_def)
  next
    case False
    then show ?thesis by (simp add: entry_at_def)
  qed
  moreover have "part_inv C ok rows G ((w(key := x)) k) k (sc_next_id s) q"
    if "map_of (sc_partitions ?s) k = Some q" for k q
    using that p' d(1)[of k q] by (cases "k = key") simp_all
  ultimately show ?thesis unfolding cache_inv_def using d(2,3,4,5) by simp
qed

section \<open>Triples for the pieces\<close>

lemma triple_ex: "(\<And>x. triple (P x) m Q E) \<Longrightarrow> triple (\<lambda>s. \<exists>x. P x s) m Q E"
  unfolding triple_def by (intro allI impI) (elim exE, simp)

lemma triple_absurd: "(\<And>s. \<not> P s) \<Longrightarrow> triple P m Q E"
  by (simp add: triple_def)

lemma triple_pure: "(A \<Longrightarrow> triple P m Q E) \<Longrightarrow> triple (\<lambda>s. A \<and> P s) m Q E"
  by (cases A) (simp_all add: triple_def)

lemma triple_at_part:
  assumes "\<And>s p. P s \<Longrightarrow> map_of (sc_partitions s) key = Some p \<Longrightarrow> Q (f p) s"
    and "\<And>s. P s \<Longrightarrow> map_of (sc_partitions s) key = None \<Longrightarrow> E s"
  shows "triple P (at_part key f) Q E"
  using assms unfolding triple_def at_part_def bindS_def getS_def liftS_def by (auto split: option.splits)

lemma triple_set_part:
  assumes "\<And>s p. P s \<Longrightarrow> map_of (sc_partitions s) key = Some p \<Longrightarrow>
      Q () (s\<lparr>sc_partitions := AList.update key (f p) (sc_partitions s)\<rparr>)"
    and "\<And>s. P s \<Longrightarrow> map_of (sc_partitions s) key = None \<Longrightarrow> Q () s"
  shows "triple P (set_part key f) Q E"
  using assms unfolding triple_def set_part_def modifyS_def by (auto split: option.splits)

lemma triple_metric:
  assumes "\<And>s. P s \<Longrightarrow> Q () (s\<lparr>sc_metrics := f (sc_metrics s)\<rparr>)"
  shows "triple P (metric f) Q E"
  using assms unfolding metric_def by (rule triple_modify)

lemma triple_then_metric:
  assumes "\<And>s x. P s \<Longrightarrow> P (s\<lparr>sc_metrics := x\<rparr>)" "triple P m Q E"
  shows "triple P (bindS (metric f) (\<lambda>_. m)) Q E"
  by (rule triple_bind[OF triple_metric[where Q = "\<lambda>_. P"]]) (use assms in auto)

lemma triple_now:
  assumes "\<And>s. P s \<Longrightarrow> Q (cf_clock C (sc_ticks s)) (s\<lparr>sc_ticks := Suc (sc_ticks s)\<rparr>)"
  shows "triple P (now C) Q E"
  using assms by (simp add: triple_def now_def)

text \<open>Alive at some reading of the clock between two.\<close>

definition fresh :: "'i config \<Rightarrow> nat \<Rightarrow> nat \<Rightarrow> entry \<Rightarrow> bool" where
  "fresh C a b e \<longleftrightarrow> (case en_expires_at e of None \<Rightarrow> True | Some x \<Rightarrow> \<exists>n. a \<le> n \<and> n < b \<and> cf_clock C n < x)"

lemma fresh_later: "fresh C a b e \<Longrightarrow> b \<le> b' \<Longrightarrow> fresh C a b' e"
  unfolding fresh_def by (auto split: option.splits)

lemma triple_is_expired:
  assumes "\<And>s. P s \<Longrightarrow> n0 \<le> sc_ticks s" and frame: "\<And>s n. P s \<Longrightarrow> sc_ticks s \<le> n \<Longrightarrow> P (s\<lparr>sc_ticks := n\<rparr>)"
  shows "triple P (is_expired C e) (\<lambda>x s. P s \<and> (\<not> x \<longrightarrow> fresh C n0 (sc_ticks s) e)) E"
proof (cases "en_expires_at e")
  case None
  then show ?thesis by (simp add: is_expired_def fresh_def triple_def returnS_def)
next
  case (Some x)
  have "P s \<and> (\<not> x \<le> cf_clock C (sc_ticks s) \<longrightarrow> fresh C n0 (Suc (sc_ticks s)) e)" if "P s" for s
    using assms(1)[OF that] that Some by (auto simp: fresh_def intro!: exI[of _ "sc_ticks s"])
  then show ?thesis using frame
    by (auto simp: is_expired_def Some triple_def bindS_def now_def returnS_def)
qed

section \<open>Removing an entry\<close>

definition removed :: "'i config \<Rightarrow> partition_key \<Rightarrow> pystr \<Rightarrow> 'i cache \<Rightarrow> 'i cache" where
  "removed C key i s = (case map_of (sc_partitions s) key of None \<Rightarrow> s
     | Some p \<Rightarrow> s\<lparr>sc_partitions := AList.update key (drop_entry C i p) (sc_partitions s),
         sc_entry_partition := AList.delete i (sc_entry_partition s)\<rparr>)"

lemma triple_remove:
  assumes "\<And>s. P s \<Longrightarrow> \<exists>e. entry_at s key i e"
    and "\<And>s e. P s \<Longrightarrow> entry_at s key i e \<Longrightarrow> Q (Some e) (removed C key i s)"
  shows "triple P (remove_entry C key i) Q E"
  unfolding triple_def
proof (intro allI impI)
  fix s assume s: "P s"
  from assms(1)[OF s] obtain e p where e: "map_of (sc_partitions s) key = Some p" "map_of (pt_entries p) i = Some e"
    unfolding entry_at_def by blast
  have "remove_entry C key i s = (Inr (Some e), removed C key i s)"
    by (simp add: remove_entry_def bindS_def at_part_def getS_def liftS_def set_part_def modifyS_def returnS_def e removed_def)
  moreover have "Q (Some e) (removed C key i s)" using assms(2)[OF s] e unfolding entry_at_def by blast
  ultimately show "case remove_entry C key i s of (Inr x, t) \<Rightarrow> Q x t | (Inl er, t) \<Rightarrow> E t" by simp
qed

lemma removed_frame [simp]: "sc_next_id (removed C key i s) = sc_next_id s" "sc_ticks (removed C key i s) = sc_ticks s"
  by (simp_all add: removed_def split: option.split)

lemma entry_at_removed:
  "entry_at (removed C key i s) k j e \<longleftrightarrow> entry_at s k j e \<and> \<not> (k = key \<and> j = i)"
proof (cases "map_of (sc_partitions s) key")
  case None
  then show ?thesis by (auto simp: removed_def entry_at_def)
next
  case (Some p)
  then show ?thesis by (cases "k = key") (auto simp: removed_def entry_at_def drop_entry_def)
qed

context cache_index
begin

abbreviation inv where "inv G D w s \<equiv> cache_inv C ok rows G D w s"

abbreviation closed :: "partition_key \<Rightarrow> pystr \<Rightarrow> real list option" where "closed \<equiv> \<lambda>k x. None"

lemma removed_inv:
  assumes inv: "inv G D w s" and e: "entry_at s key i e" and w: "w key i = None"
  shows "inv G (insert i D) w (removed C key i s)"
proof -
  note d = cache_invD[OF inv]
  obtain p where p: "map_of (sc_partitions s) key = Some p" "map_of (pt_entries p) i = Some e"
    using e unfolding entry_at_def by blast
  have P: "map_of (sc_partitions (removed C key i s)) = (map_of (sc_partitions s))(key \<mapsto> drop_entry C i p)"
    and M: "map_of (sc_entry_partition (removed C key i s)) = (map_of (sc_entry_partition s))(i := None)"
    by (simp_all add: removed_def p)
  have "pinv G (w k) k (sc_next_id s) q" if "map_of (sc_partitions (removed C key i s)) k = Some q" for k q
    using that d(1)[of k q] drop_entry_inv[OF d(1)[OF p(1)] w] unfolding P by (cases "k = key") simp_all
  moreover have "map_of (sc_entry_partition (removed C key i s)) j = Some k \<longleftrightarrow> (\<exists>e. entry_at (removed C key i s) k j e)" for j k
  proof (cases "j = i")
    case True
    have "map_of (sc_entry_partition s) i = Some key" using d(2)[of i key] e by blast
    then have "\<not> entry_at s k i e'" if "k \<noteq> key" for e' using d(2)[of i k] that by auto
    then show ?thesis unfolding M entry_at_removed True by auto
  next
    case False
    then show ?thesis using d(2)[of j k] unfolding M entry_at_removed by simp
  qed
  moreover have "map_of (sc_entry_partition (removed C key i s)) j = None \<and> (\<exists>key m. j = id_of key m \<and> m < sc_next_id s)"
    if j: "j \<in> insert i D" for j
  proof (cases "j = i")
    case True
    have "entry_inv C G key (sc_next_id s) i e" by (rule part_invD(4)[OF d(1)[OF p(1)] p(2)])
    then obtain m where "m < sc_next_id s" "i = id_of key m" unfolding entry_inv_def by blast
    then have "\<exists>key m. i = id_of key m \<and> m < sc_next_id s" by blast
    then show ?thesis unfolding M True by simp
  next
    case False
    with j have "j \<in> D" by simp
    then show ?thesis using d(3,4)[of j] False unfolding M by simp
  qed
  moreover have "sc_shadow_log (removed C key i s) = sc_shadow_log s" by (simp add: removed_def p)
  ultimately show ?thesis using d(5) unfolding cache_inv_def by simp
qed

end

section \<open>Lookup\<close>

text \<open>What makes a stored query an answer to another one.\<close>

definition match_ok ::
  "'i config \<Rightarrow> (real list \<Rightarrow> real list \<Rightarrow> real) \<Rightarrow> pystr \<Rightarrow> pystr \<Rightarrow> real \<Rightarrow> pystr \<Rightarrow> bool" where
  "match_ok C sim query matched score why \<longleftrightarrow>
     (why = S ''exact'' \<and> score = 1 \<and> exact_hash C query = exact_hash C matched) \<or>
     (same_facts (cf_data C) query matched \<and> score = sim (vec_of C matched) (vec_of C query)
       \<and> \<not> flt_less (Fin score) (cf_tau_verify C)
       \<and> (why = S ''semantic'' \<and> flt_le (cf_tau_hit C) (Fin score)
          \<or> why = S ''semantic+verified'' \<and> cf_same_intent C query matched = Inr True))"

definition hit_ok ::
  "'i config \<Rightarrow> (real list \<Rightarrow> real list \<Rightarrow> real) \<Rightarrow> partition_key \<Rightarrow> pystr \<Rightarrow> nat \<Rightarrow> lookup_result \<Rightarrow> 'i cache \<Rightarrow> bool" where
  "hit_ok C sim key query n0 r s \<longleftrightarrow> (case r of
     Miss why score \<Rightarrow> True
   | Hit response score matched why i \<Rightarrow> \<exists>e. entry_at s key i e \<and> en_query e = matched \<and> en_response e = response
       \<and> fresh C n0 (sc_ticks s) e \<and> match_ok C sim query matched score why)"

lemma hit_ok_simps [simp]:
  "hit_ok C sim key query n0 (Miss why score) s"
  "hit_ok C sim key query n0 r (s\<lparr>sc_metrics := x\<rparr>) = hit_ok C sim key query n0 r s"
  by (simp_all add: hit_ok_def split: lookup_result.split)

context cache_index
begin

abbreviation at_rest where "at_rest G D n0 s \<equiv> inv G D closed s \<and> n0 \<le> sc_ticks s"

lemma id_at: "inv G D w s \<Longrightarrow> entry_at s key i e \<Longrightarrow> en_id e = i \<and> entry_inv C G key (sc_next_id s) i e"
  unfolding entry_at_def using cache_invD(1) part_invD(4) unfolding entry_inv_def by blast

lemma touch_part:
  assumes inv: "inv G D closed s" and e: "map_of (sc_partitions s) key = Some p" "i \<in> set (pt_order p)"
  shows "inv G D closed (s\<lparr>sc_partitions := AList.update key (p\<lparr>pt_order := moved_to_end i (pt_order p)\<rparr>) (sc_partitions s)\<rparr>)"
proof -
  have "inv G D (closed(key := \<lambda>x. None)) (s\<lparr>sc_partitions := AList.update key (p\<lparr>pt_order := moved_to_end i (pt_order p)\<rparr>) (sc_partitions s)\<rparr>)"
    by (rule put_part_inv[OF inv e(1) touch_inv[OF cache_invD(1)[OF inv e(1)] e(2)]]) simp
  then show ?thesis by (simp add: fun_upd_idem)
qed

lemma triple_touch_frame:
  "triple (\<lambda>s. at_rest G D n0 s \<and> entry_at s key i e \<and> F (sc_ticks s)) (touch key i)
     (\<lambda>_ s. at_rest G D n0 s \<and> entry_at s key i e \<and> F (sc_ticks s)) E"
    (is "triple ?P _ _ _")
  unfolding touch_def
proof (rule triple_bind)
  show "triple ?P (at_part key (\<lambda>p. i \<in> set (pt_order p))) (\<lambda>x s. x \<and> ?P s \<and>
      (\<exists>p. map_of (sc_partitions s) key = Some p \<and> i \<in> set (pt_order p))) E"
  proof (rule triple_at_part)
    fix s p assume s: "?P s" and p: "map_of (sc_partitions s) key = Some p"
    have "map_of (pt_entries p) i = Some e" using s p by (simp add: entry_at_def)
    then have "i \<in> set (pt_order p)"
      using part_invD(3)[OF cache_invD(1)[of C ok rows G D closed s key p]] keys_map_of[of i "pt_entries p"] s p by auto
    with s p show "i \<in> set (pt_order p) \<and> ?P s \<and> (\<exists>p. map_of (sc_partitions s) key = Some p \<and> i \<in> set (pt_order p))" by blast
  qed (auto simp: entry_at_def)
  have "?P (s\<lparr>sc_partitions := AList.update key (p\<lparr>pt_order := moved_to_end i (pt_order p)\<rparr>) (sc_partitions s)\<rparr>)"
    if s: "?P s" and p: "map_of (sc_partitions s) key = Some p" "i \<in> set (pt_order p)" for s p
    using touch_part[OF _ p, of G D] s p(1) by (simp add: entry_at_def)
  then show "triple (\<lambda>s. x \<and> ?P s \<and> (\<exists>p. map_of (sc_partitions s) key = Some p \<and> i \<in> set (pt_order p)))
      (if x then set_part key (\<lambda>p. p\<lparr>pt_order := moved_to_end i (pt_order p)\<rparr>) else raiseS KeyError) (\<lambda>_. ?P) E" for x
    by (cases x) (auto intro!: triple_set_part triple_raise)
qed

lemmas triple_touch = triple_touch_frame[where F = "\<lambda>b. fresh C a b e" for a e]

lemma triple_serve:
  "triple (\<lambda>s. at_rest G D n0 s \<and> entry_at s key i e \<and> fresh C n0 (sc_ticks s) e) (serve_hit key e i score why)
     (\<lambda>r s. at_rest G D n0 s \<and> entry_at s key i e \<and> fresh C n0 (sc_ticks s) e
       \<and> r = Hit (en_response e) score (en_query e) (S why) i) E"
  unfolding serve_hit_def
  by (rule triple_bind[OF triple_touch], rule triple_then_metric, simp, rule triple_return) (use id_at in blast)

lemma triple_refuse:
  assumes "\<And>s x. P s \<Longrightarrow> P (s\<lparr>sc_metrics := x\<rparr>)"
  shows "triple P (refuse why score) (\<lambda>r s. P s \<and> r = Miss why score) E"
  unfolding refuse_def count_miss_def
  by (rule triple_then_metric, erule assms, rule triple_return) simp

lemma triple_purge:
  "triple (\<lambda>s. at_rest G D n0 s \<and> entry_at s key i e \<and> (\<forall>k j e. entry_at s k j e \<longrightarrow> R k j e)) (purge_expired C key i)
     (\<lambda>_ s. at_rest G D n0 s \<and> (\<forall>k j e. entry_at s k j e \<longrightarrow> R k j e)) E"
  unfolding purge_expired_def
proof (rule triple_bind, rule triple_remove)
  fix s e' assume "at_rest G D n0 s \<and> entry_at s key i e \<and> (\<forall>k j e. entry_at s k j e \<longrightarrow> R k j e)" "entry_at s key i e'"
  then show "Some e' \<noteq> None \<and> at_rest G D n0 (removed C key i s) \<and> (\<forall>k j e. entry_at (removed C key i s) k j e \<longrightarrow> R k j e)"
    using cache_inv_less[OF removed_inv[of G D closed s key i e'], of D] by (simp add: entry_at_removed subset_insertI)
qed (auto intro!: triple_metric triple_return)

abbreviation at_ease where "at_ease G D s \<equiv> inv G D closed s"

abbreviation candidate where
  "candidate G D n0 key i e s \<equiv> at_rest G D n0 s \<and> entry_at s key i e \<and> fresh C n0 (sc_ticks s) e"

lemma triple_first_live:
  "triple (\<lambda>s. at_rest G D n0 s \<and> (\<forall>k j e. entry_at s k j e \<longrightarrow> R k j e)) (first_live C key cs)
     (\<lambda>r s. case r of None \<Rightarrow> at_rest G D n0 s
       | Some (i, score) \<Rightarrow> (i, score) \<in> set cs \<and> (\<exists>e. R key i e \<and> candidate G D n0 key i e s)) (at_ease G D)"
proof (induction cs)
  case Nil
  show ?case unfolding first_live.simps by (rule triple_return) simp
next
  case (Cons c cs)
  obtain i score where c: "c = (i, score)" by (cases c)
  let ?P = "\<lambda>s. at_rest G D n0 s \<and> (\<forall>k j e. entry_at s k j e \<longrightarrow> R k j e)"
  let ?Q = "\<lambda>cs r s. case r of None \<Rightarrow> at_rest G D n0 s
       | Some (i, score) \<Rightarrow> (i, score) \<in> set cs \<and> (\<exists>e. R key i e \<and> candidate G D n0 key i e s)"
  have rest: "triple ?P (first_live C key cs) (?Q (c # cs)) (at_ease G D)"
    by (rule triple_weaken[OF Cons.IH]) (auto split: option.splits)
  have alive: "triple (\<lambda>s. ?P s \<and> entry_at s key i e)
      (bindS (is_expired C e) (\<lambda>expired.
         if expired then bindS (purge_expired C key i) (\<lambda>_. first_live C key cs) else returnS (Some (i, score))))
      (?Q (c # cs)) (at_ease G D)" for e
  proof (rule triple_bind[OF triple_is_expired[where ?n0.0 = n0]])
    show "triple (\<lambda>s. (?P s \<and> entry_at s key i e) \<and> (\<not> x \<longrightarrow> fresh C n0 (sc_ticks s) e))
        (if x then bindS (purge_expired C key i) (\<lambda>_. first_live C key cs) else returnS (Some (i, score)))
        (?Q (c # cs)) (at_ease G D)" for x
    proof (cases x)
      case True
      have "triple (\<lambda>s. at_rest G D n0 s \<and> entry_at s key i e \<and> (\<forall>k j e. entry_at s k j e \<longrightarrow> R k j e))
          (bindS (purge_expired C key i) (\<lambda>_. first_live C key cs)) (?Q (c # cs)) (at_ease G D)"
        by (rule triple_bind[OF triple_purge rest])
      then show ?thesis using True by (auto intro: triple_weaken)
    next
      case False
      have "\<exists>e. R key i e \<and> candidate G D n0 key i e s"
        if "(?P s \<and> entry_at s key i e) \<and> (\<not> x \<longrightarrow> fresh C n0 (sc_ticks s) e)" for s
        using that False by blast
      then have "triple (\<lambda>s. (?P s \<and> entry_at s key i e) \<and> (\<not> x \<longrightarrow> fresh C n0 (sc_ticks s) e))
          (returnS (Some (i, score))) (?Q (c # cs)) (at_ease G D)"
        by (intro triple_return) (simp add: c del: split_paired_All)
      then show ?thesis using False by (simp only: if_False)
    qed
  qed auto
  show ?case
    unfolding c first_live.simps
    by (rule triple_bind[OF triple_at_part[where Q = "\<lambda>x s. ?P s \<and> (\<forall>e. x = Some e \<longrightarrow> entry_at s key i e)"]])
      (auto simp: entry_at_def[abs_def] split: option.split
        intro: triple_weaken[OF rest[unfolded c]] triple_weaken[OF alive[unfolded c]])
qed

lemma triple_hit:
  assumes "match_ok C sim query (en_query e) score (S why)"
  shows "triple (candidate G D n0 key i e) (serve_hit key e i score why)
     (\<lambda>r s. at_rest G D n0 s \<and> hit_ok C sim key query n0 r s) E"
  by (rule triple_weaken[OF triple_serve]) (use assms in \<open>auto simp: hit_ok_def\<close>)

lemma triple_miss:
  "triple (candidate G D n0 key i e) (refuse why score) (\<lambda>r s. at_rest G D n0 s \<and> hit_ok C sim key query n0 r s) E"
  "triple (at_rest G D n0) (refuse why score) (\<lambda>r s. at_rest G D n0 s \<and> hit_ok C sim key query n0 r s) E"
  by (rule triple_weaken[OF triple_refuse]; simp)+

text \<open>A found entry, or none: reading the candidate of a partition.\<close>

lemma triple_found:
  assumes some: "\<And>e. triple (\<lambda>s. P s \<and> entry_at s key i e) (f (Some e)) Q E"
    and none: "triple (\<lambda>s. P s \<and> (\<forall>e. \<not> entry_at s key i e)) (f None) Q E" and err: "\<And>s. P s \<Longrightarrow> E s"
  shows "triple P (bindS (at_part key (\<lambda>p. map_of (pt_entries p) i)) f) Q E"
proof (rule triple_bind)
  show "triple P (at_part key (\<lambda>p. map_of (pt_entries p) i)) (\<lambda>x s. P s \<and> (\<forall>e. x = Some e \<longleftrightarrow> entry_at s key i e)) E"
    by (rule triple_at_part) (auto simp: entry_at_def err)
  show "triple (\<lambda>s. P s \<and> (\<forall>e. x = Some e \<longleftrightarrow> entry_at s key i e)) (f x) Q E" for x
  proof (cases x)
    case (Some e)
    show ?thesis unfolding Some by (rule triple_weaken[OF some[of e]]) auto
  qed (simp add: none)
qed

lemma triple_verifier:
  assumes "same_facts (cf_data C) query (en_query e)" "\<not> flt_less (Fin score) (cf_tau_verify C)"
    and "score = sim (vec_of C (en_query e)) (vec_of C query)"
  shows "triple (candidate G D n0 key i e) (ask_verifier C key query i score e)
    (\<lambda>r s. at_rest G D n0 s \<and> hit_ok C sim key query n0 r s) (at_ease G D)"
    (is "triple ?P _ ?Q ?E")
  unfolding ask_verifier_def
proof (rule triple_then_metric, simp, rule triple_bind)
  show "triple ?P (liftS (cf_same_intent C query (en_query e)))
      (\<lambda>same s. cf_same_intent C query (en_query e) = Inr same \<and> ?P s) ?E"
    by (rule triple_lift) (simp split: sum.split)
  show "triple (\<lambda>s. cf_same_intent C query (en_query e) = Inr same \<and> ?P s)
      (if same then serve_hit key e i score ''semantic+verified'' else refuse (S ''verifier_rejected'') (Some score)) ?Q ?E" for same
  proof (rule triple_pure)
    assume same: "cf_same_intent C query (en_query e) = Inr same"
    have "triple ?P (serve_hit key e i score ''semantic+verified'') ?Q ?E" if same
      by (rule triple_hit) (use same that assms in \<open>simp add: match_ok_def\<close>)
    then show "triple ?P (if same then serve_hit key e i score ''semantic+verified''
        else refuse (S ''verifier_rejected'') (Some score)) ?Q ?E"
      using triple_miss(1) by (cases same) simp_all
  qed
qed

lemma triple_judge_entry:
  assumes "score = sim (vec_of C (en_query e)) (vec_of C query)"
  shows "triple (candidate G D n0 key i e) (judge_entry C key query i score e)
    (\<lambda>r s. at_rest G D n0 s \<and> hit_ok C sim key query n0 r s) (at_ease G D)"
    (is "triple ?P _ ?Q ?E")
proof (cases "flt_less (Fin score) (cf_tau_verify C)")
  case True
  then show ?thesis unfolding judge_entry_def by (simp only: if_True triple_miss(1))
next
  case high: False
  show ?thesis
  proof (cases "first_failure (cf_data C) query (en_query e)")
    case (Some g)
    obtain name why where g: "g = (name, why)" by (cases g)
    have "triple ?P (bindS (metric f) (\<lambda>_. bindS (count_miss k) (\<lambda>_. returnS (Miss y x)))) ?Q ?E" for f k y x
      unfolding count_miss_def
      by (rule triple_then_metric, simp, rule triple_then_metric, simp, rule triple_return) simp
    then show ?thesis by (simp only: judge_entry_def high Some g if_False option.case prod.case)
  next
    case None
    then have facts: "same_facts (cf_data C) query (en_query e)" by (simp add: first_failure_None)
    have "triple ?P (serve_hit key e i score ''semantic'') ?Q ?E" if "flt_le (cf_tau_hit C) (Fin score)"
      by (rule triple_hit) (use that facts high assms in \<open>simp add: match_ok_def\<close>)
    then show ?thesis using triple_verifier[OF facts high assms]
      by (simp only: judge_entry_def high None if_False option.case split: if_split) blast
  qed
qed

lemma triple_judge:
  assumes score: "\<And>e. R key i e \<Longrightarrow> score = sim (vec_of C (en_query e)) (vec_of C query)"
  shows "triple (\<lambda>s. \<exists>e. R key i e \<and> candidate G D n0 key i e s) (judge_candidate C key query i score)
    (\<lambda>r s. at_rest G D n0 s \<and> hit_ok C sim key query n0 r s) (at_ease G D)"
  unfolding judge_candidate_def
proof (rule triple_ex, rule triple_pure, rule triple_found)
  fix e e' assume R: "R key i e"
  show "triple (\<lambda>s. candidate G D n0 key i e s \<and> entry_at s key i e')
      (case Some e' of None \<Rightarrow> raiseS KeyError | Some e \<Rightarrow> judge_entry C key query i score e)
      (\<lambda>r s. at_rest G D n0 s \<and> hit_ok C sim key query n0 r s) (at_ease G D)"
  proof (cases "e' = e")
    case True
    show ?thesis unfolding True option.case by (rule triple_weaken[OF triple_judge_entry[OF score[OF R]]]) blast+
  next
    case False
    then show ?thesis by (intro triple_absurd) (auto simp: entry_at_def)
  qed
qed (auto intro!: triple_raise)

lemma search_scores:
  assumes inv: "inv G D closed s" and p: "map_of (sc_partitions s) key = Some p"
    and rs: "io_search (cf_ops C) (pt_index p) v k = Inr rs" and e: "entry_at s key i e" and i: "(i, score) \<in> set rs"
  shows "score = sim (vec_of C (en_query e)) (map fin_val v)"
proof -
  note d = part_invD[OF cache_invD(1)[OF inv p]]
  obtain r where "rows (pt_index p) i = Some r" "score = sim r (map fin_val v)" using search_ok[OF d(6) rs i] by blast
  with d(7)[of i] e p show ?thesis by (simp add: entry_at_def)
qed

lemma triple_semantic:
  "triple (at_rest G D n0) (semantic_lookup C key query)
    (\<lambda>r s. at_rest G D n0 s \<and> hit_ok C sim key query n0 r s) (at_ease G D)"
    (is "triple ?P _ ?Q ?E")
  unfolding semantic_lookup_def
proof (rule triple_bind)
  show "triple ?P (at_part key pt_entries) (\<lambda>_. ?P) ?E" by (rule triple_at_part) auto
  fix es :: "(pystr \<times> entry) list"
  let ?R = "\<lambda>rs k i e. \<forall>score. k = key \<longrightarrow> (i, score) \<in> set rs \<longrightarrow> score = sim (vec_of C (en_query e)) (vec_of C query)"
  have best: "triple (\<lambda>s. case r of None \<Rightarrow> ?P s
       | Some (i, score) \<Rightarrow> (i, score) \<in> set rs \<and> (\<exists>e. ?R rs key i e \<and> candidate G D n0 key i e s))
      (case r of None \<Rightarrow> refuse (S ''no_live_candidates'') None
         | Some (cand_id, score) \<Rightarrow> judge_candidate C key query cand_id score) ?Q ?E" for r rs
  proof (cases r)
    case None
    then show ?thesis by (simp only: option.case triple_miss(2))
  next
    case (Some c)
    obtain i score where c: "c = (i, score)" by (cases c)
    show ?thesis
      unfolding Some c option.case prod.case
      by (rule triple_pure, rule triple_weaken[OF triple_judge[of "?R rs"]]) auto
  qed
  have walk_on: "triple (\<lambda>s. ?P s \<and> (\<forall>k j e. entry_at s k j e \<longrightarrow> ?R rs k j e))
      (bindS (first_live C key rs) (\<lambda>best. case best of
           None \<Rightarrow> refuse (S ''no_live_candidates'') None
         | Some (cand_id, score) \<Rightarrow> judge_candidate C key query cand_id score)) ?Q ?E" for rs
    by (rule triple_bind[OF triple_first_live[where R = "?R rs"]]) (rule best)
  have search: "triple (\<lambda>s. ?P s \<and> (\<exists>p. map_of (sc_partitions s) key = Some p \<and> ix = pt_index p))
      (liftS (io_search (cf_ops C) ix v (cf_top_k C))) (\<lambda>rs s. ?P s \<and> (\<forall>k j e. entry_at s k j e \<longrightarrow> ?R rs k j e)) ?E"
    if v: "cf_embed C query = Inr v" for ix v
  proof (rule triple_lift)
    fix s assume s: "?P s \<and> (\<exists>p. map_of (sc_partitions s) key = Some p \<and> ix = pt_index p)"
    then obtain p where p: "map_of (sc_partitions s) key = Some p" "ix = pt_index p" by blast
    have q: "vec_of C query = map fin_val v" by (simp add: vec_of_def v)
    show "case io_search (cf_ops C) ix v (cf_top_k C) of Inr rs \<Rightarrow> ?P s \<and> (\<forall>k j e. entry_at s k j e \<longrightarrow> ?R rs k j e) | Inl er \<Rightarrow> ?E s"
    proof (cases "io_search (cf_ops C) ix v (cf_top_k C)")
      case (Inr rs)
      have "?R rs k j e" if "entry_at s k j e" for k j e
        using search_scores[OF _ p(1) Inr[unfolded p(2)], of G D j e] s that unfolding q by blast
      with Inr s show ?thesis by simp
    qed (use s in simp)
  qed
  have some: "triple ?P (bindS (liftS (cf_embed C query)) (\<lambda>v.
         bindS (at_part key pt_index) (\<lambda>ix.
         bindS (liftS (io_search (cf_ops C) ix v (cf_top_k C))) (\<lambda>candidates.
         bindS (first_live C key candidates) (\<lambda>best. case best of
           None \<Rightarrow> refuse (S ''no_live_candidates'') None
         | Some (cand_id, score) \<Rightarrow> judge_candidate C key query cand_id score))))) ?Q ?E"
  proof (rule triple_bind[where R = "\<lambda>v s. cf_embed C query = Inr v \<and> ?P s"])
    show "triple ?P (liftS (cf_embed C query)) (\<lambda>v s. cf_embed C query = Inr v \<and> ?P s) ?E"
      by (rule triple_lift) (simp split: sum.split)
    show "triple (\<lambda>s. cf_embed C query = Inr v \<and> ?P s) (bindS (at_part key pt_index) (\<lambda>ix.
         bindS (liftS (io_search (cf_ops C) ix v (cf_top_k C))) (\<lambda>candidates.
         bindS (first_live C key candidates) (\<lambda>best. case best of
           None \<Rightarrow> refuse (S ''no_live_candidates'') None
         | Some (cand_id, score) \<Rightarrow> judge_candidate C key query cand_id score)))) ?Q ?E" for v
      by (rule triple_pure, rule triple_bind[OF triple_at_part triple_bind[OF search walk_on]]) auto
  qed
  then show "triple ?P (if es = [] then refuse (S ''empty_partition'') None else bindS (liftS (cf_embed C query)) (\<lambda>v.
         bindS (at_part key pt_index) (\<lambda>ix.
         bindS (liftS (io_search (cf_ops C) ix v (cf_top_k C))) (\<lambda>candidates.
         bindS (first_live C key candidates) (\<lambda>best. case best of
           None \<Rightarrow> refuse (S ''no_live_candidates'') None
         | Some (cand_id, score) \<Rightarrow> judge_candidate C key query cand_id score))))) ?Q ?E"
    using triple_miss(2) by (cases "es = []") simp_all
qed

lemma exact_found:
  assumes inv: "inv G D closed s" and p: "map_of (sc_partitions s) key = Some p" and h: "map_of (pt_exact p) h = Some i"
  shows "\<exists>e. entry_at s key i e \<and> map_of (pt_entries p) i = Some e \<and> exact_hash C (en_query e) = Inr h"
proof -
  note d = part_invD[OF cache_invD(1)[OF inv p]]
  from d(5)[of h i] h obtain e where "map_of (pt_entries p) i = Some e" "en_hash e = h" by blast
  with d(4)[of i e] p show ?thesis by (auto simp: entry_inv_def entry_at_def)
qed

lemma triple_exact_entry:
  assumes "exact_hash C query = Inr h" "exact_hash C (en_query e) = Inr h"
  shows "triple (\<lambda>s. at_rest G D n0 s \<and> entry_at s key i e) (bindS (is_expired C e) (\<lambda>expired.
       if expired then bindS (purge_expired C key i) (\<lambda>_. returnS None)
       else bindS (touch key i) (\<lambda>_.
         bindS (metric (\<lambda>m. m\<lparr>mx_hits_exact := Suc (mx_hits_exact m)\<rparr>)) (\<lambda>_.
         returnS (Some (Hit (en_response e) 1 (en_query e) (S ''exact'') (en_id e)))))))
     (\<lambda>r s. at_rest G D n0 s \<and> (\<forall>x. r = Some x \<longrightarrow> hit_ok C sim key query n0 x s)) (at_ease G D)"
    (is "triple ?P _ ?Q ?E")
proof (rule triple_bind[OF triple_is_expired[where ?n0.0 = n0]])
  have served: "triple (candidate G D n0 key i e) (bindS (touch key i) (\<lambda>_.
         bindS (metric (\<lambda>m. m\<lparr>mx_hits_exact := Suc (mx_hits_exact m)\<rparr>)) (\<lambda>_.
         returnS (Some (Hit (en_response e) 1 (en_query e) (S ''exact'') (en_id e)))))) ?Q ?E"
    by (rule triple_bind[OF triple_touch], rule triple_then_metric, simp, rule triple_return)
      (use assms in \<open>auto simp: hit_ok_def match_ok_def id_at\<close>)
  have purged: "triple (\<lambda>s. at_rest G D n0 s \<and> entry_at s key i e \<and> (\<forall>k j e. entry_at s k j e \<longrightarrow> True))
      (bindS (purge_expired C key i) (\<lambda>_. returnS None)) ?Q ?E"
    by (rule triple_bind[OF triple_purge[where R = "\<lambda>k j e. True"]], rule triple_return) simp
  show "triple (\<lambda>s. ?P s \<and> (\<not> x \<longrightarrow> fresh C n0 (sc_ticks s) e))
      (if x then bindS (purge_expired C key i) (\<lambda>_. returnS None)
       else bindS (touch key i) (\<lambda>_.
         bindS (metric (\<lambda>m. m\<lparr>mx_hits_exact := Suc (mx_hits_exact m)\<rparr>)) (\<lambda>_.
         returnS (Some (Hit (en_response e) 1 (en_query e) (S ''exact'') (en_id e)))))) ?Q ?E" for x
  proof (cases x)
    case True
    then show ?thesis using purged by simp
  next
    case False
    then show ?thesis by (simp only: if_False) (rule triple_weaken[OF served], auto)
  qed
qed auto

lemma triple_exact:
  "triple (at_rest G D n0) (exact_lookup C key query)
    (\<lambda>r s. at_rest G D n0 s \<and> (\<forall>x. r = Some x \<longrightarrow> hit_ok C sim key query n0 x s)) (at_ease G D)"
    (is "triple ?P _ ?Q ?E")
  unfolding exact_lookup_def
proof (rule triple_bind[where R = "\<lambda>h s. exact_hash C query = Inr h \<and> ?P s"])
  show "triple ?P (liftS (exact_hash C query)) (\<lambda>h s. exact_hash C query = Inr h \<and> ?P s) ?E"
    by (rule triple_lift) (simp split: sum.split)
  fix h
  let ?f = "\<lambda>p. case map_of (pt_exact p) h of Some i \<Rightarrow> map_option (Pair i) (map_of (pt_entries p) i) | None \<Rightarrow> None"
  let ?R = "\<lambda>r s. ?P s \<and> (\<forall>i e. r = Some (i, e) \<longrightarrow> entry_at s key i e \<and> exact_hash C (en_query e) = Inr h)"
  have found: "?R (?f p) s" if s: "?P s" and p: "map_of (sc_partitions s) key = Some p" for s p
  proof (cases "map_of (pt_exact p) h")
    case (Some i)
    with exact_found[OF _ p Some, of G D] s show ?thesis by auto
  qed (use s in simp)
  show "triple (\<lambda>s. exact_hash C query = Inr h \<and> ?P s) (bindS (at_part key ?f) (\<lambda>hit. case hit of
       None \<Rightarrow> returnS None
     | Some (exact_id, e) \<Rightarrow>
         bindS (is_expired C e) (\<lambda>expired.
           if expired then bindS (purge_expired C key exact_id) (\<lambda>_. returnS None)
           else
             bindS (touch key exact_id) (\<lambda>_.
             bindS (metric (\<lambda>m. m\<lparr>mx_hits_exact := Suc (mx_hits_exact m)\<rparr>)) (\<lambda>_.
             returnS (Some (Hit (en_response e) 1 (en_query e) (S ''exact'') (en_id e)))))))) ?Q ?E"
  proof (rule triple_pure, rule triple_bind)
    assume h: "exact_hash C query = Inr h"
    show "triple ?P (at_part key ?f) ?R ?E" by (rule triple_at_part, erule (1) found) simp
    show "triple (?R r) (case r of
       None \<Rightarrow> returnS None
     | Some (exact_id, e) \<Rightarrow>
         bindS (is_expired C e) (\<lambda>expired.
           if expired then bindS (purge_expired C key exact_id) (\<lambda>_. returnS None)
           else
             bindS (touch key exact_id) (\<lambda>_.
             bindS (metric (\<lambda>m. m\<lparr>mx_hits_exact := Suc (mx_hits_exact m)\<rparr>)) (\<lambda>_.
             returnS (Some (Hit (en_response e) 1 (en_query e) (S ''exact'') (en_id e))))))) ?Q ?E" for r
    proof (cases r)
      case None
      then show ?thesis by (auto intro!: triple_return)
    next
      case (Some c)
      obtain i e where c: "c = (i, e)" by (cases c)
      show ?thesis
      proof (cases "exact_hash C (en_query e) = Inr h")
        case True
        show ?thesis unfolding Some c option.case prod.case
          by (rule triple_weaken[OF triple_exact_entry[OF h True]]) auto
      qed (auto simp: Some c intro: triple_absurd)
    qed
  qed
qed

lemma triple_internal:
  "triple (at_rest G D n0) (lookup_internal C query ctx has_tools temperature)
    (\<lambda>r s. at_rest G D n0 s \<and> hit_ok C sim (partition_key_for C ctx) query n0 r s) (at_ease G D)"
    (is "triple ?P _ ?Q ?E")
proof -
  let ?key = "partition_key_for C ctx"
  have go: "triple ?P (bindS (exact_lookup C ?key query) (\<lambda>hit. case hit of
      Some r \<Rightarrow> returnS r | None \<Rightarrow> semantic_lookup C ?key query)) ?Q ?E"
    by (rule triple_bind[OF triple_exact])
      (auto split: option.split intro!: triple_return triple_weaken[OF triple_semantic])
  have "triple ?P (bindS (getS (\<lambda>st. case map_of (sc_partitions st) ?key of None \<Rightarrow> True | Some p \<Rightarrow> pt_entries p = []))
      (\<lambda>empty. if empty then refuse (S ''empty_partition'') None
        else bindS (exact_lookup C ?key query) (\<lambda>hit. case hit of
          Some r \<Rightarrow> returnS r | None \<Rightarrow> semantic_lookup C ?key query))) ?Q ?E"
  proof (rule triple_bind[OF triple_get[where Q = "\<lambda>_. ?P"]])
    show "triple ?P (if x then refuse (S ''empty_partition'') None
        else bindS (exact_lookup C ?key query) (\<lambda>hit. case hit of
          Some r \<Rightarrow> returnS r | None \<Rightarrow> semantic_lookup C ?key query)) ?Q ?E" for x :: bool
      using triple_miss(2) go by (cases x) simp_all
  qed
  then show ?thesis using triple_miss(2) unfolding lookup_internal_def Let_def by (simp split: if_split)
qed

lemma triple_log:
  "triple (at_rest G D n0) (log_shadow C query ctx r) (\<lambda>_. at_rest G D n0) E"
  unfolding log_shadow_def
proof (rule triple_bind[OF triple_now[where Q = "\<lambda>_. at_rest G D n0"]], simp, rule triple_modify)
  fix s t assume "at_rest G D n0 s"
  moreover have "length (drop (length l - n) l) \<le> n" for l :: "shadow_log_entry list" and n by simp
  ultimately show "at_rest G D n0 (let l = sc_shadow_log s @ [\<lparr>sl_at = t, sl_query = query, sl_ctx = ctx, sl_would_be = r\<rparr>]
      in s\<lparr>sc_shadow_log := drop (length l - nat (cf_shadow_log_capacity C)) l\<rparr>)"
    unfolding Let_def cache_inv_def by simp
qed

lemma triple_lookup:
  "triple (at_rest G D n0) (lookup C query ctx has_tools temperature)
    (\<lambda>r s. at_rest G D n0 s \<and> hit_ok C sim (partition_key_for C ctx) query n0 r s
      \<and> (\<forall>a b c d e. r = Hit a b c d e \<longrightarrow> cf_mode C \<noteq> S ''shadow'' \<and> pd_cacheable (cacheable C query ctx has_tools temperature)))
    (at_ease G D)"
    (is "triple ?P _ ?Q ?E")
proof (cases "pd_cacheable (cacheable C query ctx has_tools temperature)")
  case False
  show ?thesis unfolding lookup_def Let_def
    by (simp only: False not_False_eq_True if_True) (rule triple_weaken[OF triple_refuse[where P = ?P]], auto)
next
  case ok: True
  let ?H = "\<lambda>r s. at_rest G D n0 s \<and> hit_ok C sim (partition_key_for C ctx) query n0 r s"
  have shadow: "triple (?H r) (bindS (log_shadow C query ctx r) (\<lambda>_. case r of
            Hit response score matched why i \<Rightarrow>
              bindS (metric (\<lambda>m. m\<lparr>mx_shadow_would_hit := Suc (mx_shadow_would_hit m)\<rparr>)) (\<lambda>_.
              returnS (Miss (S ''shadow_mode'') (Some score)))
          | Miss why score \<Rightarrow>
              bindS (metric (\<lambda>m. m\<lparr>mx_shadow_would_miss := Suc (mx_shadow_would_miss m)\<rparr>)) (\<lambda>_. returnS r))) ?Q ?E" for r
  proof (rule triple_weaken)
    have "triple ?P (case r of
            Hit response score matched why i \<Rightarrow>
              bindS (metric (\<lambda>m. m\<lparr>mx_shadow_would_hit := Suc (mx_shadow_would_hit m)\<rparr>)) (\<lambda>_.
              returnS (Miss (S ''shadow_mode'') (Some score)))
          | Miss why score \<Rightarrow>
              bindS (metric (\<lambda>m. m\<lparr>mx_shadow_would_miss := Suc (mx_shadow_would_miss m)\<rparr>)) (\<lambda>_. returnS r)) ?Q ?E"
      by (cases r) (auto intro!: triple_then_metric triple_return)
    then show "triple ?P (bindS (log_shadow C query ctx r) (\<lambda>_. case r of
            Hit response score matched why i \<Rightarrow>
              bindS (metric (\<lambda>m. m\<lparr>mx_shadow_would_hit := Suc (mx_shadow_would_hit m)\<rparr>)) (\<lambda>_.
              returnS (Miss (S ''shadow_mode'') (Some score)))
          | Miss why score \<Rightarrow>
              bindS (metric (\<lambda>m. m\<lparr>mx_shadow_would_miss := Suc (mx_shadow_would_miss m)\<rparr>)) (\<lambda>_. returnS r))) ?Q ?E"
      by (rule triple_bind[OF triple_log])
  qed auto
  show ?thesis
    unfolding lookup_def Let_def
    by (simp only: ok not_True_eq_False if_False)
      (rule triple_bind[OF triple_internal], use shadow in \<open>auto intro!: triple_return simp: ok\<close>)
qed

end

end
