(* ===== verification/Semantic_Store.thy ===== *)
theory Semantic_Store
  imports Semantic_Safety
begin

text \<open>
  The writing operations of the semantic cache keep its invariant, and sessions of calls: every
  hit goes back to a successful \<open>store\<close> of the same partition, a rejected answer never returns,
  the partitions stay within their capacity.
\<close>

section \<open>Store\<close>

text \<open>The provenance after a successful store.\<close>

definition plus_stored :: "provenance \<Rightarrow> partition_key \<Rightarrow> pystr \<Rightarrow> json \<Rightarrow> pystr option \<Rightarrow> provenance" where
  "plus_stored G key query response res k i q r \<longleftrightarrow>
     G k i q r \<or> (res = Some i \<and> k = key \<and> q = query \<and> r = response)"

lemma plus_stored_None [simp]: "plus_stored G key query response None = G"
  by (simp add: plus_stored_def fun_eq_iff)

context cache_index
begin

abbreviation window :: "partition_key \<Rightarrow> pystr \<Rightarrow> real list \<Rightarrow> partition_key \<Rightarrow> pystr \<Rightarrow> real list option" where
  "window key i v \<equiv> closed(key := [i \<mapsto> v])"

lemma plus_mono: "inv G D w s \<Longrightarrow> inv (plus_stored G key q r res) D w s"
  using cache_inv_mono[of C ok rows G D w s "sc_next_id s" "plus_stored G key q r res" D] by (simp add: plus_stored_def)

lemma triple_lifted: "(\<And>s. P s \<Longrightarrow> E s) \<Longrightarrow> triple P (liftS r) (\<lambda>x s. r = Inr x \<and> P s) E"
  by (rule triple_lift) (simp split: sum.split)

text \<open>A partition that is known, with what its entries and its exact map are known to be.\<close>

definition part_at :: "'i cache \<Rightarrow> partition_key \<Rightarrow> ((pystr \<times> entry) list \<Rightarrow> (pystr \<times> pystr) list \<Rightarrow> bool) \<Rightarrow> bool" where
  "part_at s key T \<longleftrightarrow> (\<exists>p. map_of (sc_partitions s) key = Some p \<and> T (pt_entries p) (pt_exact p))"

lemma part_at_frame [simp]:
  "part_at (s\<lparr>sc_metrics := x\<rparr>) = part_at s" "part_at (s\<lparr>sc_ticks := n\<rparr>) = part_at s"
  "part_at (s\<lparr>sc_next_id := n\<rparr>) = part_at s" "part_at (s\<lparr>sc_entry_partition := m\<rparr>) = part_at s"
  by (simp_all add: fun_eq_iff part_at_def)

lemma triple_create:
  assumes "1 \<le> cf_capacity C"
  shows "triple (at_ease G D) (get_or_create_partition C key) (\<lambda>_ s. at_ease G D s \<and> part_at s key (\<lambda>_ _. True)) E"
  unfolding get_or_create_partition_def
proof (rule triple_modify)
  fix s assume s: "at_ease G D s"
  let ?s = "s\<lparr>sc_partitions := AList.update key (new_partition C key) (sc_partitions s)\<rparr>"
  note d = cache_invD[OF s]
  show "at_ease G D (if map_of (sc_partitions s) key \<noteq> None then s else ?s) \<and>
      part_at (if map_of (sc_partitions s) key \<noteq> None then s else ?s) key (\<lambda>_ _. True)"
  proof (cases "map_of (sc_partitions s) key")
    case None
    have at: "entry_at ?s k i e \<longleftrightarrow> entry_at s k i e" for k i e
      using None by (cases "k = key") (simp_all add: entry_at_def new_partition_def)
    have "pinv G (\<lambda>x. None) k (sc_next_id s) q" if "map_of (sc_partitions ?s) k = Some q" for k q
      using that d(1)[of k q] new_partition_inv[OF assms, of G key] by (cases "k = key") auto
    then have "at_ease G D ?s" unfolding cache_inv_def at using d(2-5) by simp
    then show ?thesis by (simp add: None part_at_def)
  qed (use s in \<open>simp add: part_at_def\<close>)
qed

lemma triple_index_add:
  "triple (\<lambda>s. at_ease G D s \<and> part_at s key T \<and> U (sc_next_id s) \<and> (\<forall>k j e. entry_at s k j e \<longrightarrow> R k j e)) (index_add_at C key i v)
     (\<lambda>_ s. inv G D (window key i (map fin_val v)) s \<and> part_at s key T \<and> U (sc_next_id s) \<and> (\<forall>k j e. entry_at s k j e \<longrightarrow> R k j e))
     (at_ease G D)"
    (is "triple ?P _ ?Q ?E")
  unfolding index_add_at_def
proof (rule triple_bind)
  show "triple ?P (at_part key pt_index)
      (\<lambda>ix s. ?P s \<and> (\<exists>p. map_of (sc_partitions s) key = Some p \<and> pt_index p = ix)) ?E"
    by (rule triple_at_part) auto
  fix ix
  show "triple (\<lambda>s. ?P s \<and> (\<exists>p. map_of (sc_partitions s) key = Some p \<and> pt_index p = ix))
      (bindS (liftS (io_add (cf_ops C) ix i v)) (\<lambda>ix'. set_part key (\<lambda>p. p\<lparr>pt_index := ix'\<rparr>))) ?Q ?E"
  proof (rule triple_bind)
    show "triple (\<lambda>s. ?P s \<and> (\<exists>p. map_of (sc_partitions s) key = Some p \<and> pt_index p = ix)) (liftS (io_add (cf_ops C) ix i v))
        (\<lambda>ix' s. io_add (cf_ops C) ix i v = Inr ix' \<and> ?P s \<and> (\<exists>p. map_of (sc_partitions s) key = Some p \<and> pt_index p = ix)) ?E"
      by (rule triple_lift) (auto split: sum.split)
    fix ix'
    show "triple (\<lambda>s. io_add (cf_ops C) ix i v = Inr ix' \<and> ?P s \<and> (\<exists>p. map_of (sc_partitions s) key = Some p \<and> pt_index p = ix))
        (set_part key (\<lambda>p. p\<lparr>pt_index := ix'\<rparr>)) ?Q ?E"
    proof (rule triple_pure, rule triple_set_part)
      assume add: "io_add (cf_ops C) ix i v = Inr ix'"
      fix s p
      assume s: "?P s \<and> (\<exists>p. map_of (sc_partitions s) key = Some p \<and> pt_index p = ix)"
        and p: "map_of (sc_partitions s) key = Some p"
      let ?s = "s\<lparr>sc_partitions := AList.update key (p\<lparr>pt_index := ix'\<rparr>) (sc_partitions s)\<rparr>"
      have ix: "io_add (cf_ops C) (pt_index p) i v = Inr ix'" using s p add by auto
      have "inv G D (window key i (map fin_val v)) ?s"
        by (rule put_part_inv[OF _ p index_add_inv[OF cache_invD(1)[OF _ p] ix]]) (use s in auto)
      moreover have "entry_at ?s k j e = entry_at s k j e" for k j e
        using p by (cases "k = key") (simp_all add: entry_at_def)
      moreover have "part_at ?s key T" using s p by (simp add: part_at_def)
      ultimately show "?Q () ?s" using s by simp
    qed auto
  qed
qed

text \<open>The entry that a store leaves behind.\<close>

abbreviation answered where
  "answered key query response x r s \<equiv> \<forall>i. r = Some i \<longrightarrow>
     (\<exists>e. (en_query e = query \<and> en_response e = response \<and> en_expires_at e = x) \<and> entry_at s key i e)"

text \<open>A known query: its entry is refreshed.\<close>

lemma triple_refresh:
  assumes h: "exact_hash C query = Inr h"
  shows "triple (\<lambda>s. inv G D (window key i (vec_of C query)) s \<and> part_at s key (\<lambda>es ex. \<exists>e. map_of es i = Some e \<and> en_hash e = h))
     (bindS (set_part key (refresh_entry query response t x i)) (\<lambda>_. bindS (touch key i) (\<lambda>_. returnS (Some i))))
     (\<lambda>r s. at_ease (plus_stored G key query response r) D s \<and> answered key query response x r s) E"
proof (rule triple_bind)
  let ?G = "plus_stored G key query response (Some i)"
  let ?P = "\<lambda>s. inv G D (window key i (vec_of C query)) s \<and> part_at s key (\<lambda>es ex. \<exists>e. map_of es i = Some e \<and> en_hash e = h)"
  let ?A = "\<lambda>e. en_query e = query \<and> en_response e = response \<and> en_expires_at e = x"
  show "triple ?P (set_part key (refresh_entry query response t x i)) (\<lambda>_ s. \<exists>e. ?A e \<and> at_rest ?G D 0 s \<and> entry_at s key i e \<and> True) E"
  proof (rule triple_set_part)
    fix s p assume s: "?P s" and p: "map_of (sc_partitions s) key = Some p"
    obtain e where e: "map_of (pt_entries p) i = Some e" "en_hash e = h" using s p by (auto simp: part_at_def)
    let ?p = "refresh_entry query response t x i p"
    let ?s = "s\<lparr>sc_partitions := AList.update key ?p (sc_partitions s)\<rparr>"
    have g: "inv ?G D (window key i (vec_of C query)) s" using plus_mono s by blast
    have "pinv ?G [i \<mapsto> vec_of C query] key (sc_next_id s) p" using cache_invD(1)[OF g p] by simp
    then have "pinv ?G (\<lambda>x. None) key (sc_next_id s) ?p"
      by (rule refresh_inv[OF _ e(1)]) (use h e(2) in \<open>simp_all add: plus_stored_def\<close>)
    then have "inv ?G D ((window key i (vec_of C query))(key := \<lambda>x. None)) ?s"
      by (rule put_part_inv[OF g p]) (use e in \<open>simp add: refresh_entry_def\<close>)
    moreover have "(window key i (vec_of C query))(key := \<lambda>x. None) = closed" by (simp add: fun_eq_iff)
    moreover have "entry_at ?s key i (e\<lparr>en_query := query, en_response := response, en_created_at := t, en_expires_at := x\<rparr>)"
      using e by (simp add: entry_at_def refresh_entry_def)
    ultimately show "\<exists>e. ?A e \<and> at_rest ?G D 0 ?s \<and> entry_at ?s key i e \<and> True"
      by (intro exI[of _ "e\<lparr>en_query := query, en_response := response, en_created_at := t, en_expires_at := x\<rparr>"]) auto
  qed (auto simp: part_at_def)
  show "triple (\<lambda>s. \<exists>e. ?A e \<and> at_rest ?G D 0 s \<and> entry_at s key i e \<and> True) (bindS (touch key i) (\<lambda>_. returnS (Some i)))
      (\<lambda>r s. at_ease (plus_stored G key query response r) D s \<and> answered key query response x r s) E"
    by (rule triple_ex, rule triple_pure, rule triple_bind[OF triple_touch_frame[where F = "\<lambda>b. True"]], rule triple_return) auto
qed

text \<open>A new query: after room has been made the entry is installed.\<close>

abbreviation pending where
  "pending G D key i v h n s \<equiv> inv G D (window key i v) s \<and> part_at s key (\<lambda>es ex. map_of ex h = None)
     \<and> sc_next_id s = n \<and> (\<forall>k j e. entry_at s k j e \<longrightarrow> j \<noteq> i)"

lemma triple_room:
  assumes cap: "1 \<le> cf_capacity C"
  shows "triple (pending G D key i v h n)
     (bindS (at_part key (\<lambda>p. int (length (pt_entries p)))) (\<lambda>m. if cf_capacity C \<le> m then evict_lru C key else returnS ()))
     (\<lambda>_ s. pending G D key i v h n s \<and> part_at s key (\<lambda>es ex. int (length es) < cf_capacity C)) E"
    (is "triple ?P _ ?Q _")
proof (rule triple_bind)
  show "triple ?P (at_part key (\<lambda>p. int (length (pt_entries p))))
      (\<lambda>m s. ?P s \<and> (\<exists>p. map_of (sc_partitions s) key = Some p \<and> m = int (length (pt_entries p)))) E"
    by (rule triple_at_part) (auto simp: part_at_def)
  fix m :: int
  let ?R = "\<lambda>s. ?P s \<and> (\<exists>p. map_of (sc_partitions s) key = Some p \<and> m = int (length (pt_entries p)))"
  show "triple ?R (if cf_capacity C \<le> m then evict_lru C key else returnS ()) ?Q E"
  proof (cases "cf_capacity C \<le> m")
    case True
    have "triple ?R (evict_lru C key) ?Q E"
      unfolding evict_lru_def
    proof (rule triple_bind)
      show "triple ?R (at_part key pt_order)
          (\<lambda>xs s. ?P s \<and> (\<exists>p. map_of (sc_partitions s) key = Some p \<and> xs = pt_order p \<and> xs \<noteq> [])) E"
      proof (rule triple_at_part)
        fix s p assume s: "?R s" and p: "map_of (sc_partitions s) key = Some p"
        have "set (pt_order p) = set (keys (pt_entries p))" using part_invD(3)[OF cache_invD(1)[OF _ p]] s by blast
        moreover have "pt_entries p \<noteq> []" using s p True cap by auto
        ultimately have "pt_order p \<noteq> []" by auto
        with s p show "?P s \<and> (\<exists>q. map_of (sc_partitions s) key = Some q \<and> pt_order p = pt_order q \<and> pt_order p \<noteq> [])" by blast
      qed (auto simp: part_at_def)
      fix xs
      let ?S = "\<lambda>s. ?P s \<and> (\<exists>p. map_of (sc_partitions s) key = Some p \<and> xs = pt_order p \<and> xs \<noteq> [])"
      show "triple ?S (case xs of [] \<Rightarrow> returnS () | lru_id # _ \<Rightarrow> bindS (remove_entry C key lru_id) (\<lambda>e.
           if e \<noteq> None then metric (\<lambda>m. m\<lparr>mx_capacity_evictions := Suc (mx_capacity_evictions m)\<rparr>) else returnS ())) ?Q E"
      proof (cases xs)
        case Nil
        then show ?thesis by (intro triple_absurd) simp
      next
        case (Cons lru ys)
        have "triple ?S (remove_entry C key lru) (\<lambda>e s. e \<noteq> None \<and> ?Q () s) E"
        proof (rule triple_remove)
          fix s assume s: "?S s"
          then obtain p where p: "map_of (sc_partitions s) key = Some p" and o: "xs = pt_order p" by blast
          have "lru \<in> set xs" by (simp add: Cons)
          then have lru: "lru \<in> set (pt_order p)" by (simp only: o)
          then have "lru \<in> set (keys (pt_entries p))" using part_invD(3)[OF cache_invD(1)[OF _ p]] s lru by blast
          then show "\<exists>e. entry_at s key lru e"
            using keys_map_of[of lru "pt_entries p"] p by (auto simp: entry_at_def)
          fix e assume e: "entry_at s key lru e"
          have "lru \<noteq> i" using e s by blast
          then have w: "window key i v key lru = None" by simp
          have "inv G D (window key i v) (removed C key lru s)"
            by (rule cache_inv_less[OF removed_inv[where w = "window key i v", OF _ e w]]) (use s in auto)
          moreover have r: "map_of (sc_partitions (removed C key lru s)) key = Some (drop_entry C lru p)"
            by (simp add: removed_def p)
          moreover have "map_of (pt_exact (drop_entry C lru p)) h = None"
            using s p by (auto simp: part_at_def drop_entry_def split: option.split)
          moreover have "int (length (pt_entries (drop_entry C lru p))) < cf_capacity C"
            by (rule evict_room[OF cache_invD(1)[OF _ p] lru]) (use s in auto)
          moreover have "\<forall>k j e. entry_at (removed C key lru s) k j e \<longrightarrow> j \<noteq> i"
            using s unfolding entry_at_removed by blast
          ultimately show "Some e \<noteq> None \<and> ?Q () (removed C key lru s)" using s by (simp add: part_at_def)
        qed
        then show ?thesis
          unfolding Cons list.case
        proof (rule triple_bind)
          show "triple (\<lambda>s. e \<noteq> None \<and> ?Q () s)
              (if e \<noteq> None then metric (\<lambda>m. m\<lparr>mx_capacity_evictions := Suc (mx_capacity_evictions m)\<rparr>) else returnS ()) ?Q E" for e :: "entry option"
            by (rule triple_pure) (simp only: not_False_eq_True if_True, rule triple_metric, simp)
        qed
      qed
    qed
    then show ?thesis using True by simp
  next
    case False
    then show ?thesis by (auto simp: part_at_def intro!: triple_return)
  qed
qed

lemma install_inv:
  assumes inv: "inv G D (window key i (vec_of C query)) s" and p: "map_of (sc_partitions s) key = Some p"
    and e: "en_id e = i" "en_query e = query" "en_hash e = h" "partition_key_for C (en_ctx e) = key"
    and h: "exact_hash C query = Inr h" "map_of (pt_exact p) h = None"
    and i: "i = id_of key m" "m < sc_next_id s" "i \<notin> D" "\<And>k j e. entry_at s k j e \<Longrightarrow> j \<noteq> i"
    and room: "int (length (pt_entries p)) < cf_capacity C"
  shows "inv (plus_stored G key query (en_response e) (Some i)) D closed
    (s\<lparr>sc_partitions := AList.update key (insert_entry e p) (sc_partitions s),
      sc_entry_partition := AList.update i key (sc_entry_partition s)\<rparr>)"
    (is "inv ?G D closed ?s")
proof -
  have g: "inv ?G D (window key i (vec_of C query)) s" by (rule plus_mono[OF inv])
  note d = cache_invD[OF g]
  have free: "map_of (pt_entries p) i = None" using i(4)[of key i] p by (cases "map_of (pt_entries p) i") (auto simp: entry_at_def)
  have "pinv ?G (\<lambda>x. None) key (sc_next_id s) (insert_entry e p)"
  proof (rule insert_inv)
    show "pinv ?G [en_id e \<mapsto> vec_of C (en_query e)] key (sc_next_id s) p" using d(1)[OF p] e by simp
    show "entry_inv C ?G key (sc_next_id s) (en_id e) e"
      using e h(1) i(1,2) unfolding entry_inv_def plus_stored_def by blast
  qed (use free h(2) e room in simp_all)
  then have parts: "pinv ?G (\<lambda>x. None) k (sc_next_id s) q" if "map_of (sc_partitions ?s) k = Some q" for k q
    using that d(1)[of k q] by (cases "k = key") auto
  have at: "entry_at ?s k j e' \<longleftrightarrow> (if k = key \<and> j = i then e' = e else entry_at s k j e')" for k j e'
    using p e(1) by (cases "k = key") (auto simp: entry_at_def insert_entry_def)
  have "map_of (sc_entry_partition ?s) j = Some k \<longleftrightarrow> (\<exists>e'. entry_at ?s k j e')" for j k
  proof (cases "j = i")
    case True
    then show ?thesis unfolding at using i(4)[of k j] by auto
  next
    case False
    then show ?thesis unfolding at using d(2)[of j k] by simp
  qed
  moreover have "map_of (sc_entry_partition ?s) j = None \<and> (\<exists>key m. j = id_of key m \<and> m < sc_next_id ?s)" if "j \<in> D" for j
    using d(3,4)[OF that] i(3) that by auto
  moreover have "length (sc_shadow_log ?s) \<le> nat (cf_shadow_log_capacity C)" using d(5) by simp
  ultimately show ?thesis unfolding cache_inv_def using parts by simp
qed

text \<open>The number of a fresh identifier has not been used in any partition.\<close>

lemma fresh_id_new:
  assumes "inv G D w s"
  shows "entry_at s k j e \<Longrightarrow> j \<noteq> id_of key (sc_next_id s)" "id_of key (sc_next_id s) \<notin> D"
proof -
  have old: "i \<noteq> id_of key (sc_next_id s)" if "i = id_of k m" "m < sc_next_id s" for i k m
    using id_of_inj[of key "sc_next_id s" k m] that by auto
  show "j \<noteq> id_of key (sc_next_id s)" if "entry_at s k j e"
    using id_at[OF assms that] old unfolding entry_inv_def by blast
  show "id_of key (sc_next_id s) \<notin> D"
    using cache_invD(4)[OF assms, of "id_of key (sc_next_id s)"] old by blast
qed

lemma triple_install:
  assumes cap: "1 \<le> cf_capacity C" and h: "exact_hash C query = Inr h" and v: "cf_embed C query = Inr v"
    and key: "key = partition_key_for C ctx"
  shows "triple (\<lambda>s. at_ease G D s \<and> part_at s key (\<lambda>es ex. map_of ex h = None))
     (install_new C key query response ctx t x v h) (\<lambda>r s. at_ease (plus_stored G key query response r) D s \<and> answered key query response x r s) (at_ease G D)"
    (is "triple ?P _ ?Q ?E")
  unfolding install_new_def
proof (rule triple_bind)
  let ?new = "\<lambda>i m s. (i = id_of key m \<and> i \<notin> D) \<and> at_ease G D s \<and> part_at s key (\<lambda>es ex. map_of ex h = None)
      \<and> sc_next_id s = Suc m \<and> (\<forall>k j e. entry_at s k j e \<longrightarrow> j \<noteq> i)"
  show "triple ?P (fresh_id key) (\<lambda>i s. \<exists>m. ?new i m s) ?E"
    unfolding fresh_id_def
  proof (rule triple_bind[OF triple_get[where Q = "\<lambda>i s. i = id_of key (sc_next_id s) \<and> ?P s"]])
    show "triple (\<lambda>s. i = id_of key (sc_next_id s) \<and> ?P s)
        (bindS (modifyS (\<lambda>st. st\<lparr>sc_next_id := Suc (sc_next_id st)\<rparr>)) (\<lambda>_. returnS i)) (\<lambda>i s. \<exists>m. ?new i m s) ?E" for i
    proof (rule triple_bind[OF triple_modify[where Q = "\<lambda>_ s. \<exists>m. ?new i m s"]])
      fix s assume s: "i = id_of key (sc_next_id s) \<and> ?P s"
      then have "at_ease G D (s\<lparr>sc_next_id := Suc (sc_next_id s)\<rparr>)"
        using cache_inv_mono[of C ok rows G D closed s "Suc (sc_next_id s)" G D] by simp
      moreover have "\<forall>k j e. entry_at s k j e \<longrightarrow> j \<noteq> i" "i \<notin> D"
        using fresh_id_new[of G D closed s] s by blast+
      ultimately show "\<exists>m. ?new i m (s\<lparr>sc_next_id := Suc (sc_next_id s)\<rparr>)"
        using s by (intro exI[of _ "sc_next_id s"]) (simp del: split_paired_All)
    qed (rule triple_return)
  qed (simp add: id_of_def)
  fix i
  let ?e = "\<lparr>en_id = i, en_query = query, en_hash = h, en_response = response, en_ctx = ctx, en_created_at = t,
      en_expires_at = x, en_good_feedback = 0, en_bad_feedback = 0\<rparr>"
  have q: "map fin_val v = vec_of C query" by (simp add: vec_of_def v)
  show "triple (\<lambda>s. \<exists>m. ?new i m s) (bindS (index_add_at C key i v) (\<lambda>_.
            bindS (at_part key (\<lambda>p. int (length (pt_entries p)))) (\<lambda>n.
            bindS (if cf_capacity C \<le> n then evict_lru C key else returnS ()) (\<lambda>_.
            bindS (set_part key (insert_entry ?e)) (\<lambda>_.
            bindS (modifyS (\<lambda>st. st\<lparr>sc_entry_partition := AList.update i key (sc_entry_partition st)\<rparr>)) (\<lambda>_.
            returnS (Some i))))))) ?Q ?E"
  proof (rule triple_ex, rule triple_pure)
    fix m assume i: "i = id_of key m \<and> i \<notin> D"
    let ?done = "\<lambda>s. inv (plus_stored G key query response (Some i)) D closed (s\<lparr>sc_entry_partition := AList.update i key (sc_entry_partition s)\<rparr>)
        \<and> entry_at s key i ?e"
    have last: "triple (\<lambda>s. pending G D key i (vec_of C query) h (Suc m) s \<and> part_at s key (\<lambda>es ex. int (length es) < cf_capacity C))
        (bindS (set_part key (insert_entry ?e)) (\<lambda>_.
            bindS (modifyS (\<lambda>st. st\<lparr>sc_entry_partition := AList.update i key (sc_entry_partition st)\<rparr>)) (\<lambda>_.
            returnS (Some i)))) ?Q ?E"
    proof (rule triple_bind[OF triple_set_part[where Q = "\<lambda>_. ?done"]])
      fix s p assume s: "pending G D key i (vec_of C query) h (Suc m) s \<and> part_at s key (\<lambda>es ex. int (length es) < cf_capacity C)"
        and p: "map_of (sc_partitions s) key = Some p"
      have "entry_at (s\<lparr>sc_partitions := AList.update key (insert_entry ?e p) (sc_partitions s)\<rparr>) key i ?e"
        by (simp add: entry_at_def insert_entry_def)
      then show "?done (s\<lparr>sc_partitions := AList.update key (insert_entry ?e p) (sc_partitions s)\<rparr>)"
        using install_inv[of G D key i query s p ?e h m] s p i h key by (simp add: part_at_def del: split_paired_All) blast
    next
      show "triple ?done (bindS (modifyS (\<lambda>st. st\<lparr>sc_entry_partition := AList.update i key (sc_entry_partition st)\<rparr>)) (\<lambda>_.
            returnS (Some i))) ?Q ?E"
        by (rule triple_bind[OF triple_modify[where Q = "\<lambda>_ s. at_ease (plus_stored G key query response (Some i)) D s \<and> entry_at s key i ?e"]])
          (simp, rule triple_return, auto intro!: exI[of _ ?e])
    qed (auto simp: part_at_def)
    show "triple (\<lambda>s. at_ease G D s \<and> part_at s key (\<lambda>es ex. map_of ex h = None)
          \<and> sc_next_id s = Suc m \<and> (\<forall>k j e. entry_at s k j e \<longrightarrow> j \<noteq> i)) (bindS (index_add_at C key i v) (\<lambda>_.
            bindS (at_part key (\<lambda>p. int (length (pt_entries p)))) (\<lambda>n.
            bindS (if cf_capacity C \<le> n then evict_lru C key else returnS ()) (\<lambda>_.
            bindS (set_part key (insert_entry ?e)) (\<lambda>_.
            bindS (modifyS (\<lambda>st. st\<lparr>sc_entry_partition := AList.update i key (sc_entry_partition st)\<rparr>)) (\<lambda>_.
            returnS (Some i))))))) ?Q ?E"
      using triple_bind[OF triple_index_add[where T = "\<lambda>es ex. map_of ex h = None" and U = "\<lambda>n. n = Suc m" and R = "\<lambda>k j e. j \<noteq> i"]
          triple_bind[OF triple_room[OF cap] last[folded q]]]
      by (simp only: bindS_assoc)
  qed
qed

lemma triple_existing:
  assumes h: "exact_hash C query = Inr h"
  shows "triple (\<lambda>s. at_ease G D s \<and> part_at s key (\<lambda>_ _. True))
    (at_part key (\<lambda>p. case map_of (pt_exact p) h of
       Some i \<Rightarrow> if map_of (pt_entries p) i \<noteq> None then Some i else None | None \<Rightarrow> None))
    (\<lambda>r s. at_ease G D s \<and> (case r of
       Some i \<Rightarrow> part_at s key (\<lambda>es ex. \<exists>e. map_of es i = Some e \<and> en_hash e = h)
     | None \<Rightarrow> part_at s key (\<lambda>es ex. map_of ex h = None))) E"
proof (rule triple_at_part)
  fix s p assume s: "at_ease G D s \<and> part_at s key (\<lambda>_ _. True)" and p: "map_of (sc_partitions s) key = Some p"
  note d = part_invD(5)[OF cache_invD(1)[OF conjunct1[OF s] p]]
  show "at_ease G D s \<and> (case (case map_of (pt_exact p) h of
       Some i \<Rightarrow> if map_of (pt_entries p) i \<noteq> None then Some i else None | None \<Rightarrow> None) of
       Some i \<Rightarrow> part_at s key (\<lambda>es ex. \<exists>e. map_of es i = Some e \<and> en_hash e = h)
     | None \<Rightarrow> part_at s key (\<lambda>es ex. map_of ex h = None))"
  proof (cases "map_of (pt_exact p) h")
    case None
    then show ?thesis using s p by (simp add: part_at_def)
  next
    case (Some i)
    then obtain e where "map_of (pt_entries p) i = Some e" "en_hash e = h" using d[of h i] by blast
    then show ?thesis using s p Some by (simp add: part_at_def)
  qed
qed (auto simp: part_at_def)

lemma triple_known:
  assumes v: "cf_embed C query = Inr v" and h: "exact_hash C query = Inr h"
  shows "triple (\<lambda>s. at_ease G D s \<and> part_at s key (\<lambda>es ex. \<exists>e. map_of es i = Some e \<and> en_hash e = h))
    (refresh_known C key query response t x v i) (\<lambda>r s. at_ease (plus_stored G key query response r) D s \<and> answered key query response x r s) (at_ease G D)"
  unfolding refresh_known_def
  by (rule triple_bind[OF triple_weaken[OF triple_index_add[where U = "\<lambda>_. True" and R = "\<lambda>_ _ _. True"]] triple_refresh[OF h]])
    (auto simp: vec_of_def v)

lemma triple_put:
  assumes cap: "1 \<le> cf_capacity C" and h: "exact_hash C query = Inr h" and v: "cf_embed C query = Inr v"
    and key: "key = partition_key_for C ctx"
  shows "triple (\<lambda>s. at_ease G D s \<and> part_at s key (\<lambda>_ _. True))
     (put_answer C key query response ctx t x v h) (\<lambda>r s. at_ease (plus_stored G key query response r) D s \<and> answered key query response x r s) (at_ease G D)"
  unfolding put_answer_def
proof (rule triple_bind[OF triple_existing[OF h]])
  show "triple (\<lambda>s. at_ease G D s \<and> (case r of
       Some i \<Rightarrow> part_at s key (\<lambda>es ex. \<exists>e. map_of es i = Some e \<and> en_hash e = h)
     | None \<Rightarrow> part_at s key (\<lambda>es ex. map_of ex h = None)))
     (case r of Some i \<Rightarrow> refresh_known C key query response t x v i
       | None \<Rightarrow> install_new C key query response ctx t x v h)
     (\<lambda>r s. at_ease (plus_stored G key query response r) D s \<and> answered key query response x r s) (at_ease G D)" for r
    using triple_known[OF v h] triple_install[OF cap h v key] by (cases r) simp_all
qed

lemma triple_store:
  assumes cap: "1 \<le> cf_capacity C"
  shows "triple (\<lambda>s. at_ease G D s \<and> sc_ticks s = n) (store C query response ctx ttl has_tools temperature)
    (\<lambda>r s. at_ease (plus_stored G (partition_key_for C ctx) query response r) D s
      \<and> answered (partition_key_for C ctx) query response
          (map_option (\<lambda>x. cf_clock C n + fin_val x) (case ttl of None \<Rightarrow> cf_default_ttl C | Some t \<Rightarrow> t)) r s
      \<and> (r \<noteq> None \<longrightarrow> pd_cacheable (cacheable C query ctx has_tools temperature))) (at_ease G D)"
    (is "triple ?P _ ?Q ?E")
proof (cases "pd_cacheable (cacheable C query ctx has_tools temperature)")
  case False
  then show ?thesis unfolding store_def Let_def
    by (simp only: False not_False_eq_True if_True) (rule triple_then_metric, simp, rule triple_return, simp)
next
  case ok: True
  let ?key = "partition_key_for C ctx" and ?ttl = "case ttl of None \<Rightarrow> cf_default_ttl C | Some t \<Rightarrow> t"
  let ?x = "\<lambda>t. map_option (\<lambda>x. t + fin_val x) ?ttl"
  let ?put = "\<lambda>t v h. put_answer C ?key query response ctx t (?x t) v h"
  let ?K = "\<lambda>s. at_ease G D s \<and> part_at s ?key (\<lambda>_ _. True)"
  let ?R = "\<lambda>t r s. at_ease (plus_stored G ?key query response r) D s \<and> answered ?key query response (?x t) r s"
  have tail: "triple ?K (bindS (liftS (cf_embed C query)) (\<lambda>v. bindS (liftS (exact_hash C query)) (\<lambda>h. ?put t v h))) (?R t) ?E" for t
  proof (rule triple_bind[OF triple_lifted], erule conjunct1, rule triple_pure,
      rule triple_bind[OF triple_lifted], erule conjunct1, rule triple_pure)
    show "triple ?K (?put t v h) (?R t) ?E" if "cf_embed C query = Inr v" "exact_hash C query = Inr h" for v h
      by (rule triple_put[OF cap that(2,1) refl])
  qed
  have timed: "triple (\<lambda>s. t = cf_clock C n \<and> at_ease G D s)
      (bindS (get_or_create_partition C ?key) (\<lambda>_. bindS (liftS (cf_embed C query)) (\<lambda>v.
      bindS (liftS (exact_hash C query)) (\<lambda>h. ?put t v h)))) (?R (cf_clock C n)) ?E" for t
    by (rule triple_pure) (simp only: triple_bind[OF triple_create[OF cap] tail])
  have "triple ?P (bindS (liftS (validate_ttl ?ttl)) (\<lambda>_. bindS (now C) (\<lambda>t.
      bindS (get_or_create_partition C ?key) (\<lambda>_. bindS (liftS (cf_embed C query)) (\<lambda>v.
      bindS (liftS (exact_hash C query)) (\<lambda>h. ?put t v h)))))) (?R (cf_clock C n)) ?E"
  proof (rule triple_bind[OF triple_lift[where Q = "\<lambda>_. ?P"]])
    show "triple ?P (bindS (now C) (\<lambda>t. bindS (get_or_create_partition C ?key) (\<lambda>_. bindS (liftS (cf_embed C query)) (\<lambda>v.
      bindS (liftS (exact_hash C query)) (\<lambda>h. ?put t v h))))) (?R (cf_clock C n)) ?E"
      by (rule triple_bind[OF triple_now[where Q = "\<lambda>t s. t = cf_clock C n \<and> at_ease G D s"] timed]) simp
  qed (simp split: sum.split)
  then show ?thesis unfolding store_def Let_def
    by (simp only: ok not_True_eq_False if_False) (rule triple_weaken, assumption, auto simp: ok)
qed

section \<open>Invalidation and feedback\<close>

lemma triple_invalidate:
  "triple (at_ease G D) (invalidate C i) (\<lambda>_. at_ease G D) E"
  unfolding invalidate_def
proof (rule triple_bind[OF triple_get[where Q = "\<lambda>k s. at_ease G D s \<and> map_of (sc_entry_partition s) i = k"]])
  fix k
  show "triple (\<lambda>s. at_ease G D s \<and> map_of (sc_entry_partition s) i = k) (case k of None \<Rightarrow> returnS False
     | Some key \<Rightarrow> bindS (remove_entry C key i) (\<lambda>e. returnS (e \<noteq> None))) (\<lambda>_. at_ease G D) E"
  proof (cases k)
    case (Some key)
    have "triple (\<lambda>s. at_ease G D s \<and> map_of (sc_entry_partition s) i = k) (remove_entry C key i) (\<lambda>_. at_ease G D) E"
    proof (rule triple_remove)
      fix s assume s: "at_ease G D s \<and> map_of (sc_entry_partition s) i = k"
      then show "\<exists>e. entry_at s key i e" using cache_invD(2)[of C ok rows G D closed s i key] Some by simp
      show "at_ease G D (removed C key i s)" if "entry_at s key i e" for e
        by (rule cache_inv_less[OF removed_inv[OF conjunct1[OF s] that refl]]) blast
    qed
    then show ?thesis unfolding Some option.case by (rule triple_bind) (rule triple_return)
  qed (auto intro!: triple_return)
qed simp

text \<open>Bad feedback: an identifier that has been given out is dead afterwards.\<close>

lemma triple_feedback:
  assumes D: "D' \<subseteq> (if good then D else insert i D)"
  shows "triple (\<lambda>s. at_ease G D s \<and> (D' \<subseteq> D \<or> (\<exists>key m. i = id_of key m \<and> m < sc_next_id s))) (feedback C i good)
    (\<lambda>_. at_ease G D') (at_ease G D)"
    (is "triple ?P _ ?Q ?E")
  unfolding feedback_def
proof (rule triple_bind[OF triple_get[where Q = "\<lambda>k s. ?P s \<and> map_of (sc_entry_partition s) i = k"]])
  have unknown: "at_ease G D' s" if s: "?P s" and no: "map_of (sc_entry_partition s) i = None \<or> good" for s
  proof (cases "D' \<subseteq> D")
    case True
    show ?thesis by (rule cache_inv_less[OF conjunct1[OF s] True])
  next
    case False
    with s no have "at_ease G (if good then D else insert i D) s"
      unfolding cache_inv_def by (auto simp del: split_paired_Ex split_paired_All)
    then show ?thesis by (rule cache_inv_less[OF _ D])
  qed
  fix k
  let ?K = "\<lambda>s. ?P s \<and> map_of (sc_entry_partition s) i = k"
  show "triple ?K (case k of None \<Rightarrow> returnS ()
     | Some key \<Rightarrow>
         bindS (at_part key (\<lambda>p. map_of (pt_entries p) i)) (\<lambda>e. case e of
           None \<Rightarrow> returnS ()
         | Some en \<Rightarrow>
             bindS (set_part key (\<lambda>p. p\<lparr>pt_entries := AList.update i (rate_entry good en) (pt_entries p)\<rparr>)) (\<lambda>_.
             if good then returnS ()
             else
               bindS (remove_entry C key i) (\<lambda>_.
               metric (\<lambda>m. m\<lparr>mx_bad_feedback_evictions := Suc (mx_bad_feedback_evictions m)\<rparr>))))) ?Q ?E"
  proof (cases k)
    case None
    then show ?thesis using unknown by (auto intro!: triple_return simp del: split_paired_Ex)
  next
    case (Some key)
    have at: "\<exists>e. entry_at s key i e" if "?K s" for s
      using cache_invD(2)[of C ok rows G D closed s i key] that Some by simp
    have rated: "triple (\<lambda>s. ?K s \<and> entry_at s key i e)
        (set_part key (\<lambda>p. p\<lparr>pt_entries := AList.update i (rate_entry good e) (pt_entries p)\<rparr>))
        (\<lambda>_ s. ?P s \<and> (\<exists>e. entry_at s key i e)) ?E" for e
    proof (rule triple_set_part)
      fix s p assume s: "?K s \<and> entry_at s key i e" and p: "map_of (sc_partitions s) key = Some p"
      have e: "map_of (pt_entries p) i = Some e" using s p by (simp add: entry_at_def)
      let ?p = "p\<lparr>pt_entries := AList.update i (rate_entry good e) (pt_entries p)\<rparr>"
      let ?s = "s\<lparr>sc_partitions := AList.update key ?p (sc_partitions s)\<rparr>"
      have "inv G D (closed(key := \<lambda>x. None)) ?s"
        by (rule put_part_inv[OF _ p rate_inv[OF cache_invD(1)[OF _ p] e]]) (use s e in auto)
      moreover have "entry_at ?s key i (rate_entry good e)" by (simp add: entry_at_def)
      ultimately show "?P ?s \<and> (\<exists>e. entry_at ?s key i e)" using s by (auto simp: fun_upd_idem simp del: split_paired_Ex)
    qed (auto simp: entry_at_def)
    have kill: "triple (\<lambda>s. ?P s \<and> (\<exists>e. entry_at s key i e)) (remove_entry C key i) (\<lambda>_. at_ease G D') ?E" if bad: "\<not> good"
    proof (rule triple_remove)
      fix s e assume s: "?P s \<and> (\<exists>e. entry_at s key i e)" and e: "entry_at s key i e"
      show "at_ease G D' (removed C key i s)"
        by (rule cache_inv_less[OF removed_inv[of G D closed s key i e]]) (use s e D bad in auto)
    qed blast
    have rest: "triple (\<lambda>s. ?P s \<and> (\<exists>e. entry_at s key i e))
        (if good then returnS () else bindS (remove_entry C key i) (\<lambda>_.
           metric (\<lambda>m. m\<lparr>mx_bad_feedback_evictions := Suc (mx_bad_feedback_evictions m)\<rparr>))) ?Q ?E"
    proof (cases good)
      case True
      show ?thesis using True unknown by (simp only: if_True) (rule triple_return, blast)
    next
      case False
      then show ?thesis by (simp only: if_False) (rule triple_bind[OF kill triple_metric], simp_all)
    qed
    show ?thesis
      unfolding Some option.case
    proof (rule triple_found)
      show "triple (\<lambda>s. (?P s \<and> map_of (sc_entry_partition s) i = Some key) \<and> entry_at s key i e)
          (case Some e of None \<Rightarrow> returnS ()
         | Some en \<Rightarrow>
             bindS (set_part key (\<lambda>p. p\<lparr>pt_entries := AList.update i (rate_entry good en) (pt_entries p)\<rparr>)) (\<lambda>_.
             if good then returnS ()
             else
               bindS (remove_entry C key i) (\<lambda>_.
               metric (\<lambda>m. m\<lparr>mx_bad_feedback_evictions := Suc (mx_bad_feedback_evictions m)\<rparr>)))) ?Q ?E" for e
        unfolding option.case by (rule triple_bind[OF rated[unfolded Some] rest])
    next
      show "triple (\<lambda>s. (?P s \<and> map_of (sc_entry_partition s) i = Some key) \<and> (\<forall>e. \<not> entry_at s key i e))
          (case None of None \<Rightarrow> returnS ()
         | Some en \<Rightarrow>
             bindS (set_part key (\<lambda>p. p\<lparr>pt_entries := AList.update i (rate_entry good en) (pt_entries p)\<rparr>)) (\<lambda>_.
             if good then returnS ()
             else
               bindS (remove_entry C key i) (\<lambda>_.
               metric (\<lambda>m. m\<lparr>mx_bad_feedback_evictions := Suc (mx_bad_feedback_evictions m)\<rparr>)))) ?Q ?E"
        by (rule triple_absurd) (use at Some in blast)
    qed blast
  qed
qed simp

end

end
