(* ===== verification/Semantic_Sessions.thy ===== *)
theory Semantic_Sessions
  imports Semantic_Store
begin

text \<open>
  Sessions of calls to the semantic cache. The triples of the operations are put together for a
  single call, the sessions follow by induction. The interface of the vector index is then
  interpreted with the index of the source, and the properties are stated for it.
\<close>

section \<open>What no operation turns back\<close>

text \<open>An operation keeps a relation between the next number and the count of clock readings.\<close>

definition keeps :: "(nat \<Rightarrow> nat \<Rightarrow> bool) \<Rightarrow> ('i, 'a) cache_op \<Rightarrow> bool" where
  "keeps F m \<longleftrightarrow> triple (\<lambda>s. F (sc_next_id s) (sc_ticks s)) m
     (\<lambda>_ s. F (sc_next_id s) (sc_ticks s)) (\<lambda>s. F (sc_next_id s) (sc_ticks s))"

lemma count_bind [count_rules]: "keeps F m \<Longrightarrow> (\<And>x. keeps F (f x)) \<Longrightarrow> keeps F (bindS m f)"
  unfolding keeps_def by (rule triple_bind)

lemma count_basic [count_rules]:
  "keeps F (returnS x)" "keeps F (raiseS e)" "keeps F (liftS r)" "keeps F (getS g)" "keeps F (at_part key f)"
  "keeps F (set_part key q)" "keeps F (metric u)" "keeps F (get_or_create_partition C key)"
  "keeps F (modifyS (\<lambda>st. st\<lparr>sc_entry_partition := w st\<rparr>))"
  by (auto simp: keeps_def triple_def returnS_def raiseS_def liftS_def getS_def at_part_def bindS_def set_part_def
      metric_def modifyS_def get_or_create_partition_def split: sum.splits option.splits prod.splits)

lemma keeps_split [count_rules]:
  "(b \<Longrightarrow> keeps F m) \<Longrightarrow> (\<not> b \<Longrightarrow> keeps F m') \<Longrightarrow> keeps F (if b then m else m')"
  "keeps F m \<Longrightarrow> (\<And>x. keeps F (f x)) \<Longrightarrow> keeps F (case r of None \<Rightarrow> m | Some x \<Rightarrow> f x)"
  "(\<And>x y. keeps F (g x y)) \<Longrightarrow> keeps F (case p of (x, y) \<Rightarrow> g x y)"
  "keeps F m \<Longrightarrow> (\<And>x xs. keeps F (h x xs)) \<Longrightarrow> keeps F (case ys of [] \<Rightarrow> m | x # xs \<Rightarrow> h x xs)"
  by (simp_all split: option.split prod.split list.split)

lemma keeps_remove [count_rules]: "keeps F (remove_entry C key i)"
  unfolding remove_entry_def by (intro count_rules)

lemma keeps_touch [count_rules]: "keeps F (touch key i)"
  unfolding touch_def by (intro count_rules)

lemma keeps_put:
  assumes "\<And>n t. F n t \<Longrightarrow> F (Suc n) t"
  shows "keeps F (put_answer C key query response ctx t x v h)"
proof -
  have "keeps F (fresh_id key)"
    unfolding fresh_id_def
    by (intro count_rules) (use assms in \<open>auto simp: keeps_def modifyS_def triple_def\<close>)
  then show ?thesis
    unfolding put_answer_def refresh_known_def install_new_def index_add_at_def evict_lru_def
    by (intro count_rules)
qed

lemma keeps_now: "(\<And>n t. F n t \<Longrightarrow> F n (Suc t)) \<Longrightarrow> keeps F (now C)"
  by (simp add: keeps_def now_def triple_def)

lemma keeps_lookup:
  assumes F: "\<And>n t. F n t \<Longrightarrow> F n (Suc t)"
  shows "keeps F (lookup C query ctx has_tools temperature)"
proof -
  note now = keeps_now[of F, OF F]
  have expired: "keeps F (is_expired C e)" for e
    unfolding is_expired_def by (intro count_rules now)
  have purge: "keeps F (purge_expired C key i)" for key i
    unfolding purge_expired_def by (intro count_rules)
  have live: "keeps F (first_live C key cs)" for key cs
  proof (induction cs)
    case (Cons c cs)
    show ?case
      by (cases c) (simp only: first_live.simps, intro count_rules expired purge Cons.IH)
  qed (simp only: first_live.simps count_basic)
  have judge: "keeps F (judge_candidate C key query i score)" for key i score
    unfolding judge_candidate_def judge_entry_def ask_verifier_def refuse_def count_miss_def serve_hit_def
    by (intro count_rules)
  have sem: "keeps F (semantic_lookup C key query)" for key
    unfolding semantic_lookup_def refuse_def count_miss_def by (intro count_rules live judge)
  have exact: "keeps F (exact_lookup C key query)" for key
    unfolding exact_lookup_def by (intro count_rules expired purge)
  have internal: "keeps F (lookup_internal C query ctx has_tools temperature)"
    unfolding lookup_internal_def Let_def refuse_def count_miss_def by (intro count_rules exact sem)
  have log: "keeps F (log_shadow C query ctx r)" for r
    unfolding log_shadow_def
    by (intro count_bind now) (simp_all add: keeps_def modifyS_def triple_def Let_def)
  have shown: "keeps F (case r of
            Hit response score matched why i \<Rightarrow>
              bindS (metric (\<lambda>m. m\<lparr>mx_shadow_would_hit := Suc (mx_shadow_would_hit m)\<rparr>)) (\<lambda>_.
              returnS (Miss (S ''shadow_mode'') (Some score)))
          | Miss why score \<Rightarrow>
              bindS (metric (\<lambda>m. m\<lparr>mx_shadow_would_miss := Suc (mx_shadow_would_miss m)\<rparr>)) (\<lambda>_. returnS r))" for r
    by (cases r) (auto intro!: count_rules)
  show ?thesis
    unfolding lookup_def Let_def refuse_def count_miss_def by (intro count_rules internal log shown)
qed

lemma keeps_store:
  assumes "\<And>n t. F n t \<Longrightarrow> F n (Suc t)" "\<And>n t. F n t \<Longrightarrow> F (Suc n) t"
  shows "keeps F (store C query response ctx ttl has_tools temperature)"
  unfolding store_def Let_def by (intro count_rules keeps_now[of F, OF assms(1)] keeps_put[of F, OF assms(2)])

lemma keeps_others: "keeps F (invalidate C i)" "keeps F (feedback C i good)"
  unfolding invalidate_def feedback_def by (intro count_rules)+

lemma next_id_grows:
  assumes "do_cache_call C s c = (r, t)"
  shows "sc_next_id s \<le> sc_next_id t"
proof -
  let ?F = "\<lambda>n t. sc_next_id s \<le> n"
  have k: "sc_next_id s \<le> sc_next_id (snd (m s))" if "keeps ?F m" for m
    using that by (cases "m s"; cases "fst (m s)") (auto simp: keeps_def triple_def)
  have "t = snd (do_cache_call C s c)" using assms by simp
  then show ?thesis
    using k[OF keeps_lookup[of ?F C]] k[OF keeps_store[of ?F C]] k[OF keeps_others(1)] k[OF keeps_others(2)]
    by (cases c) simp_all
qed

section \<open>Sessions\<close>

fun run_calls :: "'i config \<Rightarrow> 'i cache \<Rightarrow> cache_call list \<Rightarrow> (cache_call \<times> cache_result) list \<times> 'i cache" where
  "run_calls C st [] = ([], st)"
| "run_calls C st (c # cs) =
     (let (r, st1) = do_cache_call C st c; (h, st2) = run_calls C st1 cs in ((c, r) # h, st2))"

text \<open>The answers a history has stored.\<close>

definition stored_in :: "'i config \<Rightarrow> (cache_call \<times> cache_result) list \<Rightarrow> provenance" where
  "stored_in C h key i q r \<longleftrightarrow> (\<exists>ctx ttl has_tools temperature.
     (Store q r ctx ttl has_tools temperature, Stored (Inr (Some i))) \<in> set h \<and> partition_key_for C ctx = key
     \<and> pd_cacheable (cacheable C q ctx has_tools temperature))"

lemma stored_in_mono: "stored_in C h key i q r \<Longrightarrow> set h \<subseteq> set h' \<Longrightarrow> stored_in C h' key i q r"
  unfolding stored_in_def by blast

context cache_index
begin

abbreviation plus_history where
  "plus_history G h \<equiv> \<lambda>key i q r. G key i q r \<or> stored_in C h key i q r"

lemma ease_mono:
  "at_ease G D s \<Longrightarrow> (\<And>key i q r. G key i q r \<Longrightarrow> G' key i q r) \<Longrightarrow> at_ease G' D s"
  using cache_inv_mono[of C ok rows G D closed s "sc_next_id s" G' D] by simp

lemma call_inv:
  assumes cap: "1 \<le> cf_capacity C" and s: "at_ease G D s" and c: "do_cache_call C s c = (r, t)"
  shows "at_ease (plus_history G [(c, r)]) D t"
proof -
  have same: "at_ease G D t \<Longrightarrow> ?thesis" by (erule ease_mono) blast
  show ?thesis
  proof (cases c)
    case (Lookup q ctx has_tools temp)
    obtain x where x: "lookup C q ctx has_tools temp s = (x, t)" using c Lookup by (auto simp: map_prod_def split: prod.splits)
    show ?thesis
      using triple_lookup[of G D "sc_ticks s" q ctx has_tools temp] s x same
      by (cases x) (auto dest: tripleD tripleE)
  next
    case (Store q a ctx ttl has_tools temp)
    obtain x where x: "store C q a ctx ttl has_tools temp s = (x, t)" and r: "r = Stored x" using c Store by (auto simp: map_prod_def split: prod.splits)
    note st = triple_store[OF cap, of G D "sc_ticks s" q a ctx ttl has_tools temp]
    have s: "at_ease G D s \<and> sc_ticks s = sc_ticks s" using s by simp
    show ?thesis
    proof (cases x)
      case (Inl er)
      then show ?thesis using tripleE[OF st s] x same by blast
    next
      case (Inr res)
      have g: "at_ease (plus_stored G (partition_key_for C ctx) q a res) D t"
        "res \<noteq> None \<longrightarrow> pd_cacheable (cacheable C q ctx has_tools temp)"
        using tripleD[OF st s] x Inr by blast+
      show ?thesis
        by (rule ease_mono[OF g(1)]) (use g(2) in \<open>auto simp: plus_stored_def stored_in_def Store r Inr\<close>)
    qed
  next
    case (Invalidate i)
    obtain x where x: "invalidate C i s = (x, t)" using c Invalidate by (auto simp: map_prod_def split: prod.splits)
    show ?thesis
      using triple_invalidate[of G D i "at_ease G D"] s x same by (cases x) (auto dest: tripleD tripleE)
  next
    case (Feedback i good)
    obtain x where x: "feedback C i good s = (x, t)" using c Feedback by (auto simp: map_prod_def split: prod.splits)
    have "D \<subseteq> (if good then D else insert i D)" by auto
    from triple_feedback[OF this, of G] s x same show ?thesis by (cases x) (auto dest: tripleD tripleE)
  qed
qed

lemma session_inv:
  assumes cap: "1 \<le> cf_capacity C"
  shows "at_ease G D s \<Longrightarrow> run_calls C s cs = (h, t) \<Longrightarrow> at_ease (plus_history G h) D t"
proof (induction cs arbitrary: G s h)
  case Nil
  then show ?case using ease_mono by auto
next
  case (Cons c cs)
  obtain r s1 where c: "do_cache_call C s c = (r, s1)" by (cases "do_cache_call C s c")
  obtain h1 where h1: "run_calls C s1 cs = (h1, t)" and h: "h = (c, r) # h1"
    using Cons.prems(2) c by (auto split: prod.splits)
  have m: "stored_in C [(c, r)] k i q a \<or> stored_in C h1 k i q a \<Longrightarrow> stored_in C h k i q a" for k i q a
    using stored_in_mono[of C _ k i q a h] by (auto simp: h)
  show ?case
    by (rule ease_mono[OF Cons.IH[OF call_inv[OF cap Cons.prems(1) c] h1]]) (use m in blast)
qed

lemma init_inv: "cache_init C = Inr s \<Longrightarrow> at_ease (\<lambda>_ _ _ _. False) {} s \<and> 1 \<le> cf_capacity C"
  by (auto simp: cache_init_def cache_inv_def entry_at_def bindE_eq_Inr split: if_splits)

lemma reachable_inv:
  assumes "cache_init C = Inr s0" "run_calls C s0 cs = (h, s)"
  shows "at_ease (stored_in C h) {} s" "1 \<le> cf_capacity C"
proof -
  show cap: "1 \<le> cf_capacity C" using init_inv[OF assms(1)] by blast
  show "at_ease (stored_in C h) {} s"
    using session_inv[OF cap conjunct1[OF init_inv[OF assms(1)]] assms(2)] by simp
qed

text \<open>A hit after a session.\<close>

lemma session_hit:
  assumes init: "cache_init C = Inr s0" and run: "run_calls C s0 cs = (h, s)"
    and hit: "lookup C query ctx has_tools temperature s = (Inr (Hit response score matched why i), t)"
  shows "stored_in C h (partition_key_for C ctx) i matched response"
    and "match_ok C sim query matched score why" "cf_mode C \<noteq> S ''shadow''"
    and "pd_cacheable (cacheable C query ctx has_tools temperature)"
    and "\<exists>e. entry_at t (partition_key_for C ctx) i e \<and> fresh C (sc_ticks s) (sc_ticks t) e"
    and "map_of (sc_entry_partition t) i \<noteq> None"
proof -
  have p: "at_rest (stored_in C h) {} (sc_ticks t) t \<and> hit_ok C sim (partition_key_for C ctx) query (sc_ticks s)
      (Hit response score matched why i) t \<and> cf_mode C \<noteq> S ''shadow''
      \<and> pd_cacheable (cacheable C query ctx has_tools temperature)"
    using tripleD[OF triple_lookup[of "stored_in C h" "{}" "sc_ticks s"] _ hit] reachable_inv(1)[OF init run] by simp
  then obtain e where e: "entry_at t (partition_key_for C ctx) i e" "en_query e = matched" "en_response e = response"
      "fresh C (sc_ticks s) (sc_ticks t) e" "match_ok C sim query matched score why"
    by (auto simp: hit_ok_def)
  then show "match_ok C sim query matched score why" "cf_mode C \<noteq> S ''shadow''"
    "pd_cacheable (cacheable C query ctx has_tools temperature)"
    "\<exists>e. entry_at t (partition_key_for C ctx) i e \<and> fresh C (sc_ticks s) (sc_ticks t) e" using p by blast+
  show "stored_in C h (partition_key_for C ctx) i matched response"
    using id_at[OF _ e(1)] p e(2,3) by (auto simp: entry_inv_def)
  have "map_of (sc_entry_partition t) i = Some (partition_key_for C ctx)"
    using cache_invD(2)[OF conjunct1[OF conjunct1[OF p]], of i "partition_key_for C ctx"] e(1) by blast
  then show "map_of (sc_entry_partition t) i \<noteq> None" by simp
qed

lemma run_grows: "run_calls C s cs = (h, t) \<Longrightarrow> sc_next_id s \<le> sc_next_id t"
proof (induction cs arbitrary: s h)
  case (Cons c cs)
  then obtain r s1 h1 where "do_cache_call C s c = (r, s1)" "run_calls C s1 cs = (h1, t)" by (auto split: prod.splits)
  then show ?case using next_id_grows Cons.IH order_trans by blast
qed simp

text \<open>An identifier that a session has given out carries a number below the next one.\<close>

lemma given_out:
  assumes cap: "1 \<le> cf_capacity C"
  shows "at_ease G D s \<Longrightarrow> run_calls C s cs = (h, t) \<Longrightarrow>
    (Store q a ctx ttl has_tools temp, Stored (Inr (Some i))) \<in> set h \<Longrightarrow> \<exists>key m. i = id_of key m \<and> m < sc_next_id t"
proof (induction cs arbitrary: G s h)
  case (Cons c cs)
  obtain r s1 where c: "do_cache_call C s c = (r, s1)" by (cases "do_cache_call C s c")
  obtain h1 where h1: "run_calls C s1 cs = (h1, t)" and h: "h = (c, r) # h1"
    using Cons.prems(2) c by (auto split: prod.splits)
  show ?case
  proof (cases "(Store q a ctx ttl has_tools temp, Stored (Inr (Some i))) \<in> set h1")
    case True
    show ?thesis by (rule Cons.IH[OF call_inv[OF cap Cons.prems(1) c] h1 True])
  next
    case False
    with Cons.prems(3) h have "c = Store q a ctx ttl has_tools temp" "r = Stored (Inr (Some i))" by auto
    with c have st: "store C q a ctx ttl has_tools temp s = (Inr (Some i), s1)"
      by (auto simp: map_prod_def split: prod.splits)
    have "at_ease G D s \<and> sc_ticks s = sc_ticks s" using Cons.prems(1) by simp
    from tripleD[OF triple_store[OF cap] this st] obtain e where
      e: "at_ease (plus_stored G (partition_key_for C ctx) q a (Some i)) D s1" "entry_at s1 (partition_key_for C ctx) i e" by blast
    obtain m where "m < sc_next_id s1" "i = id_of (partition_key_for C ctx) m"
      using id_at[OF e] unfolding entry_inv_def by blast
    then have "i = id_of (partition_key_for C ctx) m \<and> m < sc_next_id t" using run_grows[OF h1] by simp
    then show ?thesis by blast
  qed
qed simp

lemma dead_forever:
  assumes init: "cache_init C = Inr s0" and before: "run_calls C s0 cs = (h, s1)"
    and given: "(Store q a ctx ttl has_tools temp, Stored (Inr (Some i))) \<in> set h"
    and bad: "do_cache_call C s1 (Feedback i False) = (Rated (Inr ()), s2)"
    and after: "run_calls C s2 cs' = (h', s3)"
  shows "lookup C query ctx' has_tools' temp' s3 \<noteq> (Inr (Hit response score matched why i), t)"
proof
  assume hit: "lookup C query ctx' has_tools' temp' s3 = (Inr (Hit response score matched why i), t)"
  note r = reachable_inv[OF init before]
  have "\<exists>key m. i = id_of key m \<and> m < sc_next_id s1"
    by (rule given_out[OF r(2) conjunct1[OF init_inv[OF init]] before given])
  moreover have "feedback C i False s1 = (Inr (), s2)" using bad by (auto simp: map_prod_def split: prod.splits)
  ultimately have given: "at_ease (stored_in C h) {} s1 \<and> ({i} \<subseteq> {} \<or> (\<exists>key m. i = id_of key m \<and> m < sc_next_id s1))"
    and fb: "feedback C i False s1 = (Inr (), s2)" using r(1) by blast+
  have sub: "{i} \<subseteq> (if False then {} else insert i {})" by simp
  have "at_ease (stored_in C h) {i} s2" by (rule tripleD[OF triple_feedback[OF sub] given fb])
  from session_inv[OF r(2) this after] have s3: "at_rest (plus_history (stored_in C h) h') {i} (sc_ticks s3) s3" by simp
  from tripleD[OF triple_lookup s3 hit] obtain e where
    t: "at_ease (plus_history (stored_in C h) h') {i} t" "entry_at t (partition_key_for C ctx') i e"
    by (auto simp: hit_ok_def)
  then show False using cache_invD(2)[OF t(1), of i "partition_key_for C ctx'"] cache_invD(3)[OF t(1), of i] by auto
qed

text \<open>The exact match finds what has just been stored.\<close>

lemma lookup_stored:
  assumes inv: "at_ease G D s" and e: "entry_at s (partition_key_for C ctx) i e" "en_query e = query"
    and ok: "pd_cacheable (cacheable C query ctx has_tools temperature)" and mode: "cf_mode C \<noteq> S ''shadow''"
    and alive: "\<And>x. en_expires_at e = Some x \<Longrightarrow> cf_clock C (sc_ticks s) < x"
  shows "\<exists>t. lookup C query ctx has_tools temperature s = (Inr (Hit (en_response e) 1 query (S ''exact'') i), t)"
proof -
  let ?key = "partition_key_for C ctx"
  obtain p where p: "map_of (sc_partitions s) ?key = Some p" "map_of (pt_entries p) i = Some e"
    using e(1) unfolding entry_at_def by blast
  note d = part_invD[OF cache_invD(1)[OF inv p(1)]]
  have h: "exact_hash C query = Inr (en_hash e)" "en_id e = i" using d(4)[OF p(2)] e(2) by (auto simp: entry_inv_def)
  have x: "map_of (pt_exact p) (en_hash e) = Some i" using d(5)[of "en_hash e" i] p(2) by simp
  have o: "i \<in> set (pt_order p)" using d(3) p(2) keys_map_of[of i "pt_entries p"] by simp
  have ne: "pt_entries p \<noteq> []" using p(2) by auto
  have f: "is_expired C e s = (Inr False, s\<lparr>sc_ticks := (case en_expires_at e of None \<Rightarrow> sc_ticks s | Some x \<Rightarrow> Suc (sc_ticks s))\<rparr>)"
    using alive by (auto simp: is_expired_def now_def bindS_def returnS_def not_le split: option.split)
  have "\<exists>t. exact_lookup C ?key query s = (Inr (Some (Hit (en_response e) 1 query (S ''exact'') i)), t)"
    by (simp add: exact_lookup_def bindS_def liftS_def h at_part_def getS_def p x f touch_def o set_part_def modifyS_def
        metric_def returnS_def e(2))
  then show ?thesis
    by (auto simp: lookup_def lookup_internal_def Let_def ok mode bindS_def getS_def p ne returnS_def)
qed

lemma session_store_lookup:
  assumes init: "cache_init C = Inr s0" and run: "run_calls C s0 cs = (h, s)"
    and st: "store C query response ctx ttl has_tools temperature s = (Inr (Some i), s1)"
    and ok: "pd_cacheable (cacheable C query ctx has_tools' temperature')" and mode: "cf_mode C \<noteq> S ''shadow''"
    and alive: "\<And>x. (case ttl of None \<Rightarrow> cf_default_ttl C | Some t \<Rightarrow> t) = Some x \<Longrightarrow>
      cf_clock C (sc_ticks s1) < cf_clock C (sc_ticks s) + fin_val x"
  shows "\<exists>t. lookup C query ctx has_tools' temperature' s1 = (Inr (Hit response 1 query (S ''exact'') i), t)"
proof -
  note r = reachable_inv[OF init run]
  have "at_ease (stored_in C h) {} s \<and> sc_ticks s = sc_ticks s" using r(1) by simp
  from tripleD[OF triple_store[OF r(2)] this st] obtain e where
    e: "at_ease (plus_stored (stored_in C h) (partition_key_for C ctx) query response (Some i)) {} s1"
      "entry_at s1 (partition_key_for C ctx) i e" "en_query e = query" "en_response e = response"
      "en_expires_at e = map_option (\<lambda>x. cf_clock C (sc_ticks s) + fin_val x) (case ttl of None \<Rightarrow> cf_default_ttl C | Some t \<Rightarrow> t)"
    by blast
  have "cf_clock C (sc_ticks s1) < x" if "en_expires_at e = Some x" for x using that alive e(5) by auto
  from lookup_stored[OF e(1,2,3) ok mode this] show ?thesis unfolding e(4) .
qed

end

end
