(* ===== verification/Semantic_Claims.thy ===== *)
theory Semantic_Claims
  imports Semantic_Sessions
begin

text \<open>
  The properties of the semantic cache, for every numpy that does what it is documented to do
  and every embedder, verifier, clock and hash. A full sort is such a numpy: with it and the
  hashing embedder the interface of the vector index is interpreted, and the witnesses run.
\<close>

section \<open>A numpy that sorts\<close>

definition sorting_numpy :: numpy where
  "sorting_numpy = \<lparr>np_argpartition = (\<lambda>xs p. sort_key (\<lambda>i. xs ! i) [0..<length xs]),
     np_argsort = (\<lambda>xs. sort_key (\<lambda>i. xs ! i) [0..<length xs])\<rparr>"

lemma sorting_numpy_ok: "numpy_ok sorting_numpy"
proof -
  have "xs ! (sort_key (\<lambda>i. xs ! i) [0..<length xs] ! i) \<le> xs ! (sort_key (\<lambda>i. xs ! i) [0..<length xs] ! j)"
    if "i \<le> j" "j < length xs" for xs :: "real list" and i j
  proof -
    have "sorted (map (\<lambda>i. xs ! i) (sort_key (\<lambda>i. xs ! i) [0..<length xs]))" by simp
    from sorted_nth_mono[OF this that(1)] that show ?thesis by simp
  qed
  then show ?thesis by (auto simp: numpy_ok_def sorting_numpy_def)
qed

definition sample_config :: "numpy_index config" where
  "sample_config = \<lparr>cf_data = ascii_data, cf_sha = (\<lambda>b. b), cf_clock = real,
     cf_embed = (\<lambda>q. Inr (hashing_embed ascii_data (\<lambda>b. b @ replicate 32 0) 1 q)), cf_dim = 1, cf_model_id = S ''hashing-v1'',
     cf_ops = numpy_ops sorting_numpy, cf_same_intent = noop_same_intent,
     cf_tau_hit = Fin (92 / 100), cf_tau_verify = Fin (80 / 100), cf_top_k = 5, cf_capacity = 10000,
     cf_default_ttl = Some (Fin 3600), cf_mode = S ''serve'', cf_shadow_log_capacity = 1000\<rparr>"

lemma sample_ops: "cf_ops sample_config = numpy_ops sorting_numpy"
  by (simp add: sample_config_def)

interpretation numpy: cache_index sample_config index_ok row_of dot
  by (rule numpy_laws[OF sorting_numpy_ok sample_ops])

section \<open>A sample session\<close>

definition sample_ctx :: cache_context where
  "sample_ctx = \<lparr>cx_tenant = S ''t'', cx_model = S ''m'', cx_system_prompt_hash = S ''p'', cx_params_hash = S ''q''\<rparr>"

definition sample_start :: "numpy_index cache" where
  "sample_start = \<lparr>sc_partitions = [], sc_entry_partition = [], sc_next_id = 1, sc_metrics = empty_metrics,
     sc_shadow_log = [], sc_ticks = 0\<rparr>"

lemma sample_init: "cache_init sample_config = Inr sample_start"
  by (simp add: cache_init_def sample_config_def sample_start_def validate_ttl_def)

abbreviation sample_store :: cache_call where
  "sample_store \<equiv> Store [] (JInt 42) sample_ctx None False (Dec False 0 0)"

lemma sample_cacheable: "pd_cacheable (cacheable sample_config [] sample_ctx False (Dec False 0 0))"
  by (simp add: cacheable_def sample_config_def) code_simp

lemma sample_embed: "cf_embed sample_config [] = Inr [Fin 0]"
  by (simp add: sample_config_def hashing_embed_def Let_def count_vector_def ascii_data_def norm2_def dot_def)

lemma sample_hash: "exact_hash sample_config [] = Inr []"
  by (simp add: exact_hash_def sample_config_def utf8_def)

lemma sample_fields: "cf_default_ttl sample_config = Some (Fin 3600)" "cf_clock sample_config = real"
  "cf_dim sample_config = 1" "cf_capacity sample_config = 10000" "cf_mode sample_config = S ''serve''"
  by (simp_all add: sample_config_def)

definition sample_key :: partition_key where "sample_key = partition_key_for sample_config sample_ctx"

definition sample_id :: pystr where "sample_id = fst sample_key @ S '':'' @ str_nat 1"

definition sample_entry :: entry where
  "sample_entry = \<lparr>en_id = sample_id, en_query = [], en_hash = [], en_response = JInt 42, en_ctx = sample_ctx,
     en_created_at = 0, en_expires_at = Some 3600, en_good_feedback = 0, en_bad_feedback = 0\<rparr>"

definition sample_after :: "numpy_index cache" where
  "sample_after = \<lparr>sc_partitions = [(sample_key, \<lparr>pt_key = sample_key, pt_entries = [(sample_id, sample_entry)],
       pt_order = [sample_id], pt_exact = [([], sample_id)],
       pt_index = \<lparr>ni_dim = 1, ni_ids = [sample_id], ni_matrix = [[0]]\<rparr>\<rparr>)],
     sc_entry_partition = [(sample_id, sample_key)], sc_next_id = 2, sc_metrics = empty_metrics,
     sc_shadow_log = [], sc_ticks = 1\<rparr>"

lemma sample_stored:
  "store sample_config [] (JInt 42) sample_ctx None False (Dec False 0 0) sample_start = (Inr (Some sample_id), sample_after)"
  by (simp add: store_def Let_def sample_cacheable sample_embed sample_hash sample_fields validate_ttl_def liftS_def
      bindS_def now_def sample_start_def get_or_create_partition_def modifyS_def put_answer_def at_part_def getS_def
      new_partition_def install_new_def fresh_id_def returnS_def index_add_at_def sample_ops numpy_ops_def index_add_def
      index_init_def all_finite_def set_part_def insert_entry_def sample_key_def[symmetric])
    (simp add: sample_id_def sample_after_def sample_entry_def)

lemma sample_run: "run_calls sample_config sample_start [sample_store] =
    ([(sample_store, Stored (Inr (Some sample_id)))], sample_after)"
  by (simp add: sample_stored)

lemma sample_hit:
  "\<exists>t. lookup sample_config [] sample_ctx False (Dec False 0 0) sample_after
     = (Inr (Hit (JInt 42) 1 [] (S ''exact'') sample_id), t)"
proof (rule numpy.session_store_lookup[OF sample_init _ sample_stored sample_cacheable])
  show "run_calls sample_config sample_start [] = ([], sample_start)" by simp
  show "cf_mode sample_config \<noteq> S ''shadow''" by (simp add: sample_fields)
  show "cf_clock sample_config (sc_ticks sample_after) < cf_clock sample_config (sc_ticks sample_start) + fin_val x"
    if "(case None of None \<Rightarrow> cf_default_ttl sample_config | Some t \<Rightarrow> t) = Some x" for x
    using that by (auto simp: sample_fields sample_after_def sample_start_def)
qed

section \<open>Properties\<close>

lemma context_of_key: "partition_key_for C ctx = partition_key_for C ctx' \<Longrightarrow> ctx = ctx'"
  by (cases ctx; cases ctx') (simp add: partition_key_for_def)

text \<open>C21 A hit of the semantic cache, after any session of calls, serves an answer that an earlier \<open>store\<close> put
  there for exactly this context (tenant, model, system prompt, parameters) and returned this identifier for; the
  stored query has the hash of the query, or it states the same numbers, negation, names and directions and its
  vector scores at least \<open>tau_verify\<close>, and \<open>tau_hit\<close> or the verifier's word. The entry was alive at a reading of
  the clock during the lookup, the query is cacheable and the mode is not shadow.\<close>

theorem semantic_hit_sound:
  assumes np: "numpy_ok np" "cf_ops C = numpy_ops np"
    and init: "cache_init C = Inr s0" and run: "run_calls C s0 calls = (h, s)"
    and hit: "lookup C query ctx has_tools temperature s = (Inr (Hit response score matched why i), t)"
  shows "(\<exists>ttl has_tools' temperature'.
        (Store matched response ctx ttl has_tools' temperature', Stored (Inr (Some i))) \<in> set h)
    \<and> match_ok C dot query matched score why
    \<and> (\<exists>e. entry_at t (partition_key_for C ctx) i e \<and> fresh C (sc_ticks s) (sc_ticks t) e)
    \<and> pd_cacheable (cacheable C query ctx has_tools temperature) \<and> cf_mode C \<noteq> S ''shadow''"
proof -
  note hit' = cache_index.session_hit[OF numpy_laws[OF np] init run hit]
  from hit'(1) context_of_key have "\<exists>ttl has_tools' temperature'.
      (Store matched response ctx ttl has_tools' temperature', Stored (Inr (Some i))) \<in> set h"
    unfolding stored_in_def by metis
  with hit'(2-5) show ?thesis by blast
qed

theorem semantic_hit_sound_witness:
  "\<exists>t. lookup sample_config [] sample_ctx False (Dec False 0 0) sample_after
     = (Inr (Hit (JInt 42) 1 [] (S ''exact'') sample_id), t)
   \<and> match_ok sample_config dot [] [] 1 (S ''exact'')"
proof -
  obtain t where t: "lookup sample_config [] sample_ctx False (Dec False 0 0) sample_after
     = (Inr (Hit (JInt 42) 1 [] (S ''exact'') sample_id), t)" using sample_hit by blast
  from semantic_hit_sound[OF sorting_numpy_ok sample_ops sample_init sample_run t] t show ?thesis by blast
qed

text \<open>C22 After any session, also one whose calls raised, every partition is consistent: its entries, their
  recency order, the exact map, the vectors of the index and the map from identifiers to partitions describe the
  same entries, and every entry comes from a \<open>store\<close> of the session.\<close>

theorem semantic_cache_consistent:
  assumes "numpy_ok np" "cf_ops C = numpy_ops np" "cache_init C = Inr s0" "run_calls C s0 calls = (h, s)"
  shows "cache_inv C index_ok row_of (stored_in C h) {} (\<lambda>key x. None) s"
  by (rule cache_index.reachable_inv(1)[OF numpy_laws[OF assms(1,2)] assms(3,4)])

theorem semantic_cache_consistent_witness:
  "cache_inv sample_config index_ok row_of
     (stored_in sample_config [(sample_store, Stored (Inr (Some sample_id)))]) {} (\<lambda>key x. None) sample_after"
  by (rule semantic_cache_consistent[OF sorting_numpy_ok sample_ops sample_init sample_run])

text \<open>C23 No partition ever holds more entries than its capacity, its index holds one vector for every entry and
  none else, and the shadow log stays within its capacity.\<close>

theorem semantic_cache_bounded:
  assumes "numpy_ok np" "cf_ops C = numpy_ops np" "cache_init C = Inr s0" "run_calls C s0 calls = (h, s)"
    and "map_of (sc_partitions s) key = Some p"
  shows "int (length (pt_entries p)) \<le> cf_capacity C \<and> set (ni_ids (pt_index p)) = set (keys (pt_entries p))
    \<and> length (ni_ids (pt_index p)) = length (pt_entries p)
    \<and> int (length (sc_shadow_log s)) \<le> cf_shadow_log_capacity C"
proof -
  have inv: "cache_inv C index_ok row_of (stored_in C h) {} (\<lambda>key x. None) s"
    by (rule cache_index.reachable_inv(1)[OF numpy_laws[OF assms(1,2)] assms(3,4)])
  note d = part_invD[OF cache_invD(1)[OF inv assms(5)]]
  have ids: "set (ni_ids (pt_index p)) = set (keys (pt_entries p))"
  proof (rule set_eqI)
    fix i
    have "i \<in> set (ni_ids (pt_index p)) \<longleftrightarrow> row_of (pt_index p) i \<noteq> None"
      using d(6) by (simp add: row_of_def index_ok_def)
    then show "i \<in> set (ni_ids (pt_index p)) \<longleftrightarrow> i \<in> set (keys (pt_entries p))"
      using d(7)[of i] keys_map_of[of i "pt_entries p"] by simp
  qed
  have "length (ni_ids (pt_index p)) = card (set (ni_ids (pt_index p)))"
    using d(6) by (simp add: index_ok_def distinct_card)
  moreover have "length (keys (pt_entries p)) = card (set (keys (pt_entries p)))"
    using d(1) unfolding wf_dict_def by (simp only: distinct_card)
  moreover have "1 \<le> cf_shadow_log_capacity C" using assms(3) by (auto simp: cache_init_def split: if_splits)
  ultimately show ?thesis using ids d(8) cache_invD(5)[OF inv] by simp
qed

theorem semantic_cache_bounded_witness:
  "\<exists>p. map_of (sc_partitions sample_after) sample_key = Some p \<and> int (length (pt_entries p)) \<le> 10000
     \<and> length (ni_ids (pt_index p)) = length (pt_entries p)"
proof -
  obtain p where p: "map_of (sc_partitions sample_after) sample_key = Some p" by (simp add: sample_after_def)
  from semantic_cache_bounded[OF sorting_numpy_ok sample_ops sample_init sample_run p] p sample_fields(4) show ?thesis by auto
qed

text \<open>C24 One bad rating is final for the entry: an identifier that a session has given out and that is then rated
  bad is never served again, whatever calls follow. (The same answer stored again is a new entry, with an
  identifier of its own.)\<close>

theorem bad_feedback_final:
  assumes np: "numpy_ok np" "cf_ops C = numpy_ops np"
    and init: "cache_init C = Inr s0" and run: "run_calls C s0 before = (h, s1)"
    and given: "(Store q a ctx ttl has_tools temperature, Stored (Inr (Some i))) \<in> set h"
    and bad: "do_cache_call C s1 (Feedback i False) = (Rated (Inr ()), s2)"
    and after: "run_calls C s2 calls = (h', s3)"
  shows "lookup C query ctx' has_tools' temperature' s3 \<noteq> (Inr (Hit response score matched why i), t)"
  by (rule cache_index.dead_forever[OF numpy_laws[OF np] init run given bad after])

lemma sample_rated:
  "\<exists>s. do_cache_call sample_config sample_after (Feedback sample_id False) = (Rated (Inr ()), s)"
  by (simp add: feedback_def bindS_def getS_def sample_after_def at_part_def liftS_def set_part_def modifyS_def
      remove_entry_def returnS_def metric_def)

theorem bad_feedback_final_witness:
  "\<exists>s. do_cache_call sample_config sample_after (Feedback sample_id False) = (Rated (Inr ()), s)
     \<and> (\<forall>t. lookup sample_config [] sample_ctx False (Dec False 0 0) s
          \<noteq> (Inr (Hit (JInt 42) 1 [] (S ''exact'') sample_id), t))"
proof -
  obtain s where s: "do_cache_call sample_config sample_after (Feedback sample_id False) = (Rated (Inr ()), s)"
    using sample_rated by blast
  have "(sample_store, Stored (Inr (Some sample_id))) \<in> set [(sample_store, Stored (Inr (Some sample_id)))]" by simp
  note dead = bad_feedback_final[OF sorting_numpy_ok sample_ops sample_init sample_run this s run_calls.simps(1)]
  show ?thesis using s dead by blast
qed

text \<open>C25 What has just been stored is found: unless the mode is shadow, a lookup of the same query in the same
  context returns the stored answer as an exact hit with score 1, as long as the time to live has not run out.\<close>

theorem store_then_lookup:
  assumes np: "numpy_ok np" "cf_ops C = numpy_ops np"
    and init: "cache_init C = Inr s0" and run: "run_calls C s0 calls = (h, s)"
    and stored: "store C query response ctx ttl has_tools temperature s = (Inr (Some i), s1)"
    and ok: "pd_cacheable (cacheable C query ctx has_tools' temperature')" and mode: "cf_mode C \<noteq> S ''shadow''"
    and alive: "\<And>x. (case ttl of None \<Rightarrow> cf_default_ttl C | Some t \<Rightarrow> t) = Some x \<Longrightarrow>
      cf_clock C (sc_ticks s1) < cf_clock C (sc_ticks s) + fin_val x"
  shows "\<exists>s2. lookup C query ctx has_tools' temperature' s1 = (Inr (Hit response 1 query (S ''exact'') i), s2)"
  by (rule cache_index.session_store_lookup[OF numpy_laws[OF np] init run stored ok mode alive])

theorem store_then_lookup_witness:
  "\<exists>s2. lookup sample_config [] sample_ctx False (Dec False 0 0) sample_after
     = (Inr (Hit (JInt 42) 1 [] (S ''exact'') sample_id), s2)"
  by (rule store_then_lookup[OF sorting_numpy_ok sample_ops sample_init run_calls.simps(1) sample_stored sample_cacheable])
    (auto simp: sample_fields sample_after_def sample_start_def)

text \<open>C26 The vector search is exact: it returns min(k, n) different entries, each with the inner product of its
  vector and the query, the best first, and no entry left out scores higher than one returned.\<close>

theorem search_exact:
  assumes "numpy_ok np" "index_ok ix" "index_search np ix v k = Inr rs"
  shows "length rs = min (nat k) (length (ni_ids ix)) \<and> distinct (map fst rs) \<and> set (map fst rs) \<subseteq> set (ni_ids ix)
    \<and> (\<forall>(x, score) \<in> set rs. score = score_of ix v x) \<and> sorted_wrt (\<ge>) (map snd rs)
    \<and> (\<forall>(x, score) \<in> set rs. \<forall>y \<in> set (ni_ids ix) - set (map fst rs). score_of ix v y \<le> score)"
  by (intro conjI search_top_k[OF assms])

theorem search_exact_witness:
  "index_search sorting_numpy \<lparr>ni_dim = 1, ni_ids = [[97], [98]], ni_matrix = [[1], [2]]\<rparr> [Fin 1] 1 = Inr [([98], 2)]
   \<and> sorted_wrt (\<ge>) (map snd [([98::nat], 2::real)])"
proof -
  have "index_search sorting_numpy \<lparr>ni_dim = 1, ni_ids = [[97], [98]], ni_matrix = [[1], [2]]\<rparr> [Fin 1] 1 = Inr [([98], 2)]"
    by (simp add: index_search_def all_finite_def top_indices_def sorting_numpy_def dot_def Let_def upt_rec sort_key_def)
  with search_exact[OF sorting_numpy_ok _ this] show ?thesis by (simp add: index_ok_def)
qed

end
