(* ===== verification/Cached_Llm.thy ===== *)
theory Cached_Llm
  imports Semantic_Claims
begin

text \<open>
  \<open>CachedLLM\<close> (\<open>semantic_cache/client.py\<close>): lookup, the upstream call on a miss, storage, and one
  flight for concurrent identical misses. Every thread runs one \<open>call\<close>; the threads interleave
  between the sections of \<open>call\<close>: the lookup, the registry under the lock, the upstream call, the
  store, the removal from the registry under the lock and the event. A lookup or store is one
  step, as the lock of the partition makes it for its own partition. The upstream call may give
  any answer or raise; \<open>ll_calls\<close> records the answers, which the source does not.
\<close>

section \<open>Data\<close>

record cached_response =
  cr_response :: json
  cr_status :: pystr
  cr_score :: "real option"
  cr_reason :: "pystr option"
  cr_entry_id :: "pystr option"

text \<open>\<open>f"{score:.2f}"\<close>: the exact value rounded to two decimals, ties to even.\<close>

definition round_half_even :: "real \<Rightarrow> int" where
  "round_half_even x = (let n = \<lfloor>x\<rfloor>; d = x - of_int n in
     if d < 1 / 2 then n else if 1 / 2 < d then n + 1 else if even n then n else n + 1)"

definition fixed2 :: "real \<Rightarrow> pystr" where
  "fixed2 x = (let n = nat (round_half_even (\<bar>x\<bar> * 100)) in
     (if x < 0 then S ''-'' else []) @ str_nat (n div 100) @ S ''.'' @ str_nat (n div 10 mod 10) @ str_nat (n mod 10))"

definition x_cache_header :: "cached_response \<Rightarrow> pystr" where
  "x_cache_header r = (case cr_score r of
     None \<Rightarrow> S ''X-Cache: '' @ cr_status r
   | Some x \<Rightarrow> S ''X-Cache: '' @ cr_status r @ S ''; score='' @ fixed2 x)"

record flight =
  fl_done :: bool
  fl_response :: json
  fl_error :: "pyexc option"

record request =
  rq_query :: pystr
  rq_ctx :: cache_context
  rq_tools :: bool
  rq_temperature :: jfloat

type_synonym flight_key = "partition_key \<times> pystr"

record 'i llm =
  ll_cache :: "'i cache"
  ll_inflight :: "(flight_key \<times> nat) list"
  ll_flights :: "flight list"
  ll_calls :: "(request \<times> json) list"

datatype stage =
    Begin
  | Missed pystr "real option"
  | Alone pystr "real option"
  | Lead nat pystr "real option"
  | Got nat pystr "real option" json
  | Finish nat "pyexc + cached_response"
  | Signal nat "pyexc + cached_response"
  | Wait nat pystr "real option"
  | Returned "pyexc + cached_response"

section \<open>The sections of a call\<close>

definition flight_key :: "'i config \<Rightarrow> request \<Rightarrow> flight_key" where
  "flight_key C rq = (partition_key_for C (rq_ctx rq), rq_query rq)"

definition miss_reply :: "json \<Rightarrow> pystr \<Rightarrow> real option \<Rightarrow> cached_response" where
  "miss_reply r why score =
     \<lparr>cr_response = r, cr_status = S ''MISS'', cr_score = score, cr_reason = Some why, cr_entry_id = None\<rparr>"

definition hit_reply :: "json \<Rightarrow> real \<Rightarrow> pystr \<Rightarrow> pystr \<Rightarrow> cached_response" where
  "hit_reply r score why i =
     \<lparr>cr_response = r, cr_status = (if why = S ''exact'' then S ''HIT-EXACT'' else S ''HIT-SEMANTIC''),
      cr_score = Some score, cr_reason = Some why, cr_entry_id = Some i\<rparr>"

definition begin_call :: "'i config \<Rightarrow> request \<Rightarrow> 'i llm \<Rightarrow> stage \<times> 'i llm" where
  "begin_call C rq s =
     (let (r, c) = lookup C (rq_query rq) (rq_ctx rq) (rq_tools rq) (rq_temperature rq) (ll_cache s) in
      (case r of
         Inl e \<Rightarrow> Returned (Inl e)
       | Inr (Hit resp score matched why i) \<Rightarrow> Returned (Inr (hit_reply resp score why i))
       | Inr (Miss why score) \<Rightarrow> Missed why score,
       s\<lparr>ll_cache := c\<rparr>))"

definition upstream :: "request \<Rightarrow> pyexc + json \<Rightarrow> 'i llm \<Rightarrow> 'i llm" where
  "upstream rq answer s = (case answer of Inl e \<Rightarrow> s | Inr r \<Rightarrow> s\<lparr>ll_calls := (rq, r) # ll_calls s\<rparr>)"

text \<open>A request that must not be shared goes upstream by itself (\<open>Alone\<close>: it is in the call); another one leads
  or joins a flight.\<close>

definition shareable :: "'i config \<Rightarrow> request \<Rightarrow> bool" where
  "shareable C rq \<longleftrightarrow> pd_cacheable (cacheable C (rq_query rq) (rq_ctx rq) (rq_tools rq) (rq_temperature rq))"

definition join_flight :: "'i config \<Rightarrow> request \<Rightarrow> pystr \<Rightarrow> real option \<Rightarrow> 'i llm \<Rightarrow> stage \<times> 'i llm" where
  "join_flight C rq why score s =
     (if \<not> shareable C rq then (Alone why score, s)
      else case map_of (ll_inflight s) (flight_key C rq) of
        Some f \<Rightarrow> (Wait f why score, s)
      | None \<Rightarrow> (Lead (length (ll_flights s)) why score,
          s\<lparr>ll_inflight := AList.update (flight_key C rq) (length (ll_flights s)) (ll_inflight s),
            ll_flights := ll_flights s @ [\<lparr>fl_done = False, fl_response = JNull, fl_error = None\<rparr>]\<rparr>))"

text \<open>The upstream call of such a request returns or raises.\<close>

definition lone_call :: "request \<Rightarrow> pystr \<Rightarrow> real option \<Rightarrow> pyexc + json \<Rightarrow> 'i llm \<Rightarrow> stage \<times> 'i llm" where
  "lone_call rq why score answer s =
     (Returned (map_sum id (\<lambda>r. miss_reply r why score) answer), upstream rq answer s)"

definition set_flight :: "nat \<Rightarrow> (flight \<Rightarrow> flight) \<Rightarrow> 'i llm \<Rightarrow> 'i llm" where
  "set_flight f g s = s\<lparr>ll_flights := (ll_flights s)[f := g (ll_flights s ! f)]\<rparr>"

definition lead_flight :: "request \<Rightarrow> nat \<Rightarrow> pystr \<Rightarrow> real option \<Rightarrow> pyexc + json \<Rightarrow> 'i llm \<Rightarrow> stage \<times> 'i llm" where
  "lead_flight rq f why score answer s =
     (case answer of
        Inl e \<Rightarrow> (Finish f (Inl e), set_flight f (\<lambda>x. x\<lparr>fl_error := Some e\<rparr>) s)
      | Inr r \<Rightarrow> (Got f why score r, set_flight f (\<lambda>x. x\<lparr>fl_response := r\<rparr>) (upstream rq answer s)))"

definition store_answer :: "'i config \<Rightarrow> request \<Rightarrow> nat \<Rightarrow> pystr \<Rightarrow> real option \<Rightarrow> json \<Rightarrow> 'i llm \<Rightarrow> stage \<times> 'i llm" where
  "store_answer C rq f why score r s =
     (let (res, c) = store C (rq_query rq) r (rq_ctx rq) None (rq_tools rq) (rq_temperature rq) (ll_cache s); s1 = s\<lparr>ll_cache := c\<rparr> in
      case res of
        Inl e \<Rightarrow> (Finish f (Inl e), set_flight f (\<lambda>x. x\<lparr>fl_error := Some e\<rparr>) s1)
      | Inr i \<Rightarrow> (Finish f (Inr (miss_reply r why score)), s1))"

text \<open>The \<open>finally\<close> block: \<open>del\<close> would raise if the registry had lost the key, and the event would not be set.\<close>

definition finish_flight :: "'i config \<Rightarrow> request \<Rightarrow> nat \<Rightarrow> pyexc + cached_response \<Rightarrow> 'i llm \<Rightarrow> stage \<times> 'i llm" where
  "finish_flight C rq f out s =
     (if map_of (ll_inflight s) (flight_key C rq) = None then (Returned (Inl KeyError), s)
      else (Signal f out, s\<lparr>ll_inflight := AList.delete (flight_key C rq) (ll_inflight s)\<rparr>))"

definition follow :: "nat \<Rightarrow> pystr \<Rightarrow> real option \<Rightarrow> 'i llm \<Rightarrow> stage" where
  "follow f why score s = (case fl_error (ll_flights s ! f) of
     Some e \<Rightarrow> Returned (Inl e) | None \<Rightarrow> Returned (Inr (miss_reply (fl_response (ll_flights s ! f)) why score)))"

text \<open>One section of a call; \<open>None\<close> while the thread waits for the event, and after the return.\<close>

fun call_step :: "'i config \<Rightarrow> request \<Rightarrow> pyexc + json \<Rightarrow> 'i llm \<Rightarrow> stage \<Rightarrow> (stage \<times> 'i llm) option" where
  "call_step C rq answer s Begin = Some (begin_call C rq s)"
| "call_step C rq answer s (Missed why score) = Some (join_flight C rq why score s)"
| "call_step C rq answer s (Alone why score) = Some (lone_call rq why score answer s)"
| "call_step C rq answer s (Lead f why score) = Some (lead_flight rq f why score answer s)"
| "call_step C rq answer s (Got f why score r) = Some (store_answer C rq f why score r s)"
| "call_step C rq answer s (Finish f out) = Some (finish_flight C rq f out s)"
| "call_step C rq answer s (Signal f out) = Some (Returned out, set_flight f (\<lambda>x. x\<lparr>fl_done := True\<rparr>) s)"
| "call_step C rq answer s (Wait f why score) =
     (if fl_done (ll_flights s ! f) then Some (follow f why score s, s) else None)"
| "call_step C rq answer s (Returned out) = None"

type_synonym 'i llm_threads = "'i llm \<times> (request \<times> stage) list"

definition llm_start :: "'i cache \<Rightarrow> request list \<Rightarrow> 'i llm_threads" where
  "llm_start c rqs = (\<lparr>ll_cache = c, ll_inflight = [], ll_flights = [], ll_calls = []\<rparr>, map (\<lambda>rq. (rq, Begin)) rqs)"

inductive llm_step :: "'i config \<Rightarrow> 'i llm_threads \<Rightarrow> 'i llm_threads \<Rightarrow> bool" for C where
  thread: "t < length ts \<Longrightarrow> ts ! t = (rq, g) \<Longrightarrow> call_step C rq answer s g = Some (g', s') \<Longrightarrow>
    llm_step C (s, ts) (s', ts[t := (rq, g')])"

inductive_cases llm_stepE: "llm_step C (s, ts) st"


section \<open>Every run ends\<close>

text \<open>The sections that are still to come.\<close>

fun rank :: "stage \<Rightarrow> nat" where
  "rank Begin = 6" | "rank (Missed _ _) = 5" | "rank (Alone _ _) = 1" | "rank (Lead _ _ _) = 4" | "rank (Got _ _ _ _) = 3"
| "rank (Finish _ _) = 2" | "rank (Signal _ _) = 1" | "rank (Wait _ _ _) = 1" | "rank (Returned _) = 0"

lemma call_step_rank: "call_step C rq answer s g = Some (g', s') \<Longrightarrow> rank g' < rank g"
  by (cases g) (auto simp: begin_call_def join_flight_def lone_call_def lead_flight_def store_answer_def finish_flight_def follow_def Let_def
      split: prod.splits sum.splits lookup_result.splits option.splits if_splits)

definition work :: "(request \<times> stage) list \<Rightarrow> nat" where
  "work ts = sum_list (map (\<lambda>(rq, g). rank g) ts)"

lemma work_update:
  assumes "t < length ts" "ts ! t = (rq, g)" "rank g' < rank g"
  shows "work (ts[t := (rq, g')]) < work ts"
  using assms
proof (induction ts arbitrary: t)
  case (Cons x ts)
  then show ?case by (cases t) (auto simp: work_def)
qed simp

lemma llm_step_work: "llm_step C st st' \<Longrightarrow> work (snd st') < work (snd st)"
  by (induction rule: llm_step.induct) (simp add: work_update call_step_rank)

lemma run_length: "(llm_step C ^^ k) st st' \<Longrightarrow> k + work (snd st') \<le> work (snd st)"
proof (induction k arbitrary: st')
  case (Suc k)
  then obtain u where "(llm_step C ^^ k) st u" "llm_step C u st'" by auto
  with Suc.IH[of u] llm_step_work[of C u st'] show ?case by simp
qed simp

section \<open>The invariant\<close>

definition in_upstream :: "stage \<Rightarrow> bool" where
  "in_upstream g \<longleftrightarrow> (case g of Alone _ _ \<Rightarrow> True | Lead _ _ _ \<Rightarrow> True | Got _ _ _ _ \<Rightarrow> True | Finish _ _ \<Rightarrow> True | _ \<Rightarrow> False)"

fun owns :: "stage \<Rightarrow> nat option" where
  "owns (Lead f _ _) = Some f" | "owns (Got f _ _ _) = Some f" | "owns (Finish f _) = Some f" | "owns (Signal f _) = Some f"
| "owns _ = None"

text \<open>Upstream has given this answer to this query in this context.\<close>

definition answered_by :: "'i config \<Rightarrow> (request \<times> json) list \<Rightarrow> request \<Rightarrow> json \<Rightarrow> bool" where
  "answered_by C calls rq r \<longleftrightarrow> (\<exists>rq'. flight_key C rq' = flight_key C rq \<and> (rq', r) \<in> set calls)"

definition truthful :: "'i config \<Rightarrow> (request \<times> json) list \<Rightarrow> request \<Rightarrow> pyexc + cached_response \<Rightarrow> bool" where
  "truthful C calls rq out \<longleftrightarrow> (case out of Inl e \<Rightarrow> True
     | Inr r \<Rightarrow> cr_status r = S ''MISS'' \<longrightarrow> answered_by C calls rq (cr_response r))"

definition settled :: "'i config \<Rightarrow> 'i llm \<Rightarrow> nat \<Rightarrow> request \<Rightarrow> bool" where
  "settled C s f rq \<longleftrightarrow> fl_error (ll_flights s ! f) \<noteq> None \<or> answered_by C (ll_calls s) rq (fl_response (ll_flights s ! f))"

definition leading :: "'i config \<Rightarrow> (nat \<Rightarrow> nat) \<Rightarrow> 'i llm \<Rightarrow> nat \<Rightarrow> request \<Rightarrow> nat \<Rightarrow> bool" where
  "leading C own s t rq f \<longleftrightarrow> f < length (ll_flights s) \<and> own f = t \<and> \<not> fl_done (ll_flights s ! f)
     \<and> map_of (ll_inflight s) (flight_key C rq) = Some f"

definition thread_ok :: "'i config \<Rightarrow> request list \<Rightarrow> (nat \<Rightarrow> nat) \<Rightarrow> 'i llm \<Rightarrow> nat \<Rightarrow> stage \<Rightarrow> bool" where
  "thread_ok C rqs own s t g \<longleftrightarrow> (let rq = rqs ! t in case g of
     Begin \<Rightarrow> True
   | Missed why score \<Rightarrow> True
   | Alone why score \<Rightarrow> True
   | Lead f why score \<Rightarrow> leading C own s t rq f \<and> fl_error (ll_flights s ! f) = None
   | Got f why score r \<Rightarrow> leading C own s t rq f \<and> fl_response (ll_flights s ! f) = r \<and> answered_by C (ll_calls s) rq r
   | Finish f out \<Rightarrow> leading C own s t rq f \<and> settled C s f rq \<and> truthful C (ll_calls s) rq out
   | Signal f out \<Rightarrow> f < length (ll_flights s) \<and> own f = t \<and> \<not> fl_done (ll_flights s ! f) \<and> settled C s f rq
       \<and> truthful C (ll_calls s) rq out
   | Wait f why score \<Rightarrow> f < length (ll_flights s) \<and> flight_key C (rqs ! own f) = flight_key C rq
   | Returned out \<Rightarrow> truthful C (ll_calls s) rq out)"

text \<open>\<open>own\<close> names the thread that opened a flight.\<close>

definition llm_inv :: "'i config \<Rightarrow> request list \<Rightarrow> (nat \<Rightarrow> nat) \<Rightarrow> 'i llm_threads \<Rightarrow> bool" where
  "llm_inv C rqs own st \<longleftrightarrow> (case st of (s, ts) \<Rightarrow>
     map fst ts = rqs \<and> (\<forall>t < length ts. thread_ok C rqs own s t (snd (ts ! t))) \<and>
     (\<forall>f < length (ll_flights s). own f < length ts \<and> (if fl_done (ll_flights s ! f) then settled C s f (rqs ! own f)
        else owns (snd (ts ! own f)) = Some f)) \<and>
     (\<forall>k f. map_of (ll_inflight s) k = Some f \<longrightarrow> f < length (ll_flights s) \<and> flight_key C (rqs ! own f) = k))"

text \<open>A thread that is not at work sees only what the others leave as it is.\<close>

lemma answered_mono: "answered_by C calls rq r \<Longrightarrow> set calls \<subseteq> set calls' \<Longrightarrow> answered_by C calls' rq r"
  unfolding answered_by_def by blast

lemma truthful_mono: "truthful C calls rq out \<Longrightarrow> set calls \<subseteq> set calls' \<Longrightarrow> truthful C calls' rq out"
  unfolding truthful_def using answered_mono by (fastforce split: sum.splits)

lemma settled_mono:
  "settled C s f rq \<Longrightarrow> set (ll_calls s) \<subseteq> set (ll_calls s') \<Longrightarrow> ll_flights s' ! f = ll_flights s ! f \<Longrightarrow> settled C s' f rq"
  unfolding settled_def using answered_mono by metis

lemma thread_ok_frame:
  assumes ok: "thread_ok C rqs own s t g"
    and calls: "set (ll_calls s) \<subseteq> set (ll_calls s')"
    and len: "length (ll_flights s) \<le> length (ll_flights s')"
    and own: "\<And>f. f < length (ll_flights s) \<Longrightarrow> own' f = own f"
    and mine: "\<And>f. f < length (ll_flights s) \<Longrightarrow> own f = t \<Longrightarrow> ll_flights s' ! f = ll_flights s ! f"
    and reg: "\<And>k f. f < length (ll_flights s) \<Longrightarrow> own f = t \<Longrightarrow> map_of (ll_inflight s) k = Some f \<Longrightarrow> map_of (ll_inflight s') k = Some f"
  shows "thread_ok C rqs own' s' t g"
proof -
  have L: "leading C own' s' t rq f \<and> ll_flights s' ! f = ll_flights s ! f" if "leading C own s t rq f" for rq f
    using that len own mine reg unfolding leading_def by auto
  note simps = thread_ok_def Let_def stage.case
  show ?thesis
  proof (cases g)
    case (Lead f why score)
    have o: "leading C own s t (rqs ! t) f \<and> fl_error (ll_flights s ! f) = None" using ok unfolding Lead simps .
    with L[of "rqs ! t" f] show ?thesis unfolding Lead simps by simp
  next
    case (Got f why score r)
    have "leading C own s t (rqs ! t) f \<and> fl_response (ll_flights s ! f) = r \<and> answered_by C (ll_calls s) (rqs ! t) r"
      using ok unfolding Got simps .
    with L[of "rqs ! t" f] have "leading C own' s' t (rqs ! t) f" "fl_response (ll_flights s' ! f) = r"
      "answered_by C (ll_calls s') (rqs ! t) r" using answered_mono[OF _ calls] by auto
    then show ?thesis unfolding Got simps by simp
  next
    case (Finish f out)
    have "leading C own s t (rqs ! t) f \<and> settled C s f (rqs ! t) \<and> truthful C (ll_calls s) (rqs ! t) out"
      using ok unfolding Finish simps .
    with L[of "rqs ! t" f] settled_mono[OF _ calls] truthful_mono[OF _ calls] show ?thesis unfolding Finish simps by blast
  next
    case (Signal f out)
    have "f < length (ll_flights s) \<and> own f = t \<and> \<not> fl_done (ll_flights s ! f) \<and> settled C s f (rqs ! t)
        \<and> truthful C (ll_calls s) (rqs ! t) out" using ok unfolding Signal simps .
    then have "f < length (ll_flights s')" "own' f = t" "\<not> fl_done (ll_flights s' ! f)" "settled C s' f (rqs ! t)"
      "truthful C (ll_calls s') (rqs ! t) out"
      using len own[of f] mine[of f] settled_mono[OF _ calls, of C f "rqs ! t"] truthful_mono[OF _ calls, of C "rqs ! t" out]
      by simp_all
    then show ?thesis unfolding Signal simps by blast
  next
    case (Wait f why score)
    have "f < length (ll_flights s) \<and> flight_key C (rqs ! own f) = flight_key C (rqs ! t)" using ok unfolding Wait simps .
    with len own[of f] show ?thesis unfolding Wait simps by simp
  next
    case (Returned out)
    have "truthful C (ll_calls s) (rqs ! t) out" using ok unfolding Returned simps .
    with truthful_mono[OF _ calls] show ?thesis unfolding Returned simps by blast
  qed (simp_all add: thread_ok_def)
qed

lemma llm_invD:
  assumes "llm_inv C rqs own (s, ts)"
  shows "map fst ts = rqs" "t < length ts \<Longrightarrow> thread_ok C rqs own s t (snd (ts ! t))"
    "f < length (ll_flights s) \<Longrightarrow> own f < length ts"
    "f < length (ll_flights s) \<Longrightarrow> fl_done (ll_flights s ! f) \<Longrightarrow> settled C s f (rqs ! own f)"
    "f < length (ll_flights s) \<Longrightarrow> \<not> fl_done (ll_flights s ! f) \<Longrightarrow> owns (snd (ts ! own f)) = Some f"
    "map_of (ll_inflight s) k = Some f \<Longrightarrow> f < length (ll_flights s) \<and> flight_key C (rqs ! own f) = k"
proof -
  note i = assms[unfolded llm_inv_def prod.case]
  show "map fst ts = rqs" using i by blast
  show "t < length ts \<Longrightarrow> thread_ok C rqs own s t (snd (ts ! t))" using i by blast
  show "f < length (ll_flights s) \<Longrightarrow> own f < length ts" using i by blast
  show "f < length (ll_flights s) \<Longrightarrow> fl_done (ll_flights s ! f) \<Longrightarrow> settled C s f (rqs ! own f)" using i by presburger
  show "f < length (ll_flights s) \<Longrightarrow> \<not> fl_done (ll_flights s ! f) \<Longrightarrow> owns (snd (ts ! own f)) = Some f" using i by presburger
  show "map_of (ll_inflight s) k = Some f \<Longrightarrow> f < length (ll_flights s) \<and> flight_key C (rqs ! own f) = k" using i by blast
qed

text \<open>A step of thread \<open>t\<close> that leaves the flights of the others alone.\<close>

lemma llm_inv_update:
  assumes inv: "llm_inv C rqs own (s, ts)" and t: "t < length ts" "ts ! t = (rq, g)"
    and ok: "thread_ok C rqs own' s' t g'"
    and calls: "set (ll_calls s) \<subseteq> set (ll_calls s')"
    and len: "length (ll_flights s) \<le> length (ll_flights s')"
    and own: "\<And>f. f < length (ll_flights s) \<Longrightarrow> own' f = own f"
      "\<And>f. length (ll_flights s) \<le> f \<Longrightarrow> f < length (ll_flights s') \<Longrightarrow> own' f = t"
    and others: "\<And>f. f < length (ll_flights s) \<Longrightarrow> own f \<noteq> t \<Longrightarrow> ll_flights s' ! f = ll_flights s ! f"
    and reg: "\<And>k f. f < length (ll_flights s) \<Longrightarrow> own f \<noteq> t \<Longrightarrow> map_of (ll_inflight s) k = Some f \<Longrightarrow>
      map_of (ll_inflight s') k = Some f"
      "\<And>k f. map_of (ll_inflight s') k = Some f \<Longrightarrow> f < length (ll_flights s') \<and> flight_key C (rqs ! own' f) = k"
    and mine: "\<And>f. f < length (ll_flights s') \<Longrightarrow> own' f = t \<Longrightarrow>
      if fl_done (ll_flights s' ! f) then settled C s' f (rqs ! t) else owns g' = Some f"
  shows "llm_inv C rqs own' (s', ts[t := (rq, g')])"
proof -
  note d = llm_invD[OF inv]
  have map: "map fst (ts[t := (rq, g')]) = rqs"
    using d(1) t by (simp add: map_update) (metis fst_conv list_update_id nth_map)
  have threads: "thread_ok C rqs own' s' u (snd (ts[t := (rq, g')] ! u))" if "u < length ts" for u
  proof (cases "u = t")
    case False
    have "thread_ok C rqs own' s' u (snd (ts ! u))"
      by (rule thread_ok_frame[OF d(2)[OF that] calls len own(1)]) (use False others reg(1) in auto)
    then show ?thesis using False by simp
  qed (use ok t in simp)
  have flights: "own' f < length ts \<and> (if fl_done (ll_flights s' ! f) then settled C s' f (rqs ! own' f)
      else owns (snd (ts[t := (rq, g')] ! own' f)) = Some f)" if f: "f < length (ll_flights s')" for f
  proof (cases "own' f = t")
    case True
    then show ?thesis using mine[OF f True] t by simp
  next
    case False
    then have o: "f < length (ll_flights s)" "own' f = own f" "own f \<noteq> t" using own f by (meson not_le)+
    then have e: "ll_flights s' ! f = ll_flights s ! f" using others by simp
    show ?thesis using d(3-5)[OF o(1)] o e settled_mono[OF _ calls e] by auto
  qed
  show ?thesis unfolding llm_inv_def using map threads flights reg(2) by simp
qed

section \<open>Every section keeps the invariant\<close>

lemma my_flight:
  assumes inv: "llm_inv C rqs own (s, ts)" and t: "t < length ts" "ts ! t = (rq, g)"
    and f: "f < length (ll_flights s)" "own f = t"
  shows "if fl_done (ll_flights s ! f) then settled C s f (rqs ! t) else owns g = Some f"
  using llm_invD(4,5)[OF inv f(1)] f(2) t(2) by auto

lemma quiet_step:
  assumes inv: "llm_inv C rqs own (s, ts)" and t: "t < length ts" "ts ! t = (rq, g)"
    and g: "owns g = None" and same: "ll_flights s' = ll_flights s" "ll_inflight s' = ll_inflight s"
    and calls: "set (ll_calls s) \<subseteq> set (ll_calls s')" and ok: "thread_ok C rqs own s' t g'"
  shows "llm_inv C rqs own (s', ts[t := (rq, g')])"
proof (rule llm_inv_update[OF inv t ok calls])
  show "if fl_done (ll_flights s' ! f) then settled C s' f (rqs ! t) else owns g' = Some f"
    if f: "f < length (ll_flights s')" "own f = t" for f
    using my_flight[OF inv t, of f] f g same settled_mono[OF _ calls, of C f "rqs ! t"] by (auto split: if_splits)
  show "f < length (ll_flights s') \<and> flight_key C (rqs ! own f) = k" if "map_of (ll_inflight s') k = Some f" for k f
    using llm_invD(6)[OF inv, of k f] that same by simp
qed (simp_all add: same)

lemma busy_step:
  assumes inv: "llm_inv C rqs own (s, ts)" and t: "t < length ts" "ts ! t = (rq, g)"
    and g: "owns g = Some f" "owns g' = Some f" "f < length (ll_flights s)" "own f = t"
    and other: "length (ll_flights s') = length (ll_flights s)" "\<And>j. j \<noteq> f \<Longrightarrow> ll_flights s' ! j = ll_flights s ! j"
    and me: "\<not> fl_done (ll_flights s' ! f)"
    and calls: "set (ll_calls s) \<subseteq> set (ll_calls s')" and ok: "thread_ok C rqs own s' t g'"
    and reg: "\<And>k j. map_of (ll_inflight s') k = Some j \<Longrightarrow> map_of (ll_inflight s) k = Some j"
      "\<And>k j. j \<noteq> f \<Longrightarrow> map_of (ll_inflight s) k = Some j \<Longrightarrow> map_of (ll_inflight s') k = Some j"
  shows "llm_inv C rqs own (s', ts[t := (rq, g')])"
proof (rule llm_inv_update[OF inv t ok calls])
  show "if fl_done (ll_flights s' ! j) then settled C s' j (rqs ! t) else owns g' = Some j"
    if j: "j < length (ll_flights s')" "own j = t" for j
  proof (cases "j = f")
    case False
    then have "settled C s j (rqs ! t) \<and> fl_done (ll_flights s' ! j)"
      using my_flight[OF inv t, of j] j g other by (auto split: if_splits)
    then show ?thesis using settled_mono[OF _ calls other(2)[OF False], of C "rqs ! t"] by simp
  qed (use me g in simp)
  show "j < length (ll_flights s') \<and> flight_key C (rqs ! own j) = k" if "map_of (ll_inflight s') k = Some j" for k j
    using llm_invD(6)[OF inv reg(1)[OF that]] other by simp
  fix j assume "own j \<noteq> t"
  then have j: "j \<noteq> f" using g(4) by blast
  show "ll_flights s' ! j = ll_flights s ! j" by (rule other(2)[OF j])
  show "map_of (ll_inflight s') k = Some j" if "map_of (ll_inflight s) k = Some j" for k by (rule reg(2)[OF j that])
qed (use other in simp_all)

lemma length_set_flight [simp]: "length (ll_flights (set_flight f h s)) = length (ll_flights s)"
  "ll_inflight (set_flight f h s) = ll_inflight s" "ll_calls (set_flight f h s) = ll_calls s"
  by (simp_all add: set_flight_def)

lemma nth_set_flight: "f < length (ll_flights s) \<Longrightarrow>
  ll_flights (set_flight f h s) ! j = (if j = f then h (ll_flights s ! f) else ll_flights s ! j)"
  by (simp add: set_flight_def)

lemma leading_set: "f < length (ll_flights s) \<Longrightarrow> fl_done (h (ll_flights s ! f)) = fl_done (ll_flights s ! f) \<Longrightarrow>
  leading C own (set_flight f h s) t rq f = leading C own s t rq f"
  by (auto simp: leading_def nth_set_flight)

lemma begin_inv:
  assumes inv: "llm_inv C rqs own (s, ts)" and t: "t < length ts" "ts ! t = (rq, Begin)"
    and st: "begin_call C rq s = (g', s')"
  shows "llm_inv C rqs own (s', ts[t := (rq, g')])"
proof (rule quiet_step[OF inv t])
  show "thread_ok C rqs own s' t g'"
    using st by (auto simp: begin_call_def thread_ok_def truthful_def hit_reply_def Let_def
        split: prod.splits sum.splits lookup_result.splits if_splits)
qed (use st in \<open>auto simp: begin_call_def Let_def split: prod.splits\<close>)

lemma rq_at:
  assumes "llm_inv C rqs own (s, ts)" "t < length ts" "ts ! t = (rq, g)"
  shows "rqs ! t = rq" "t < length rqs" "thread_ok C rqs own s t g"
  using llm_invD(1)[OF assms(1)] llm_invD(2)[OF assms(1,2)] assms(2,3) by auto

lemma join_inv:
  assumes inv: "llm_inv C rqs own (s, ts)" and t: "t < length ts" "ts ! t = (rq, Missed why score)"
    and st: "join_flight C rq why score s = (g', s')"
  shows "\<exists>own. llm_inv C rqs own (s', ts[t := (rq, g')])"
proof -
  note r = rq_at[OF inv t]
  let ?k = "flight_key C rq"
  consider
      (alone) "g' = Alone why score" "s' = s"
    | (follow) f where "map_of (ll_inflight s) ?k = Some f" "g' = Wait f why score" "s' = s"
    | (lead) "map_of (ll_inflight s) ?k = None" "g' = Lead (length (ll_flights s)) why score"
        "s' = s\<lparr>ll_inflight := AList.update ?k (length (ll_flights s)) (ll_inflight s),
          ll_flights := ll_flights s @ [\<lparr>fl_done = False, fl_response = JNull, fl_error = None\<rparr>]\<rparr>"
  proof (cases "shareable C rq")
    case True
    show thesis
    proof (cases "map_of (ll_inflight s) ?k")
      case None
      show thesis by (rule lead[OF None]) (use st True None in \<open>simp_all add: join_flight_def\<close>)
    next
      case (Some f)
      show thesis by (rule follow[OF Some]) (use st True Some in \<open>simp_all add: join_flight_def\<close>)
    qed
  next
    case False
    show thesis by (rule alone) (use st False in \<open>simp_all add: join_flight_def\<close>)
  qed
  then show ?thesis
  proof cases
    case alone
    have "thread_ok C rqs own s t (Alone why score)" by (simp add: thread_ok_def)
    then have "llm_inv C rqs own (s, ts[t := (rq, Alone why score)])"
      by (intro quiet_step[OF inv t]) simp_all
    then have "llm_inv C rqs own (s', ts[t := (rq, g')])" unfolding alone .
    then show ?thesis by (intro exI[of _ own])
  next
    case follow
    have "llm_inv C rqs own (s', ts[t := (rq, g')])"
    proof (rule quiet_step[OF inv t])
      show "thread_ok C rqs own s' t g'"
        using llm_invD(6)[OF inv follow(1)] by (simp add: follow thread_ok_def r(1))
    qed (simp_all add: follow)
    then show ?thesis by (intro exI[of _ own])
  next
    case lead
    let ?n = "length (ll_flights s)"
    have "llm_inv C rqs (own(?n := t)) (s', ts[t := (rq, g')])"
    proof (rule llm_inv_update[OF inv t])
      show "thread_ok C rqs (own(?n := t)) s' t g'"
        by (simp add: lead thread_ok_def leading_def r(1))
      show "f < length (ll_flights s') \<and> flight_key C (rqs ! (own(?n := t)) f) = k" if "map_of (ll_inflight s') k = Some f" for k f
        using that llm_invD(6)[OF inv, of k f] by (auto simp: lead r(1) split: if_splits)
      show "if fl_done (ll_flights s' ! f) then settled C s' f (rqs ! t) else owns g' = Some f"
        if f: "f < length (ll_flights s')" "(own(?n := t)) f = t" for f
      proof (cases "f = ?n")
        case False
        with f have o: "f < ?n" "own f = t" by (simp_all add: lead)
        have "settled C s f (rqs ! t)" "fl_done (ll_flights s ! f)"
          using my_flight[OF inv t o] by (simp_all split: if_splits)
        then show ?thesis using o(1) by (simp add: lead settled_def nth_append)
      qed (simp add: lead)
      show "map_of (ll_inflight s') k = Some f" if "map_of (ll_inflight s) k = Some f" for k f
        using that lead(1) by (auto simp: lead)
    qed (auto simp: lead nth_append)
    then show ?thesis by (intro exI[of _ "own(?n := t)"])
  qed
qed

lemma lone_inv:
  assumes inv: "llm_inv C rqs own (s, ts)" and t: "t < length ts" "ts ! t = (rq, Alone why score)"
    and st: "lone_call rq why score answer s = (g', s')"
  shows "llm_inv C rqs own (s', ts[t := (rq, g')])"
proof (rule quiet_step[OF inv t])
  show "thread_ok C rqs own s' t g'"
    using st rq_at(1)[OF inv t] by (auto simp: lone_call_def thread_ok_def truthful_def answered_by_def miss_reply_def upstream_def
        split: sum.splits)
qed (use st in \<open>auto simp: lone_call_def upstream_def split: sum.splits\<close>)

lemma lead_inv:
  assumes inv: "llm_inv C rqs own (s, ts)" and t: "t < length ts" "ts ! t = (rq, Lead f why score)"
    and st: "lead_flight rq f why score answer s = (g', s')"
  shows "llm_inv C rqs own (s', ts[t := (rq, g')])"
proof -
  note r = rq_at[OF inv t]
  have l: "leading C own s t rq f" "fl_error (ll_flights s ! f) = None" using r(1,3) by (auto simp: thread_ok_def)
  then have f: "f < length (ll_flights s)" "own f = t" "\<not> fl_done (ll_flights s ! f)" by (auto simp: leading_def)
  show ?thesis
  proof (cases answer)
    case (Inl e)
    then have s': "g' = Finish f (Inl e)" "s' = set_flight f (\<lambda>x. x\<lparr>fl_error := Some e\<rparr>) s" using st by (simp_all add: lead_flight_def)
    show ?thesis
    proof (rule busy_step[OF inv t _ _ f(1,2)])
      show "thread_ok C rqs own s' t g'"
        using l f by (simp add: s' thread_ok_def r(1) leading_set settled_def truthful_def nth_set_flight)
    qed (use f in \<open>simp_all add: s' nth_set_flight\<close>)
  next
    case (Inr a)
    then have s': "g' = Got f why score a" "s' = set_flight f (\<lambda>x. x\<lparr>fl_response := a\<rparr>) (s\<lparr>ll_calls := (rq, a) # ll_calls s\<rparr>)"
      using st by (simp_all add: lead_flight_def upstream_def)
    have "leading C own s' t rq f" using l(1) by (simp add: s' leading_def set_flight_def)
    then have ok: "thread_ok C rqs own s' t g'"
      using f by (auto simp: s' thread_ok_def r(1) nth_set_flight answered_by_def)
    show ?thesis
      by (rule busy_step[OF inv t _ _ f(1,2) _ _ _ _ ok]) (use f in \<open>auto simp: s' nth_set_flight\<close>)
  qed
qed

lemma store_inv:
  assumes inv: "llm_inv C rqs own (s, ts)" and t: "t < length ts" "ts ! t = (rq, Got f why score a)"
    and st: "store_answer C rq f why score a s = (g', s')"
  shows "llm_inv C rqs own (s', ts[t := (rq, g')])"
proof -
  note r = rq_at[OF inv t]
  have l: "leading C own s t rq f" "fl_response (ll_flights s ! f) = a" "answered_by C (ll_calls s) rq a"
    using r(1,3) by (auto simp: thread_ok_def)
  then have f: "f < length (ll_flights s)" "own f = t" "\<not> fl_done (ll_flights s ! f)" by (auto simp: leading_def)
  obtain res c where c: "store C (rq_query rq) a (rq_ctx rq) None (rq_tools rq) (rq_temperature rq) (ll_cache s) = (res, c)"
    by (cases "store C (rq_query rq) a (rq_ctx rq) None (rq_tools rq) (rq_temperature rq) (ll_cache s)")
  show ?thesis
  proof (cases res)
    case (Inl e)
    then have s': "g' = Finish f (Inl e)" "s' = set_flight f (\<lambda>x. x\<lparr>fl_error := Some e\<rparr>) (s\<lparr>ll_cache := c\<rparr>)"
      using st c by (simp_all add: store_answer_def Let_def)
    have "leading C own s' t rq f" using l(1) by (simp add: s' leading_def set_flight_def)
    then have ok: "thread_ok C rqs own s' t g'"
      using f by (simp add: s' thread_ok_def r(1) settled_def truthful_def nth_set_flight)
    show ?thesis
      by (rule busy_step[OF inv t _ _ f(1,2) _ _ _ _ ok]) (use f in \<open>auto simp: s' nth_set_flight\<close>)
  next
    case (Inr i)
    then have s': "g' = Finish f (Inr (miss_reply a why score))" "s' = s\<lparr>ll_cache := c\<rparr>"
      using st c by (simp_all add: store_answer_def Let_def)
    have "leading C own s' t rq f" using l(1) by (simp add: s' leading_def)
    then have ok: "thread_ok C rqs own s' t g'"
      using l(2,3) by (simp add: s' thread_ok_def r(1) settled_def truthful_def miss_reply_def)
    show ?thesis
      by (rule busy_step[OF inv t _ _ f(1,2) _ _ _ _ ok]) (use f in \<open>auto simp: s'\<close>)
  qed
qed

lemma finish_inv:
  assumes inv: "llm_inv C rqs own (s, ts)" and t: "t < length ts" "ts ! t = (rq, Finish f out)"
    and st: "finish_flight C rq f out s = (g', s')"
  shows "llm_inv C rqs own (s', ts[t := (rq, g')])"
proof -
  note r = rq_at[OF inv t]
  have l: "leading C own s t rq f" "settled C s f rq" "truthful C (ll_calls s) rq out" using r(1,3) by (auto simp: thread_ok_def)
  then have f: "f < length (ll_flights s)" "own f = t" "\<not> fl_done (ll_flights s ! f)"
    "map_of (ll_inflight s) (flight_key C rq) = Some f" by (auto simp: leading_def)
  have s': "g' = Signal f out" "s' = s\<lparr>ll_inflight := AList.delete (flight_key C rq) (ll_inflight s)\<rparr>"
    using st f(4) by (simp_all add: finish_flight_def)
  have ok: "thread_ok C rqs own s' t g'" using f l by (simp add: s' thread_ok_def r(1) settled_def)
  show ?thesis
    by (rule busy_step[OF inv t _ _ f(1,2) _ _ _ _ ok]) (use f in \<open>auto simp: s' split: if_splits\<close>)
qed

lemma signal_inv:
  assumes inv: "llm_inv C rqs own (s, ts)" and t: "t < length ts" "ts ! t = (rq, Signal f out)"
  shows "llm_inv C rqs own (set_flight f (\<lambda>x. x\<lparr>fl_done := True\<rparr>) s, ts[t := (rq, Returned out)])"
proof -
  let ?s = "set_flight f (\<lambda>x. x\<lparr>fl_done := True\<rparr>) s"
  note r = rq_at[OF inv t]
  have f: "f < length (ll_flights s)" "own f = t" and l: "settled C s f rq" "truthful C (ll_calls s) rq out"
    using r(1,3) by (auto simp: thread_ok_def)
  show ?thesis
  proof (rule llm_inv_update[OF inv t])
    show "thread_ok C rqs own ?s t (Returned out)" using l by (simp add: thread_ok_def r(1))
    show "if fl_done (ll_flights ?s ! j) then settled C ?s j (rqs ! t) else owns (Returned out) = Some j"
      if j: "j < length (ll_flights ?s)" "own j = t" for j
    proof (cases "j = f")
      case False
      then have "settled C s j (rqs ! t) \<and> fl_done (ll_flights s ! j)"
        using my_flight[OF inv t, of j] j by (auto split: if_splits)
      then show ?thesis using False f(1) by (simp add: settled_def nth_set_flight)
    qed (use l f r(1) in \<open>simp add: settled_def nth_set_flight\<close>)
    show "j < length (ll_flights ?s) \<and> flight_key C (rqs ! own j) = k" if "map_of (ll_inflight ?s) k = Some j" for k j
      using llm_invD(6)[OF inv, of k j] that by simp
  qed (use f in \<open>auto simp: nth_set_flight\<close>)
qed

lemma follow_inv:
  assumes inv: "llm_inv C rqs own (s, ts)" and t: "t < length ts" "ts ! t = (rq, Wait f why score)"
    and fin: "fl_done (ll_flights s ! f)"
  shows "llm_inv C rqs own (s, ts[t := (rq, follow f why score s)])"
proof (rule quiet_step[OF inv t])
  note r = rq_at[OF inv t]
  have f: "f < length (ll_flights s)" "flight_key C (rqs ! own f) = flight_key C rq" using r(1,3) by (auto simp: thread_ok_def)
  from llm_invD(4)[OF inv f(1) fin] show "thread_ok C rqs own s t (follow f why score s)"
    using f(2) by (auto simp: thread_ok_def follow_def r(1) truthful_def settled_def answered_by_def miss_reply_def split: option.split)
qed simp_all

lemma llm_step_inv:
  assumes "llm_inv C rqs own st" "llm_step C st st'"
  shows "\<exists>own. llm_inv C rqs own st'"
  using assms(2,1)
proof (induction rule: llm_step.induct)
  case (thread t ts rq g answer s g' s')
  note i = thread.prems thread.hyps(1,2)
  show ?case
  proof (cases g)
    case (Missed why score)
    then show ?thesis using join_inv[OF thread.prems thread.hyps(1)] thread.hyps(2,3) by simp
  next
    case (Wait f why score)
    then show ?thesis using follow_inv[OF thread.prems thread.hyps(1)] thread.hyps(2,3) by (auto split: if_splits)
  qed (use begin_inv[OF i(1,2)] lone_inv[OF i(1,2)] lead_inv[OF i(1,2)] store_inv[OF i(1,2)] finish_inv[OF i(1,2)] signal_inv[OF i(1,2)] thread.hyps(2,3)
      in \<open>auto intro!: exI[of _ own]\<close>)
qed

lemma llm_start_inv: "llm_inv C rqs own (llm_start c rqs)"
  by (simp add: llm_inv_def llm_start_def thread_ok_def comp_def)

lemma llm_reachable: "(llm_step C ^^ k) (llm_start c rqs) st \<Longrightarrow> \<exists>own. llm_inv C rqs own st"
proof (induction k arbitrary: st)
  case 0
  have "llm_inv C rqs (\<lambda>f. 0) (llm_start c rqs)" by (rule llm_start_inv)
  with 0 show ?case by (intro exI[of _ "\<lambda>f. 0"]) simp
next
  case (Suc k)
  then show ?case using llm_step_inv by (metis relpowp_Suc_E)
qed

text \<open>Calls are only added.\<close>

lemma calls_grow: "call_step C rq answer s g = Some (g', s') \<Longrightarrow> set (ll_calls s) \<subseteq> set (ll_calls s')"
  by (cases g) (auto simp: begin_call_def join_flight_def lone_call_def lead_flight_def store_answer_def finish_flight_def upstream_def
      set_flight_def Let_def split: prod.splits sum.splits option.splits if_splits)

section \<open>Requests that must not be shared\<close>

text \<open>They have no part in a flight, and what they return as a miss is an answer to their own request.\<close>

definition role_ok :: "'i config \<Rightarrow> (request \<times> json) list \<Rightarrow> request \<Rightarrow> stage \<Rightarrow> bool" where
  "role_ok C calls rq g \<longleftrightarrow> (case g of
     Begin \<Rightarrow> True
   | Missed why score \<Rightarrow> True
   | Alone why score \<Rightarrow> \<not> shareable C rq
   | Returned (Inr r) \<Rightarrow> \<not> shareable C rq \<longrightarrow> cr_status r = S ''MISS'' \<longrightarrow> (rq, cr_response r) \<in> set calls
   | Returned (Inl e) \<Rightarrow> True
   | _ \<Rightarrow> shareable C rq)"

lemma role_mono: "role_ok C calls rq g \<Longrightarrow> set calls \<subseteq> set calls' \<Longrightarrow> role_ok C calls' rq g"
  by (auto simp: role_ok_def split: stage.splits sum.splits)

lemma role_step:
  assumes "role_ok C (ll_calls s) rq g" "call_step C rq answer s g = Some (g', s')"
  shows "role_ok C (ll_calls s') rq g'"
  using assms
  by (cases g) (auto simp: role_ok_def begin_call_def hit_reply_def join_flight_def lone_call_def miss_reply_def upstream_def lead_flight_def
      store_answer_def finish_flight_def follow_def set_flight_def Let_def
      split: prod.splits sum.splits lookup_result.splits option.splits if_splits)

lemma roles: "(llm_step C ^^ k) (llm_start c rqs) st \<Longrightarrow> \<forall>(rq, g) \<in> set (snd st). role_ok C (ll_calls (fst st)) rq g"
proof (induction k arbitrary: st)
  case 0
  then show ?case by (auto simp: llm_start_def role_ok_def)
next
  case (Suc k)
  then obtain u where u: "(llm_step C ^^ k) (llm_start c rqs) u" "llm_step C u st" by auto
  from u(2) Suc.IH[OF u(1)] show ?case
  proof (induction rule: llm_step.induct)
    case (thread t ts rq g answer s g' s')
    have all: "role_ok C (ll_calls s) (fst x) (snd x)" if "x \<in> set ts" for x using thread.prems that by auto
    have "(rq, g) \<in> set ts" using thread.hyps(1,2) by (auto simp: in_set_conv_nth)
    then have new: "role_ok C (ll_calls s') rq g'" using role_step[OF _ thread.hyps(3)] all by fastforce
    have "role_ok C (ll_calls s') (fst x) (snd x)" if "x \<in> set (ts[t := (rq, g')])" for x
      using that new role_mono[OF all calls_grow[OF thread.hyps(3)]] set_update_subset_insert[of ts t "(rq, g')"] by auto
    then show ?case by auto
  qed
qed

section \<open>Properties\<close>

lemma can_step:
  assumes inv: "llm_inv C rqs own (s, ts)" and t: "t < length ts" "ts ! t = (rq, g)" and g: "\<And>out. g \<noteq> Returned out"
  shows "\<exists>st. llm_step C (s, ts) st"
proof -
  have go: "\<exists>st. llm_step C (s, ts) st"
    if u: "u < length ts" "ts ! u = (rq', g')" and no: "\<And>out. g' \<noteq> Returned out" "\<And>f why score. g' \<noteq> Wait f why score" for u rq' g'
  proof -
    have "call_step C rq' (Inl ValueError) s g' \<noteq> None" using no by (cases g') auto
    then obtain g2 s2 where "call_step C rq' (Inl ValueError) s g' = Some (g2, s2)" by auto
    from llm_step.thread[OF u this] show ?thesis ..
  qed
  show ?thesis
  proof (cases "\<exists>f why score. g = Wait f why score")
    case False
    then show ?thesis using go[OF t] g by blast
  next
    case True
    then obtain f why score where w: "g = Wait f why score" by blast
    have f: "f < length (ll_flights s)" using rq_at(3)[OF inv t] by (auto simp: w thread_ok_def Let_def)
    show ?thesis
    proof (cases "fl_done (ll_flights s ! f)")
      case True
      then have "call_step C rq (Inl ValueError) s g = Some (follow f why score s, s)" by (simp add: w)
      from llm_step.thread[OF t this] show ?thesis ..
    next
      case False
      obtain rq' g' where o: "ts ! own f = (rq', g')" by (cases "ts ! own f")
      have "owns g' = Some f" using llm_invD(5)[OF inv f False] o by simp
      then show ?thesis using go[OF llm_invD(3)[OF inv f] o] by (cases g') auto
    qed
  qed
qed

section \<open>A sample run\<close>

text \<open>Two calls with the same cacheable request on an empty cache.\<close>

definition sample_question :: request where
  "sample_question = \<lparr>rq_query = [], rq_ctx = sample_ctx, rq_tools = False, rq_temperature = Dec False 0 0\<rparr>"

abbreviation sample_why :: pystr where "sample_why \<equiv> S ''empty_partition''"

abbreviation sample_miss :: cached_response where "sample_miss \<equiv> miss_reply (JInt 42) sample_why None"

lemma sample_lookup:
  "\<exists>m'. lookup sample_config [] sample_ctx False (Dec False 0 0) (sample_start\<lparr>sc_metrics := m\<rparr>)
     = (Inr (Miss sample_why None), sample_start\<lparr>sc_metrics := m'\<rparr>)"
  by (simp add: lookup_def lookup_internal_def sample_cacheable Let_def sample_fields bindS_def getS_def sample_start_def
      refuse_def count_miss_def metric_def modifyS_def returnS_def split: if_splits)

lemma sample_first_lookup:
  "\<exists>m'. lookup sample_config [] sample_ctx False (Dec False 0 0) sample_start
     = (Inr (Miss sample_why None), sample_start\<lparr>sc_metrics := m'\<rparr>)"
proof -
  have "sample_start\<lparr>sc_metrics := sc_metrics sample_start\<rparr> = sample_start" by (simp add: sample_start_def)
  with sample_lookup[of "sc_metrics sample_start"] show ?thesis by simp
qed

lemma sample_store_any:
  "store sample_config [] (JInt 42) sample_ctx None False (Dec False 0 0) (sample_start\<lparr>sc_metrics := m\<rparr>)
     = (Inr (Some sample_id), sample_after\<lparr>sc_metrics := m\<rparr>)"
  by (simp add: store_def Let_def sample_cacheable sample_embed sample_hash sample_fields validate_ttl_def liftS_def
      bindS_def now_def sample_start_def get_or_create_partition_def modifyS_def put_answer_def at_part_def getS_def
      new_partition_def install_new_def fresh_id_def returnS_def index_add_at_def sample_ops numpy_ops_def index_add_def
      index_init_def all_finite_def set_part_def insert_entry_def sample_key_def[symmetric])
    (simp add: sample_id_def sample_after_def sample_entry_def)

lemma first_thread:
  assumes "(llm_step C ^^ k) st (s, [(rq, g), b])" "call_step C rq answer s g = Some (g', s')"
  shows "(llm_step C ^^ Suc k) st (s', [(rq, g'), b])"
proof -
  have "llm_step C (s, [(rq, g), b]) (s', [(rq, g'), b])"
    using llm_step.thread[of 0 "[(rq, g), b]" rq g C answer s g' s'] assms(2) by simp
  with assms(1) show ?thesis by auto
qed

lemma second_thread:
  assumes "(llm_step C ^^ k) st (s, [a, (rq, g)])" "call_step C rq answer s g = Some (g', s')"
  shows "(llm_step C ^^ Suc k) st (s', [a, (rq, g')])"
proof -
  have "llm_step C (s, [a, (rq, g)]) (s', [a, (rq, g')])"
    using llm_step.thread[of 1 "[a, (rq, g)]" rq g C answer s g' s'] assms(2) by simp
  with assms(1) show ?thesis by auto
qed

text \<open>The second call starts while the first one is upstream, waits, and gets the same answer.\<close>

lemma sample_shared_run:
  "\<exists>s. (llm_step sample_config ^^ 9) (llm_start sample_start [sample_question, sample_question])
     (s, [(sample_question, Returned (Inr sample_miss)), (sample_question, Returned (Inr sample_miss))])
     \<and> ll_calls s = [(sample_question, JInt 42)]"
proof -
  let ?C = sample_config and ?q = sample_question and ?k = "flight_key sample_config sample_question" and ?a = "Inr (JInt 42)"
  obtain m1 where m1: "lookup ?C [] sample_ctx False (Dec False 0 0) sample_start
      = (Inr (Miss sample_why None), sample_start\<lparr>sc_metrics := m1\<rparr>)" using sample_first_lookup by blast
  obtain m2 where m2: "lookup ?C [] sample_ctx False (Dec False 0 0) (sample_start\<lparr>sc_metrics := m1\<rparr>)
      = (Inr (Miss sample_why None), sample_start\<lparr>sc_metrics := m2\<rparr>)" using sample_lookup by blast
  let ?s0 = "\<lparr>ll_cache = sample_start, ll_inflight = [], ll_flights = [], ll_calls = []\<rparr>"
  let ?s1 = "?s0\<lparr>ll_cache := sample_start\<lparr>sc_metrics := m1\<rparr>\<rparr>"
  let ?s2 = "?s1\<lparr>ll_inflight := [(?k, 0)], ll_flights := [\<lparr>fl_done = False, fl_response = JNull, fl_error = None\<rparr>]\<rparr>"
  let ?s3 = "?s2\<lparr>ll_cache := sample_start\<lparr>sc_metrics := m2\<rparr>\<rparr>"
  let ?s4 = "?s3\<lparr>ll_flights := [\<lparr>fl_done = False, fl_response = JInt 42, fl_error = None\<rparr>], ll_calls := [(?q, JInt 42)]\<rparr>"
  let ?s5 = "?s4\<lparr>ll_cache := sample_after\<lparr>sc_metrics := m2\<rparr>\<rparr>"
  let ?s6 = "?s5\<lparr>ll_inflight := []\<rparr>"
  let ?s7 = "?s6\<lparr>ll_flights := [\<lparr>fl_done = True, fl_response = JInt 42, fl_error = None\<rparr>]\<rparr>"
  note q = sample_question_def
  have share: "shareable ?C ?q" using sample_cacheable by (simp add: shareable_def q)
  have 0: "(llm_step ?C ^^ 0) (llm_start sample_start [?q, ?q]) (?s0, [(?q, Begin), (?q, Begin)])"
    by (simp add: llm_start_def)
  have 1: "call_step ?C ?q ?a ?s0 Begin = Some (Missed sample_why None, ?s1)" by (simp add: begin_call_def q m1)
  have 2: "call_step ?C ?q ?a ?s1 (Missed sample_why None) = Some (Lead 0 sample_why None, ?s2)"
    by (simp add: join_flight_def share)
  have 3: "call_step ?C ?q ?a ?s2 Begin = Some (Missed sample_why None, ?s3)" by (simp add: begin_call_def q m2)
  have 4: "call_step ?C ?q ?a ?s3 (Missed sample_why None) = Some (Wait 0 sample_why None, ?s3)"
    by (simp add: join_flight_def share)
  have 5: "call_step ?C ?q ?a ?s3 (Lead 0 sample_why None) = Some (Got 0 sample_why None (JInt 42), ?s4)"
    by (simp add: lead_flight_def set_flight_def upstream_def)
  have 6: "call_step ?C ?q ?a ?s4 (Got 0 sample_why None (JInt 42)) = Some (Finish 0 (Inr sample_miss), ?s5)"
    by (simp add: store_answer_def q sample_store_any)
  have 7: "call_step ?C ?q ?a ?s5 (Finish 0 (Inr sample_miss)) = Some (Signal 0 (Inr sample_miss), ?s6)"
    by (simp add: finish_flight_def)
  have 8: "call_step ?C ?q ?a ?s6 (Signal 0 (Inr sample_miss)) = Some (Returned (Inr sample_miss), ?s7)"
    by (simp add: set_flight_def)
  have 9: "call_step ?C ?q ?a ?s7 (Wait 0 sample_why None) = Some (Returned (Inr sample_miss), ?s7)"
    by (simp add: follow_def)
  note run = second_thread[OF first_thread[OF first_thread[OF first_thread[OF first_thread[OF second_thread[OF second_thread[OF
    first_thread[OF first_thread[OF 0 1] 2] 3] 4] 5] 6] 7] 8] 9]
  have nine: "Suc (Suc (Suc (Suc (Suc (Suc (Suc (Suc (Suc 0)))))))) = 9" by simp
  show ?thesis using run unfolding nine by (intro exI[of _ ?s7] conjI) simp_all
qed

section \<open>Properties\<close>

text \<open>C27 At any moment of any interleaving of calls, at most one of the calls that the policy lets the cache answer
  is upstream for a query in a context, be it calling, storing or leaving the registry. An answer that a call
  returns as a miss, its own or one it waited for, is an answer that upstream gave to this very query in this very
  context. A request that the policy refuses (tools, freshness, temperature) never leads or joins a flight: what it
  returns as a miss is an answer to its own request; such requests may be upstream at the same time.\<close>

theorem single_flight_sound:
  assumes run: "(llm_step C ^^ k) (llm_start c rqs) (s, ts)"
  shows "(\<forall>i < length ts. \<forall>j < length ts. shareable C (fst (ts ! i)) \<and> shareable C (fst (ts ! j))
        \<and> in_upstream (snd (ts ! i)) \<and> in_upstream (snd (ts ! j)) \<and> flight_key C (fst (ts ! i)) = flight_key C (fst (ts ! j)) \<longrightarrow> i = j)
    \<and> (\<forall>i < length ts. \<forall>r. snd (ts ! i) = Returned (Inr r) \<and> cr_status r = S ''MISS'' \<longrightarrow>
        (\<exists>rq. rq_query rq = rq_query (fst (ts ! i)) \<and> rq_ctx rq = rq_ctx (fst (ts ! i)) \<and> (rq, cr_response r) \<in> set (ll_calls s)))
    \<and> (\<forall>i < length ts. \<not> shareable C (fst (ts ! i)) \<longrightarrow> owns (snd (ts ! i)) = None \<and> (\<forall>f why score. snd (ts ! i) \<noteq> Wait f why score)
        \<and> (\<forall>r. snd (ts ! i) = Returned (Inr r) \<and> cr_status r = S ''MISS'' \<longrightarrow> (fst (ts ! i), cr_response r) \<in> set (ll_calls s)))"
proof -
  obtain own where inv: "llm_inv C rqs own (s, ts)" using llm_reachable[OF run] by blast
  have role: "role_ok C (ll_calls s) (fst (ts ! i)) (snd (ts ! i))" if "i < length ts" for i
    using roles[OF run] nth_mem[OF that] by (auto simp: split_beta)
  have lead: "\<exists>f. leading C own s i (fst (ts ! i)) f"
    if h: "i < length ts" "shareable C (fst (ts ! i))" "in_upstream (snd (ts ! i))" for i
  proof -
    obtain rq g where e: "ts ! i = (rq, g)" by (cases "ts ! i")
    note r = rq_at(1,3)[OF inv h(1) e]
    have g: "in_upstream g" "\<And>why score. g \<noteq> Alone why score" using h(2,3) role[OF h(1)] e by (auto simp: role_ok_def)
    have "\<exists>f. leading C own s i (rqs ! i) f"
    proof (cases g)
      case (Lead f why score)
      then show ?thesis using r(2) unfolding thread_ok_def Let_def by (intro exI[of _ f]) simp
    next
      case (Got f why score a)
      then show ?thesis using r(2) unfolding thread_ok_def Let_def by (intro exI[of _ f]) simp
    next
      case (Finish f out)
      then show ?thesis using r(2) unfolding thread_ok_def Let_def by (intro exI[of _ f]) simp
    qed (use g in \<open>simp_all add: in_upstream_def\<close>)
    then show ?thesis using r(1) e by simp
  qed
  have one: "i = j" if h: "i < length ts" "j < length ts" "shareable C (fst (ts ! i))" "shareable C (fst (ts ! j))"
      "in_upstream (snd (ts ! i))" "in_upstream (snd (ts ! j))" "flight_key C (fst (ts ! i)) = flight_key C (fst (ts ! j))" for i j
  proof -
    obtain f where f: "leading C own s i (fst (ts ! i)) f" using lead[OF h(1,3,5)] ..
    obtain f' where f': "leading C own s j (fst (ts ! j)) f'" using lead[OF h(2,4,6)] ..
    from f f' have "f = f'" unfolding leading_def h(7) by simp
    with f f' show "i = j" unfolding leading_def by blast
  qed
  have said: "\<exists>rq. rq_query rq = rq_query (fst (ts ! i)) \<and> rq_ctx rq = rq_ctx (fst (ts ! i)) \<and> (rq, cr_response r) \<in> set (ll_calls s)"
    if i: "i < length ts" "snd (ts ! i) = Returned (Inr r)" "cr_status r = S ''MISS''" for i r
  proof -
    have e: "ts ! i = (fst (ts ! i), Returned (Inr r))" by (simp flip: i(2))
    have "answered_by C (ll_calls s) (fst (ts ! i)) (cr_response r)"
      using rq_at(1,3)[OF inv i(1) e] i(3) by (simp add: thread_ok_def truthful_def)
    then show ?thesis unfolding answered_by_def flight_key_def using context_of_key by blast
  qed
  have alone: "owns (snd (ts ! i)) = None \<and> (\<forall>f why score. snd (ts ! i) \<noteq> Wait f why score)
      \<and> (\<forall>r. snd (ts ! i) = Returned (Inr r) \<and> cr_status r = S ''MISS'' \<longrightarrow> (fst (ts ! i), cr_response r) \<in> set (ll_calls s))"
    if "i < length ts" "\<not> shareable C (fst (ts ! i))" for i
    using role[OF that(1)] that(2) by (cases "snd (ts ! i)") (auto simp: role_ok_def)
  show ?thesis using one said alone by blast
qed

theorem single_flight_sound_witness:
  "\<exists>s. (\<exists>rq. rq_query rq = [] \<and> rq_ctx rq = sample_ctx \<and> (rq, JInt 42) \<in> set (ll_calls s)) \<and> length (ll_calls s) = 1
     \<and> (llm_step sample_config ^^ 9) (llm_start sample_start [sample_question, sample_question])
         (s, [(sample_question, Returned (Inr sample_miss)), (sample_question, Returned (Inr sample_miss))])"
proof -
  obtain s where s: "(llm_step sample_config ^^ 9) (llm_start sample_start [sample_question, sample_question])
     (s, [(sample_question, Returned (Inr sample_miss)), (sample_question, Returned (Inr sample_miss))])"
      "ll_calls s = [(sample_question, JInt 42)]"
    using sample_shared_run by blast
  let ?ts = "[(sample_question, Returned (Inr sample_miss)), (sample_question, Returned (Inr sample_miss))]"
  have "\<forall>i < length ?ts. \<forall>r. snd (?ts ! i) = Returned (Inr r) \<and> cr_status r = S ''MISS'' \<longrightarrow>
        (\<exists>rq. rq_query rq = rq_query (fst (?ts ! i)) \<and> rq_ctx rq = rq_ctx (fst (?ts ! i)) \<and> (rq, cr_response r) \<in> set (ll_calls s))"
    using single_flight_sound[OF s(1)] by (elim conjE)
  from this[rule_format, of 1 sample_miss] have "\<exists>rq. rq_query rq = [] \<and> rq_ctx rq = sample_ctx \<and> (rq, JInt 42) \<in> set (ll_calls s)"
    by (simp add: miss_reply_def sample_question_def)
  with s show ?thesis by (intro exI[of _ s]) simp
qed

text \<open>C28 Calls always come to an end: whatever upstream and the scheduler do, n concurrent calls take at most 6 n
  sections together, and when no call can go on all of them have returned: no waiter is left behind.\<close>

theorem cached_llm_terminates:
  assumes run: "(llm_step C ^^ k) (llm_start c rqs) st"
  shows "k \<le> 6 * length rqs \<and> ((\<nexists>st'. llm_step C st st') \<longrightarrow> (\<forall>(rq, g) \<in> set (snd st). \<exists>out. g = Returned out))"
proof -
  obtain s ts where st: "st = (s, ts)" by (cases st)
  obtain own where inv: "llm_inv C rqs own (s, ts)" using llm_reachable[OF run] st by blast
  have "work (snd (llm_start c rqs)) = 6 * length rqs"
    by (simp add: llm_start_def work_def comp_def sum_list_triv)
  with run_length[OF run] have "k \<le> 6 * length rqs" by simp
  moreover have "\<exists>out. g = Returned out" if stuck: "\<nexists>st'. llm_step C st st'" and m: "(rq, g) \<in> set (snd st)" for rq g
  proof (rule ccontr)
    assume "\<nexists>out. g = Returned out"
    moreover obtain t where "t < length ts" "ts ! t = (rq, g)" using m st by (auto simp: in_set_conv_nth)
    ultimately show False using can_step[OF inv] stuck st by blast
  qed
  ultimately show ?thesis by blast
qed

theorem cached_llm_terminates_witness:
  "\<exists>s. (llm_step sample_config ^^ 9) (llm_start sample_start [sample_question, sample_question])
         (s, [(sample_question, Returned (Inr sample_miss)), (sample_question, Returned (Inr sample_miss))])
     \<and> 9 \<le> 6 * length [sample_question, sample_question]"
proof -
  obtain s where s: "(llm_step sample_config ^^ 9) (llm_start sample_start [sample_question, sample_question])
     (s, [(sample_question, Returned (Inr sample_miss)), (sample_question, Returned (Inr sample_miss))])"
    using sample_shared_run by blast
  from cached_llm_terminates[OF s] s show ?thesis by blast
qed

end
