(* ===== verification/Cached_Tenant.thy ===== *)
theory Cached_Tenant
  imports Cached_Llm
begin

text \<open>
  The client and the cache together: starting from an empty cache, whatever a call returns, a hit
  or a miss, is an answer that upstream gave in the context of that call.
\<close>

section \<open>Where the entries of the cache come from\<close>

definition upstream_said :: "'i config \<Rightarrow> (request \<times> json) list \<Rightarrow> provenance" where
  "upstream_said C calls key i q r \<longleftrightarrow> (\<exists>rq. flight_key C rq = (key, q) \<and> (rq, r) \<in> set calls)"

definition said_in_context :: "(request \<times> json) list \<Rightarrow> request \<Rightarrow> cached_response \<Rightarrow> bool" where
  "said_in_context calls rq r \<longleftrightarrow> (\<exists>rq'. rq_ctx rq' = rq_ctx rq \<and> (rq', cr_response r) \<in> set calls)"

fun outcome :: "stage \<Rightarrow> (pyexc + cached_response) option" where
  "outcome (Finish f out) = Some out" | "outcome (Signal f out) = Some out" | "outcome (Returned out) = Some out"
| "outcome _ = None"

abbreviation entries_from_upstream :: "numpy_index config \<Rightarrow> numpy_index llm \<Rightarrow> bool" where
  "entries_from_upstream C s \<equiv>
     cache_inv C index_ok row_of (upstream_said C (ll_calls s)) {} (\<lambda>k x. None) (ll_cache s)"

definition hits_from_upstream :: "numpy_index llm \<Rightarrow> request \<Rightarrow> stage \<Rightarrow> bool" where
  "hits_from_upstream s rq g \<longleftrightarrow>
     (\<forall>r. outcome g = Some (Inr r) \<longrightarrow> cr_status r \<noteq> S ''MISS'' \<longrightarrow> said_in_context (ll_calls s) rq r)"

lemma hits_mono: "hits_from_upstream s rq g \<Longrightarrow> set (ll_calls s) \<subseteq> set (ll_calls s') \<Longrightarrow> hits_from_upstream s' rq g"
  unfolding hits_from_upstream_def said_in_context_def by blast

text \<open>Only the lookup and the store touch the cache.\<close>

lemma cache_untouched:
  "call_step C rq answer s g = Some (g', s') \<Longrightarrow> g \<noteq> Begin \<Longrightarrow> (\<And>f why score a. g \<noteq> Got f why score a) \<Longrightarrow>
    ll_cache s' = ll_cache s"
  by (cases g) (auto simp: join_flight_def lone_call_def lead_flight_def finish_flight_def upstream_def
      set_flight_def Let_def split: prod.splits sum.splits option.splits if_splits)

lemma upstream_mono:
  assumes laws: "cache_index C index_ok row_of dot" and e: "entries_from_upstream C s"
    and c: "set (ll_calls s) \<subseteq> set calls'"
  shows "cache_inv C index_ok row_of (upstream_said C calls') {} (\<lambda>k x. None) (ll_cache s)"
  by (rule cache_index.ease_mono[OF laws e]) (use c in \<open>auto simp: upstream_said_def\<close>)

lemma begin_from_upstream:
  assumes laws: "cache_index C index_ok row_of dot" and e: "entries_from_upstream C s"
    and st: "begin_call C rq s = (g', s')"
  shows "entries_from_upstream C s' \<and> hits_from_upstream s' rq g'"
proof -
  let ?key = "partition_key_for C (rq_ctx rq)" and ?G = "upstream_said C (ll_calls s)"
  obtain r c where l: "lookup C (rq_query rq) (rq_ctx rq) (rq_tools rq) (rq_temperature rq) (ll_cache s) = (r, c)"
    by (cases "lookup C (rq_query rq) (rq_ctx rq) (rq_tools rq) (rq_temperature rq) (ll_cache s)")
  have s': "s' = s\<lparr>ll_cache := c\<rparr>" using st l by (simp add: begin_call_def)
  note triple = cache_index.triple_lookup[OF laws, of ?G "{}" "sc_ticks (ll_cache s)" "rq_query rq" "rq_ctx rq" "rq_tools rq" "rq_temperature rq"]
  have pre: "cache_inv C index_ok row_of ?G {} (\<lambda>k x. None) (ll_cache s) \<and> sc_ticks (ll_cache s) \<le> sc_ticks (ll_cache s)"
    using e by simp
  show ?thesis
  proof (cases r)
    case (Inl x)
    have "cache_inv C index_ok row_of ?G {} (\<lambda>k x. None) c" using tripleE[OF triple pre] l Inl by simp
    then show ?thesis using st l Inl by (auto simp: s' begin_call_def hits_from_upstream_def)
  next
    case (Inr res)
    have post: "cache_inv C index_ok row_of ?G {} (\<lambda>k x. None) c \<and> hit_ok C dot ?key (rq_query rq) (sc_ticks (ll_cache s)) res c"
      using tripleD[OF triple pre] l Inr by simp
    show ?thesis
    proof (cases res)
      case (Miss why score)
      then show ?thesis using st l Inr post by (auto simp: s' begin_call_def hits_from_upstream_def)
    next
      case (Hit resp score matched why i)
      obtain en where en: "entry_at c ?key i en" "en_query en = matched" "en_response en = resp"
        using post Hit by (auto simp: hit_ok_def)
      have "?G ?key i matched resp"
        using cache_index.id_at[OF laws conjunct1[OF post] en(1)] en(2,3) by (auto simp: entry_inv_def)
      then have "\<exists>rq'. rq_ctx rq' = rq_ctx rq \<and> (rq', resp) \<in> set (ll_calls s)"
        using context_of_key unfolding upstream_said_def flight_key_def by blast
      then have "said_in_context (ll_calls s') rq (hit_reply resp score why i)"
        by (simp add: said_in_context_def hit_reply_def s')
      moreover have "g' = Returned (Inr (hit_reply resp score why i))" using st l Inr Hit by (simp add: begin_call_def)
      ultimately show ?thesis using post by (simp add: s' hits_from_upstream_def)
    qed
  qed
qed

lemma store_from_upstream:
  assumes laws: "cache_index C index_ok row_of dot" and cap: "1 \<le> cf_capacity C" and e: "entries_from_upstream C s"
    and a: "answered_by C (ll_calls s) rq a" and st: "store_answer C rq f why score a s = (g', s')"
  shows "entries_from_upstream C s' \<and> hits_from_upstream s' rq g'"
proof -
  let ?key = "partition_key_for C (rq_ctx rq)" and ?G = "upstream_said C (ll_calls s)"
  obtain r c where l: "store C (rq_query rq) a (rq_ctx rq) None (rq_tools rq) (rq_temperature rq) (ll_cache s) = (r, c)"
    by (cases "store C (rq_query rq) a (rq_ctx rq) None (rq_tools rq) (rq_temperature rq) (ll_cache s)")
  have s': "ll_cache s' = c" "ll_calls s' = ll_calls s" using st l by (auto simp: store_answer_def set_flight_def Let_def split: sum.splits)
  have g': "hits_from_upstream s' rq g'"
    using st l by (auto simp: store_answer_def hits_from_upstream_def miss_reply_def Let_def split: sum.splits)
  have pre: "cache_inv C index_ok row_of ?G {} (\<lambda>k x. None) (ll_cache s) \<and> sc_ticks (ll_cache s) = sc_ticks (ll_cache s)"
    using e by simp
  note triple = cache_index.triple_store[OF laws cap, of ?G "{}" "sc_ticks (ll_cache s)" "rq_query rq" a "rq_ctx rq" None
      "rq_tools rq" "rq_temperature rq"]
  have "cache_inv C index_ok row_of ?G {} (\<lambda>k x. None) c"
  proof (cases r)
    case (Inl x)
    then show ?thesis using tripleE[OF triple pre] l by simp
  next
    case (Inr res)
    have "cache_inv C index_ok row_of (plus_stored ?G ?key (rq_query rq) a res) {} (\<lambda>k x. None) c"
      using tripleD[OF triple pre] l Inr by blast
    then show ?thesis
      by (rule cache_index.ease_mono[OF laws])
        (use a in \<open>auto simp: plus_stored_def upstream_said_def answered_by_def flight_key_def\<close>)
  qed
  then show ?thesis using g' s' by simp
qed

lemma step_from_upstream:
  assumes laws: "cache_index C index_ok row_of dot" and cap: "1 \<le> cf_capacity C"
    and inv: "llm_inv C rqs own (s, ts)" and e: "entries_from_upstream C s" and t: "t < length ts" "ts ! t = (rq, g)"
    and h: "hits_from_upstream s rq g" and st: "call_step C rq answer s g = Some (g', s')"
  shows "entries_from_upstream C s' \<and> hits_from_upstream s' rq g'"
proof (cases g)
  case Begin
  then show ?thesis using begin_from_upstream[OF laws e] st by simp
next
  case (Got f why score a)
  have "answered_by C (ll_calls s) rq a" using rq_at(1,3)[OF inv t] by (simp add: Got thread_ok_def)
  then show ?thesis using store_from_upstream[OF laws cap e] st Got by simp
next
  case (Missed why score)
  then have "hits_from_upstream s' rq g'" using st
    by (auto simp: join_flight_def hits_from_upstream_def split: if_splits option.splits)
  then show ?thesis using upstream_mono[OF laws e calls_grow[OF st]] cache_untouched[OF st] Missed by simp
next
  case (Alone why score)
  then have "hits_from_upstream s' rq g'" using st
    by (auto simp: lone_call_def hits_from_upstream_def miss_reply_def map_sum_def split: sum.splits)
  then show ?thesis using upstream_mono[OF laws e calls_grow[OF st]] cache_untouched[OF st] Alone by simp
next
  case (Lead f why score)
  then have "hits_from_upstream s' rq g'" using st by (auto simp: lead_flight_def hits_from_upstream_def split: sum.splits)
  then show ?thesis using upstream_mono[OF laws e calls_grow[OF st]] cache_untouched[OF st] Lead by simp
next
  case (Finish f out)
  then have "hits_from_upstream s' rq g'" using st h
    by (auto simp: finish_flight_def hits_from_upstream_def split: if_splits)
  then show ?thesis using upstream_mono[OF laws e calls_grow[OF st]] cache_untouched[OF st] Finish by simp
next
  case (Signal f out)
  then have "hits_from_upstream s' rq g'" using st h by (auto simp: hits_from_upstream_def set_flight_def)
  then show ?thesis using upstream_mono[OF laws e calls_grow[OF st]] cache_untouched[OF st] Signal by simp
next
  case (Wait f why score)
  then have "hits_from_upstream s' rq g'" using st
    by (auto simp: follow_def hits_from_upstream_def miss_reply_def split: if_splits option.splits)
  then show ?thesis using upstream_mono[OF laws e calls_grow[OF st]] cache_untouched[OF st] Wait by simp
qed (use st in simp)

section \<open>Along a run\<close>

definition tenant_inv :: "numpy_index config \<Rightarrow> numpy_index llm_threads \<Rightarrow> bool" where
  "tenant_inv C st \<longleftrightarrow> (case st of (s, ts) \<Rightarrow>
     entries_from_upstream C s \<and> (\<forall>(rq, g) \<in> set ts. hits_from_upstream s rq g))"

lemma tenant_step:
  assumes laws: "cache_index C index_ok row_of dot" and cap: "1 \<le> cf_capacity C"
    and inv: "llm_inv C rqs own st" "tenant_inv C st" and st: "llm_step C st st'"
  shows "tenant_inv C st'"
  using st inv
proof (induction rule: llm_step.induct)
  case (thread t ts rq g answer s g' s')
  have e: "entries_from_upstream C s" and h: "\<And>x. x \<in> set ts \<Longrightarrow> hits_from_upstream s (fst x) (snd x)"
    using thread.prems(2) by (auto simp: tenant_inv_def)
  have "hits_from_upstream s rq g" using h[of "(rq, g)"] thread.hyps(1,2) by (auto simp: in_set_conv_nth)
  then have new: "entries_from_upstream C s' \<and> hits_from_upstream s' rq g'"
    by (rule step_from_upstream[OF laws cap thread.prems(1) e thread.hyps(1,2) _ thread.hyps(3)])
  have "hits_from_upstream s' (fst x) (snd x)" if "x \<in> set (ts[t := (rq, g')])" for x
    using that new hits_mono[OF h calls_grow[OF thread.hyps(3)]] set_update_subset_insert[of ts t "(rq, g')"] by auto
  with new show ?case by (auto simp: tenant_inv_def)
qed

lemma tenant_run:
  assumes laws: "cache_index C index_ok row_of dot" and cap: "1 \<le> cf_capacity C" and c: "cache_init C = Inr c"
  shows "(llm_step C ^^ k) (llm_start c rqs) st \<Longrightarrow> tenant_inv C st"
proof (induction k arbitrary: st)
  case 0
  have "cache_inv C index_ok row_of (upstream_said C []) {} (\<lambda>k x. None) c"
    by (rule cache_index.ease_mono[OF laws conjunct1[OF cache_index.init_inv[OF laws c]]]) simp
  with 0 show ?case by (auto simp: tenant_inv_def llm_start_def hits_from_upstream_def)
next
  case (Suc k)
  then obtain u where u: "(llm_step C ^^ k) (llm_start c rqs) u" "llm_step C u st" by auto
  obtain own where "llm_inv C rqs own u" using llm_reachable[OF u(1)] by blast
  from tenant_step[OF laws cap this Suc.IH[OF u(1)] u(2)] show ?case .
qed

section \<open>A sample run\<close>

text \<open>Two calls with the same cacheable request, one after the other: a miss that is stored, and an exact hit.\<close>

definition sample_hit_reply :: cached_response where
  "sample_hit_reply = hit_reply (JInt 42) 1 (S ''exact'') sample_id"

lemma sample_hit_missed:
  assumes m: "lookup sample_config [] sample_ctx False (Dec False 0 0) sample_start
     = (Inr (Miss sample_why None), sample_start\<lparr>sc_metrics := m\<rparr>)"
  shows "\<exists>t. lookup sample_config [] sample_ctx False (Dec False 0 0) (sample_after\<lparr>sc_metrics := m\<rparr>)
     = (Inr (Hit (JInt 42) 1 [] (S ''exact'') sample_id), t)"
proof -
  have "\<exists>h. run_calls sample_config sample_start [Lookup [] sample_ctx False (Dec False 0 0)] = (h, sample_start\<lparr>sc_metrics := m\<rparr>)"
    by (simp add: m)
  then obtain h where run: "run_calls sample_config sample_start [Lookup [] sample_ctx False (Dec False 0 0)]
     = (h, sample_start\<lparr>sc_metrics := m\<rparr>)" by blast
  show ?thesis
    by (rule numpy.session_store_lookup[OF sample_init run sample_store_any sample_cacheable])
      (auto simp: sample_fields sample_after_def sample_start_def)
qed

lemma sample_tenant_run:
  "\<exists>s. (llm_step sample_config ^^ 7) (llm_start sample_start [sample_question, sample_question])
     (s, [(sample_question, Returned (Inr sample_miss)), (sample_question, Returned (Inr sample_hit_reply))])"
proof -
  let ?C = sample_config and ?q = sample_question and ?k = "flight_key sample_config sample_question" and ?a = "Inr (JInt 42)"
  obtain m where m: "lookup ?C [] sample_ctx False (Dec False 0 0) sample_start
      = (Inr (Miss sample_why None), sample_start\<lparr>sc_metrics := m\<rparr>)" using sample_first_lookup by blast
  obtain c where c: "lookup ?C [] sample_ctx False (Dec False 0 0) (sample_after\<lparr>sc_metrics := m\<rparr>)
      = (Inr (Hit (JInt 42) 1 [] (S ''exact'') sample_id), c)" using sample_hit_missed[OF m] by blast
  let ?s0 = "\<lparr>ll_cache = sample_start, ll_inflight = [], ll_flights = [], ll_calls = []\<rparr>"
  let ?s1 = "?s0\<lparr>ll_cache := sample_start\<lparr>sc_metrics := m\<rparr>\<rparr>"
  let ?s2 = "?s1\<lparr>ll_inflight := [(?k, 0)], ll_flights := [\<lparr>fl_done = False, fl_response = JNull, fl_error = None\<rparr>]\<rparr>"
  let ?s3 = "?s2\<lparr>ll_flights := [\<lparr>fl_done = False, fl_response = JInt 42, fl_error = None\<rparr>], ll_calls := [(?q, JInt 42)]\<rparr>"
  let ?s4 = "?s3\<lparr>ll_cache := sample_after\<lparr>sc_metrics := m\<rparr>\<rparr>"
  let ?s5 = "?s4\<lparr>ll_inflight := []\<rparr>"
  let ?s6 = "?s5\<lparr>ll_flights := [\<lparr>fl_done = True, fl_response = JInt 42, fl_error = None\<rparr>]\<rparr>"
  note q = sample_question_def
  have share: "shareable ?C ?q" using sample_cacheable by (simp add: shareable_def q)
  have 0: "(llm_step ?C ^^ 0) (llm_start sample_start [?q, ?q]) (?s0, [(?q, Begin), (?q, Begin)])"
    by (simp add: llm_start_def)
  have 1: "call_step ?C ?q ?a ?s0 Begin = Some (Missed sample_why None, ?s1)" by (simp add: begin_call_def q m)
  have 2: "call_step ?C ?q ?a ?s1 (Missed sample_why None) = Some (Lead 0 sample_why None, ?s2)"
    by (simp add: join_flight_def share)
  have 3: "call_step ?C ?q ?a ?s2 (Lead 0 sample_why None) = Some (Got 0 sample_why None (JInt 42), ?s3)"
    by (simp add: lead_flight_def set_flight_def upstream_def)
  have 4: "call_step ?C ?q ?a ?s3 (Got 0 sample_why None (JInt 42)) = Some (Finish 0 (Inr sample_miss), ?s4)"
    by (simp add: store_answer_def q sample_store_any)
  have 5: "call_step ?C ?q ?a ?s4 (Finish 0 (Inr sample_miss)) = Some (Signal 0 (Inr sample_miss), ?s5)"
    by (simp add: finish_flight_def)
  have 6: "call_step ?C ?q ?a ?s5 (Signal 0 (Inr sample_miss)) = Some (Returned (Inr sample_miss), ?s6)"
    by (simp add: set_flight_def)
  have 7: "call_step ?C ?q ?a ?s6 Begin = Some (Returned (Inr sample_hit_reply), ?s6\<lparr>ll_cache := c\<rparr>)"
    by (simp add: begin_call_def q c sample_hit_reply_def)
  note run = second_thread[OF first_thread[OF first_thread[OF first_thread[OF first_thread[OF first_thread[OF first_thread[OF 0 1] 2] 3] 4] 5] 6] 7]
  have seven: "Suc (Suc (Suc (Suc (Suc (Suc (Suc 0)))))) = 7" by simp
  show ?thesis using run unfolding seven by (intro exI[of _ "?s6\<lparr>ll_cache := c\<rparr>"])
qed

section \<open>The property\<close>

text \<open>C29 No answer crosses a context: from an empty cache and under any interleaving, every answer that a call
  returns, out of the cache (exact or semantic), from a flight it joined or from its own upstream call, is an
  answer that upstream gave to a request of that same context.\<close>

theorem no_foreign_answer:
  assumes np: "numpy_ok np" "cf_ops C = numpy_ops np" and init: "cache_init C = Inr c"
    and run: "(llm_step C ^^ k) (llm_start c rqs) (s, ts)"
    and returned: "(rq, Returned (Inr r)) \<in> set ts"
  shows "said_in_context (ll_calls s) rq r"
proof -
  note laws = numpy_laws[OF np]
  have cap: "1 \<le> cf_capacity C" using cache_index.init_inv[OF laws init] by blast
  obtain t where t: "t < length ts" "ts ! t = (rq, Returned (Inr r))" using returned by (auto simp: in_set_conv_nth)
  obtain own where inv: "llm_inv C rqs own (s, ts)" using llm_reachable[OF run] by blast
  have hit: "hits_from_upstream s rq (Returned (Inr r))"
    using tenant_run[OF laws cap init run] returned by (auto simp: tenant_inv_def)
  show ?thesis
  proof (cases "cr_status r = S ''MISS''")
    case True
    then have "answered_by C (ll_calls s) rq (cr_response r)"
      using rq_at(1,3)[OF inv t] by (simp add: thread_ok_def truthful_def)
    then show ?thesis unfolding answered_by_def flight_key_def said_in_context_def using context_of_key by blast
  next
    case False
    then show ?thesis using hit by (simp add: hits_from_upstream_def)
  qed
qed

theorem no_foreign_answer_witness:
  "cr_status sample_hit_reply = S ''HIT-EXACT'' \<and> (\<exists>s. said_in_context (ll_calls s) sample_question sample_hit_reply
     \<and> (llm_step sample_config ^^ 7) (llm_start sample_start [sample_question, sample_question])
         (s, [(sample_question, Returned (Inr (miss_reply (JInt 42) sample_why None))),
              (sample_question, Returned (Inr sample_hit_reply))]))"
proof -
  obtain s where s: "(llm_step sample_config ^^ 7) (llm_start sample_start [sample_question, sample_question])
     (s, [(sample_question, Returned (Inr (miss_reply (JInt 42) sample_why None))),
          (sample_question, Returned (Inr sample_hit_reply))])"
    using sample_tenant_run by blast
  have "said_in_context (ll_calls s) sample_question sample_hit_reply"
    by (rule no_foreign_answer[OF sorting_numpy_ok sample_ops sample_init s]) simp
  with s show ?thesis by (auto simp: sample_hit_reply_def hit_reply_def)
qed

end
