(* ===== verification/Spec2Isabelle.thy ===== *)
theory Spec2Isabelle
  imports Control_Differ Lru_Threads Redact Cli Cached_Tenant
begin

text \<open>
  A verification of the Python programs of this repository: an LRU cache with time to live
  (\<open>q1_lru_ttl\<close>), a semantic cache for language-model answers (\<open>q2_semantic_cache\<close>), a harness that
  records, replays and compares the tools of an agent (\<open>q3_tool_harness\<close>), and the control plane
  that decides what happens when a tool definition changes (\<open>q4_trust_layer/control\<close>).

  How the parts meet. The harness records definitions and calls into a hash-chained file; its
  differ compares two definitions, two versions or two recordings; its gate turns findings into
  an exit status. The control plane runs the same differ on a reported change and looks the
  highest severity up in its policy. Canonical JSON and the hash of a tool are shared by both.
  The two caches stand by themselves; the semantic cache has a client that shares one upstream
  call among concurrent callers.

  Conventions. Python values are those of \<open>json.loads\<close> (theory \<open>Json\<close>): strings are lists of code
  points, so that lone surrogates and UTF-8 can be spoken of, integers are unbounded, a float is
  its decimal or an infinity or NaN, a dict is an association list in insertion order. What may
  raise returns \<open>pyexc + 'a\<close>; what also changes state is a function from the state to such a
  result and the state left behind (\<open>bindS\<close> and its company in \<open>Prelude\<close>), so the state after an
  exception is part of the model. A float used as a clock or a score is \<open>flt\<close>: a real, an infinity
  or NaN; sums of floats are exact there, which is said again where it matters. Parameters stand
  for code outside the repository: SHA-256, the clock, Unicode tables (\<open>unidata\<close>; \<open>ascii_data\<close> is
  the instance of the witnesses), the JSON Schema validator, numpy's sorting, embedding models,
  the judge, the upstream model. Where a property relies on one, the assumption is a hypothesis.
  The parser of JSON text is one of them: it gives a value, or one of the exceptions of \<open>json.loads\<close>
  (\<open>JSONDecodeError\<close>, \<open>UnicodeDecodeError\<close>, plain \<open>ValueError\<close>, \<open>RecursionError\<close>), and each caller
  catches those that its source catches.
\<close>

section \<open>The theories\<close>

text \<open>
  \<^item> \<open>Prelude\<close>: exceptions, the two monads, Hoare triples (\<open>triple\<close>) for the state-exception monad,
    clocks and \<open>flt\<close>, dicts as association lists (\<open>wf_dict\<close>). \<open>Json\<close>: values, truth, comparison,
    \<open>str\<close> and \<open>repr\<close>, UTF-8. \<open>Regex\<close>: the fragment of \<open>re\<close> in use, by backtracking, with its
    declarative meaning. \<open>Difflib\<close>: \<open>SequenceMatcher.ratio\<close>.

  \<^item> LRU cache. \<open>Lru_Model\<close>: what both versions share, the list-based reference model of the tests,
    the interface \<open>ttl_cache\<close> (one step, an invariant, a view as a recency list). \<open>Lru_Dll\<close>
    (\<open>cache.py\<close>): a heap of nodes with \<open>prev\<close> and \<open>next\<close>, sentinels and an index, every method.
    \<open>Lru_Ordered\<close> (\<open>ordered_dict_impl.py\<close>). \<open>Lru_Threads\<close> (\<open>threadsafe.py\<close>): threads that take the
    lock, read, write and release as separate steps. Both implementations interpret \<open>ttl_cache\<close>,
    so that sessions refine the reference model and agree with each other.

  \<^item> Semantic cache. \<open>Guards\<close> (\<open>types.py\<close>, \<open>policy.py\<close>, \<open>guards.py\<close>): every regular expression, the
    policy, the four guards; no guard fails exactly when numbers, negation, names and direction
    agree. \<open>Vector_Index\<close> (\<open>index.py\<close>, \<open>HashingEmbedder\<close>): the matrix of rows, exact top-k search.
    \<open>Semantic_Cache\<close> (\<open>cache.py\<close>, \<open>verifier.py\<close>): partitions with entries, recency order, exact map
    and index; lookup, store, invalidate, feedback, metrics, shadow mode. \<open>Semantic_Facts\<close>: the
    interface \<open>cache_index\<close> between the cache and its index, proved for the index of the source,
    and the invariant of a partition. \<open>Semantic_Safety\<close>, \<open>Semantic_Store\<close>: a triple for every
    operation. \<open>Semantic_Sessions\<close>: sequences of calls. \<open>Semantic_Claims\<close>: the interpretation and
    the properties. \<open>Cached_Llm\<close> (\<open>client.py\<close>): calls as threads that interleave between their
    sections, with the registry of flights. \<open>Cached_Tenant\<close>: client and cache together, where the
    answers come from.

  \<^item> Canonical JSON (\<open>_canonical.py\<close>, the same file as \<open>schema/canonical.py\<close>). \<open>Canonical\<close>: encoding,
    normalisation, tool hashes. \<open>Canonical_Numbers\<close>, \<open>Canonical_Facts\<close>, \<open>Canonical_Values\<close>: a reader
    for the text, by which the text determines the value and conversely.

  \<^item> Differ. \<open>Findings\<close>, \<open>Schema_Refs\<close>, \<open>Schema_Diff\<close>, \<open>Patterns\<close>, \<open>Description_Diff\<close>,
    \<open>Behavior_Diff\<close>, \<open>Differ\<close> follow the files under \<open>harness/diff\<close> rule by rule;
    \<open>Schema_Facts\<close>, \<open>Description_Facts\<close>, \<open>Differ_Facts\<close> hold what a diff cannot miss, when it is
    silent and that it returns.

  \<^item> Harness. \<open>Recording\<close>, \<open>Recorder\<close> (with the MCP adapter), \<open>Redact\<close>, \<open>Replay\<close>, \<open>Gate\<close>, \<open>Report\<close>,
    \<open>Cli\<close> follow the files of those names; \<open>Recording_Facts\<close> and \<open>Recorder_Facts\<close> hold the hash
    chain and the invariant of the recorder.

  \<^item> Control plane. \<open>Policy\<close>, \<open>Control\<close> (\<open>service.py\<close>), \<open>Control_Http\<close> (\<open>http_api.py\<close>,
    \<open>__main__.py\<close>), \<open>Control_Differ\<close> (\<open>differ.py\<close>, with the interface \<open>breaking_differ\<close> between
    service and differ). \<open>Control_Threads\<close>: one thread per request, interleaving at the lock
    sections. \<open>Control_Safety\<close>: its invariants.
\<close>

section \<open>What is shown\<close>

text \<open>
  \<^item> Safety across components: a check that exits with 0 saw no lost or newly required parameter and
    no new category of suspicious patterns in any definition that the session recorded under a hash
    of its own (within what the differ compares: object schemas, descriptions that differ after
    normalisation); the control plane answers a lossy change with \<open>suspend\<close> or \<open>quarantine\<close>, unless
    it is approved or the differ raises; an approval wins over every diff in flight; secrets under
    secret keys do not reach a recording; a hit of the semantic cache goes back to a store in the
    same context and to a matching query; a badly rated entry is never served again (the same answer
    stored anew is another entry); a shared upstream call answers only its own query and context,
    requests that the policy refuses are not shared, and no call of the client ever gets an answer
    that upstream gave in another context.
  \<^item> Invariants and bounds: the linked list of the LRU cache, the caches of the control plane, the
    recordings the recorder writes, the five structures of a semantic-cache partition and its
    capacity.
  \<^item> Refinement and equivalence: both LRU versions against the reference model, the lock sections
    of the control plane against \<open>evaluate_change\<close> run alone, the indexed replay server against a
    scan, tool hashes under reordering.
  \<^item> Round trips: canonical text and value, accept-file and gate, store and lookup.
  \<^item> Errors: what raises and what cannot: the policy, canonical JSON, the HTTP transport (where only an
    exception of \<open>json.loads\<close> that is not caught, or one of the differ, gives a 500); a session of the
    recorder that an exception ends leaves a recording that verifies.
  \<^item> Termination and liveness: every request to the control plane can be answered from every
    reachable state; \<open>n\<close> calls of the client take at most \<open>6 n\<close> sections and leave no waiter.
\<close>

section \<open>Bounds and fuel\<close>

text \<open>
  Loops of the source are structural recursion or have a termination proof: resolving references
  by the set of references not yet seen, the differ by the sizes of both nodes, \<open>difflib\<close> by the
  ranges left. Fuel appears in three places. \<open>findall\<close> makes as many searches as the text has
  characters at most: the patterns it is used with match no empty text, so every match takes one.
  An unbounded repetition makes at most as many rounds beyond its minimum as the text has
  characters, since no repeated expression matches the empty text (\<open>wf_rx\<close>, proved for the
  patterns). \<open>shortest\<close> searches up to 400 decimal places for the
  shortest decimal of an error rate; the doubles of the unit interval that two counts give by
  division need at most 17 significant digits. Recursion limits of the interpreter are not
  modelled.
\<close>

section \<open>Not modelled\<close>

text \<open>
  Sockets, files, argument parsing, logging and the text on the error stream; \<open>record-demo\<close>, the
  demonstrations, fixtures, benchmarks, golden vectors and \<open>eval.py\<close>, which only drive the modelled
  code; the embedders and the judge that call third-party packages; the locks of the semantic
  cache (one thread at a time; \<open>Cached_Llm\<close> takes lookup and store as single steps); objects that
  a caller mutates after handing them over (values are copied in the model); rounding of
  \<open>clock() + ttl\<close> and of inner products; the Go proxy.
\<close>

end
